(* ===== verification/Prelude.thy ===== *)
theory Prelude
  imports Main "HOL-Library.Word" "HOL-Library.Product_Lexorder"
begin

text \<open>
  Shared material of the CedarGraph development: the machine integer types of the C++ sources,
  the little-endian object representation that \<open>memcpy\<close> exposes, three-way comparison and
  \<open>memcmp\<close>, the status codes of \<open>src/include/cedar/core/status.h\<close>, and the interfaces
  (locales) that several components share.
\<close>

unbundle bit_operations_syntax

named_theorems cedar_defs \<open>definitions of straight-line operations, unfolded in branch proofs\<close>

subsection \<open>Machine integers and their object representation\<close>

type_synonym u8 = "8 word"
type_synonym u16 = "16 word"
type_synonym u32 = "32 word"
type_synonym u64 = "64 word"

abbreviation u64_max :: u64 where
  "u64_max \<equiv> 0xFFFFFFFFFFFFFFFF"

text \<open>
  The bytes of an object in memory on the little-endian hosts CedarGraph targets:
  \<open>le_bytes n w\<close> is what \<open>memcpy(buf, &w, n)\<close> stores, \<open>le_word\<close> what
  \<open>memcpy(&w, buf, n)\<close> reads back.
\<close>

definition le_bytes :: "nat \<Rightarrow> 'a::len word \<Rightarrow> u8 list" where
  "le_bytes n w = map (\<lambda>i. ucast (drop_bit (8 * i) w)) [0..<n]"

primrec le_word :: "u8 list \<Rightarrow> 'a::len word" where
  "le_word [] = 0"
| "le_word (b # bs) = ucast b OR push_bit 8 (le_word bs)"

lemma length_le_bytes [simp]: "length (le_bytes n w) = n"
  by (simp add: le_bytes_def)

lemma le_bytes_Nil_iff [simp]: "le_bytes n w = [] \<longleftrightarrow> n = 0"
  using length_le_bytes [of n w] by (metis length_0_conv)

lemma nth_le_bytes [simp]: "i < n \<Longrightarrow> le_bytes n w ! i = ucast (drop_bit (8 * i) w)"
  by (simp add: le_bytes_def)

lemma bit_le_word:
  "bit (le_word bs :: 'a::len word) k \<longleftrightarrow>
     k < LENGTH('a) \<and> k div 8 < length bs \<and> bit (bs ! (k div 8)) (k mod 8)"
proof (induction bs arbitrary: k)
  case Nil
  then show ?case by simp
next
  case (Cons b bs)
  show ?case
  proof (cases "k < 8")
    case True
    then show ?thesis by (auto simp: bit_simps)
  next
    case False
    then have "k div 8 = Suc ((k - 8) div 8)" and "k mod 8 = (k - 8) mod 8"
      by (simp_all add: le_div_geq le_mod_geq)
    with False Cons.IH [of "k - 8"] show ?thesis
      by (auto simp: bit_simps dest: bit_imp_le_length)
  qed
qed

lemma le_word_le_bytes:
  assumes "LENGTH('a::len) = 8 * n"
  shows "le_word (le_bytes n w) = (w :: 'a word)"
proof (rule bit_word_eqI)
  fix k assume "k < LENGTH('a)"
  then have "k div 8 < n" using assms by linarith
  then show "bit (le_word (le_bytes n w) :: 'a word) k = bit w k"
    using \<open>k < LENGTH('a)\<close>
    by (simp add: bit_le_word bit_simps)
qed

lemma le_bytes_le_word:
  assumes "LENGTH('a::len) = 8 * length bs"
  shows "le_bytes (length bs) (le_word bs :: 'a word) = bs"
proof (rule nth_equalityI)
  fix i assume "i < length (le_bytes (length bs) (le_word bs :: 'a word))"
  then have i: "i < length bs" by simp
  show "le_bytes (length bs) (le_word bs :: 'a word) ! i = bs ! i"
  proof (rule bit_word_eqI)
    fix k assume "k < LENGTH(8)"
    then have "k < 8" by simp
    moreover have "8 * i + k < LENGTH('a)" using assms i \<open>k < 8\<close> by simp
    ultimately show "bit (le_bytes (length bs) (le_word bs :: 'a word) ! i) k = bit (bs ! i) k"
      using i by (simp add: bit_simps bit_le_word)
  qed
qed simp

lemma le_word_le_bytes_64 [simp]: "le_word (le_bytes 8 w) = (w :: u64)"
  by (rule le_word_le_bytes) simp

lemma le_word_le_bytes_32 [simp]: "le_word (le_bytes 4 w) = (w :: u32)"
  by (rule le_word_le_bytes) simp

lemma le_word_le_bytes_16 [simp]: "le_word (le_bytes 2 w) = (w :: u16)"
  by (rule le_word_le_bytes) simp

lemma unat_of_nat_u32: "n < 2 ^ 32 \<Longrightarrow> unat (of_nat n :: u32) = n"
  by (simp add: unat_of_nat)

text \<open>The value of a byte string read most significant byte first.\<close>

lemma unat_u8_less [simp]: "unat (b :: u8) < 256"
  using unsigned_less [of b] by simp

primrec be_value :: "u8 list \<Rightarrow> nat" where
  "be_value [] = 0"
| "be_value (b # bs) = unat b * 256 ^ length bs + be_value bs"

lemma be_value_less: "be_value bs < 256 ^ length bs"
proof (induction bs)
  case (Cons b bs)
  have "unat b \<le> 255" using unat_u8_less [of b] by linarith
  then have "unat b * 256 ^ length bs \<le> 255 * 256 ^ length bs" by (rule mult_le_mono1)
  moreover have "be_value (b # bs) < unat b * 256 ^ length bs + 256 ^ length bs"
    using Cons by simp
  ultimately have "be_value (b # bs) < 255 * 256 ^ length bs + 256 ^ length bs" by linarith
  then show ?case by (simp del: be_value.simps)
qed simp

lemma be_value_snoc: "be_value (bs @ [b]) = 256 * be_value bs + unat b"
  by (induction bs) (simp_all add: algebra_simps)

lemma unat_le_word:
  "8 * length bs \<le> LENGTH('a::len) \<Longrightarrow> unat (le_word bs :: 'a word) = be_value (rev bs)"
proof (induction bs)
  case (Cons b bs)
  let ?w = "le_word bs :: 'a word"
  from Cons have IH: "unat ?w = be_value (rev bs)" by simp
  have len: "8 \<le> LENGTH('a)" using Cons.prems by simp
  have "be_value (rev bs) < 256 ^ length bs" using be_value_less [of "rev bs"] by simp
  then have small: "unat ?w < 2 ^ (8 * length bs)"
    using IH by (simp add: power_mult)
  have "2 ^ 8 * (2::nat) ^ (8 * length bs) \<le> 2 ^ LENGTH('a)"
    using Cons.prems by (metis add.commute length_Cons mult_Suc_right one_le_numeral
        power_add power_increasing)
  with small have nowrap: "unat ?w * 256 < 2 ^ LENGTH('a)" by simp
  have disj: "ucast b OR push_bit 8 ?w = ucast b + push_bit 8 ?w"
    by (rule disjunctive_add [symmetric]) (auto simp: bit_simps dest: bit_imp_le_length)
  have push: "unat (push_bit 8 ?w) = unat ?w * 256"
    using nowrap len by (simp add: unsigned_push_bit_eq take_bit_nat_eq_self push_bit_eq_mult [of 8 "unat ?w"])
  have ub: "unat (ucast b :: 'a word) = unat b"
  proof -
    have "unat b < 2 ^ 8" by simp
    also have "\<dots> \<le> (2::nat) ^ LENGTH('a)" using len by (rule power_increasing) simp
    finally show ?thesis by (simp add: unsigned_ucast_eq take_bit_nat_eq_self)
  qed
  have "256 * unat ?w + 256 \<le> 2 ^ LENGTH('a)"
  proof -
    have "256 * (unat ?w + 1) \<le> 2 ^ 8 * (2::nat) ^ (8 * length bs)" using small by simp
    also have "\<dots> \<le> 2 ^ LENGTH('a)" by fact
    finally show ?thesis by simp
  qed
  then have "unat (ucast b + push_bit 8 ?w) = unat b + unat ?w * 256"
    using push ub unat_u8_less [of b] by (simp add: unat_word_ariths del: unat_u8_less)
  then show ?case using IH disj by (simp add: be_value_snoc)
qed simp

subsection \<open>Status codes\<close>

text \<open>\<open>Status\<close> of \<open>status.h\<close>: success or one of the error codes; message texts are left out.\<close>

datatype Status = OK | NotFound | Corruption | NotSupported | InvalidArgument | IOError | Conflict
  | NotLeader | Busy | ResourceExhausted | Unavailable | Cancelled | MemoryLimitExceeded

subsection \<open>Bit fields\<close>

text \<open>
  A field of \<open>n\<close> bits at position \<open>s\<close> of a word, read and written with the shift and mask
  idiom of the sources.
\<close>

definition field_get :: "nat \<Rightarrow> nat \<Rightarrow> 'a::len word \<Rightarrow> 'a word" where
  "field_get s n v = take_bit n (drop_bit s v)"

definition field_set :: "nat \<Rightarrow> nat \<Rightarrow> 'a::len word \<Rightarrow> 'a word \<Rightarrow> 'a word" where
  "field_set s n x v = (v AND NOT (push_bit s (mask n))) OR push_bit s (take_bit n x)"

lemma bit_field_set:
  "bit (field_set s n x v :: 'a::len word) k \<longleftrightarrow>
     (if s \<le> k \<and> k < s + n then k < LENGTH('a) \<and> bit x (k - s) else bit v k)"
  by (auto simp: field_set_def bit_simps dest: bit_imp_le_length)

lemma bit_field_get: "bit (field_get s n v) k \<longleftrightarrow> k < n \<and> bit v (s + k)"
  by (auto simp: field_get_def bit_simps)

lemma field_get_set_same:
  "s + n \<le> LENGTH('a::len) \<Longrightarrow> field_get s n (field_set s n x v) = take_bit n (x :: 'a word)"
  by (rule bit_word_eqI) (auto simp: bit_field_get bit_field_set bit_simps)

lemma field_get_set_other:
  "s + n \<le> t \<or> t + m \<le> s \<Longrightarrow> field_get s n (field_set t m x v) = field_get s n v"
  by (rule bit_word_eqI) (auto simp: bit_field_get bit_field_set)

lemma ucast_field_get:
  "LENGTH('b::len) \<le> n \<Longrightarrow> LENGTH('b) \<le> LENGTH('a::len) \<Longrightarrow>
   (ucast (field_get s n v :: 'a word) :: 'b word) = ucast (drop_bit s v)"
  by (rule bit_word_eqI) (auto simp: bit_field_get bit_simps)

subsection \<open>Three-way comparison\<close>

text \<open>
  The C++ comparison functions return a negative, zero or positive \<open>int\<close>; the ones of the
  sources return exactly \<open>-1\<close>, \<open>0\<close> and \<open>1\<close>.
\<close>

definition cmp3 :: "'a::linorder \<Rightarrow> 'a \<Rightarrow> int" where
  "cmp3 x y = (if x < y then -1 else if y < x then 1 else 0)"

lemma cmp3_less [simp]: "cmp3 x y < 0 \<longleftrightarrow> x < y"
  and cmp3_zero [simp]: "cmp3 x y = 0 \<longleftrightarrow> x = y"
  and cmp3_le [simp]: "cmp3 x y \<le> 0 \<longleftrightarrow> x \<le> y"
  and cmp3_greater [simp]: "0 < cmp3 x y \<longleftrightarrow> y < x"
  by (auto simp: cmp3_def)

lemma cmp3_Pair:
  "cmp3 (a, b) (c, d) = (if a \<noteq> c then (if a < c then -1 else 1) else cmp3 b d)"
  by (auto simp: cmp3_def less_prod_def)

text \<open>
  \<open>memcmp\<close> of the C library over the first \<open>n\<close> bytes; the standard fixes the sign of the
  result, which is all the sources use.
\<close>

fun memcmp :: "u8 list \<Rightarrow> u8 list \<Rightarrow> nat \<Rightarrow> int" where
  "memcmp _ _ 0 = 0"
| "memcmp (x # xs) (y # ys) (Suc n) =
     (if x \<noteq> y then (if x < y then -1 else 1) else memcmp xs ys n)"
| "memcmp _ _ (Suc n) = 0"

lemma memcmp_append:
  assumes "length xs = n" and "length ys = n"
  shows "memcmp (xs @ xs') (ys @ ys') (n + m) =
    (if xs \<noteq> ys then memcmp xs ys n else memcmp xs' ys' m)"
  using assms
proof (induction n arbitrary: xs ys)
  case (Suc n)
  then show ?case by (cases xs; cases ys) auto
qed simp

lemma memcmp_be_value:
  assumes "length xs = n" and "length ys = n"
  shows "memcmp xs ys n = cmp3 (be_value xs) (be_value ys)"
  using assms
proof (induction n arbitrary: xs ys)
  case (Suc n)
  then obtain x xs' y ys' where xs: "xs = x # xs'" "length xs' = n" and ys: "ys = y # ys'" "length ys' = n"
    by (cases xs; cases ys) auto
  have lt: "be_value xs' < 256 ^ n" "be_value ys' < 256 ^ n"
    using be_value_less [of xs'] be_value_less [of ys'] xs ys by simp_all
  have mono: "unat a * 256 ^ n + p < unat b * 256 ^ n + q"
    if "a < b" "p < 256 ^ n" for a b :: u8 and p q :: nat
  proof -
    have "Suc (unat a) \<le> unat b" using \<open>a < b\<close> by (simp add: word_less_nat_alt)
    then have "Suc (unat a) * 256 ^ n \<le> unat b * 256 ^ n" by (rule mult_le_mono1)
    with that show ?thesis by simp
  qed
  show ?case
  proof (cases x y rule: linorder_cases)
    case less
    with mono [OF less lt(1), of "be_value ys'"] xs ys show ?thesis by (auto simp: cmp3_def)
  next
    case equal
    with Suc.IH xs ys show ?thesis by (simp add: cmp3_def)
  next
    case greater
    with mono [OF greater lt(2), of "be_value xs'"] xs ys show ?thesis by (auto simp: cmp3_def)
  qed
qed (simp add: cmp3_def)

lemma be_value_rev_le_bytes:
  assumes "LENGTH('a::len) = 8 * n"
  shows "be_value (rev (le_bytes n w)) = unat (w :: 'a word)"
proof -
  have "unat (le_word (le_bytes n w) :: 'a word) = be_value (rev (le_bytes n w))"
    using assms by (intro unat_le_word) simp
  then show ?thesis by (simp add: le_word_le_bytes [OF assms])
qed

lemma memcmp_be_bytes:
  assumes "LENGTH('a::len) = 8 * n"
  shows "memcmp (rev (le_bytes n v)) (rev (le_bytes n w)) n = cmp3 v (w :: 'a word)"
  using assms
  by (simp add: memcmp_be_value be_value_rev_le_bytes cmp3_def word_less_nat_alt)

text \<open>
  The interface of a key comparator: what sorted containers (MemTable, SST blocks, merging
  iterators) rely on.
\<close>

locale comparator =
  fixes cmp :: "'k \<Rightarrow> 'k \<Rightarrow> int"
  assumes cmp_swap: "cmp b a = - cmp a b"
    and cmp_trans: "cmp a b \<le> 0 \<Longrightarrow> cmp b c \<le> 0 \<Longrightarrow> cmp a c \<le> 0"
begin

lemma cmp_refl: "cmp a a = 0"
  using cmp_swap [of a a] by simp

lemma cmp_total: "cmp a b \<le> 0 \<or> cmp b a \<le> 0"
  using cmp_swap [of a b] by linarith

lemma cmp_less_trans:
  assumes "cmp a b < 0" "cmp b c < 0"
  shows "cmp a c < 0"
proof (rule ccontr)
  assume "\<not> cmp a c < 0"
  then have "cmp c a \<le> 0" using cmp_swap [of a c] by simp
  with assms(2) have "cmp b a \<le> 0" using cmp_trans [of b c a] by simp
  with assms(1) show False using cmp_swap [of a b] by simp
qed

lemma cmp_equiv_trans: "cmp a b = 0 \<Longrightarrow> cmp b c = 0 \<Longrightarrow> cmp a c = 0"
  using cmp_trans [of a b c] cmp_trans [of c b a] cmp_swap [of a b] cmp_swap [of b c]
    cmp_swap [of a c] by linarith

lemma cmp_equiv_left: "cmp a b = 0 \<Longrightarrow> cmp a c < 0 \<longleftrightarrow> cmp b c < 0"
  using cmp_trans [of b a c] cmp_trans [of a b c] cmp_swap [of a b] cmp_swap [of b a]
    cmp_equiv_trans [of a b c] cmp_equiv_trans [of b a c] by linarith

end

lemma comparator_via_key:
  assumes "\<And>a b. cmp a b = cmp3 (key a) (key b)"
  shows "comparator cmp"
proof
  show "cmp b a = - cmp a b" for a b by (auto simp: assms cmp3_def)
  show "cmp a c \<le> 0" if "cmp a b \<le> 0" "cmp b c \<le> 0" for a b c
    using that by (simp add: assms)
qed

subsection \<open>Ordered maps\<close>

text \<open>\<open>std::map\<close>: an association list in strictly ascending key order.\<close>

fun omap_put :: "('k::linorder) \<Rightarrow> 'v \<Rightarrow> ('k \<times> 'v) list \<Rightarrow> ('k \<times> 'v) list" where
  "omap_put k v [] = [(k, v)]"
| "omap_put k v ((k', v') # m) =
     (if k < k' then (k, v) # (k', v') # m else if k = k' then (k, v) # m else (k', v') # omap_put k v m)"

definition omap_ok :: "(('k::linorder) \<times> 'v) list \<Rightarrow> bool" where
  "omap_ok m \<longleftrightarrow> sorted_wrt (<) (map fst m)"

lemma omap_ok_Nil [simp]: "omap_ok []"
  by (simp add: omap_ok_def)

lemma omap_ok_Cons: "omap_ok ((k, v) # m) \<longleftrightarrow> (\<forall>k' \<in> fst ` set m. k < k') \<and> omap_ok m"
  by (auto simp: omap_ok_def)

lemma fst_set_omap_put: "fst ` set (omap_put k v m) = insert k (fst ` set m)"
  by (induction m rule: omap_put.induct) auto

lemma omap_ok_put [simp]: "omap_ok m \<Longrightarrow> omap_ok (omap_put k v m)"
  by (induction k v m rule: omap_put.induct) (auto simp: omap_ok_Cons fst_set_omap_put)

lemma map_of_omap_put [simp]: "omap_ok m \<Longrightarrow> map_of (omap_put k v m) = (map_of m)(k \<mapsto> v)"
proof (induction k v m rule: omap_put.induct)
  case (2 k v k' v' m)
  have "map_of m k = None" if "k < k'"
    using 2(2) that by (auto simp: omap_ok_Cons map_of_eq_None_iff)
  then show ?case using 2 by (auto simp: omap_ok_Cons fun_upd_twist fun_eq_iff)
qed (simp add: fun_eq_iff)

lemma map_of_omap_put_same [simp]: "map_of (omap_put k v m) k = Some v"
  by (induction k v m rule: omap_put.induct) auto

lemma omap_put_last: "\<forall>k' \<in> fst ` set m. k' < k \<Longrightarrow> omap_put k v m = m @ [(k, v)]"
  by (induction m rule: omap_put.induct) auto

lemma omap_ok_distinct: "omap_ok m \<Longrightarrow> distinct (map fst m)"
  unfolding omap_ok_def using strict_sorted_iff by blast

lemma set_omap_put: "omap_ok m \<Longrightarrow> set (omap_put k v m) = insert (k, v) {x \<in> set m. fst x \<noteq> k}"
proof (induction k v m rule: omap_put.induct)
  case (2 k v k' v' m)
  have "x \<in> set m \<Longrightarrow> k' < fst x" for x using 2(2) by (auto simp: omap_ok_Cons)
  then show ?case using 2 by (auto simp: omap_ok_Cons) fastforce+
qed simp

lemma omap_put_idem: "omap_ok m \<Longrightarrow> map_of m k = Some v \<Longrightarrow> omap_put k v m = m"
proof (induction k v m rule: omap_put.induct)
  case (2 k v k' v' m)
  then have "k' \<le> k"
    by (auto simp: omap_ok_Cons dest!: map_of_SomeD split: if_splits)
  then show ?case using 2 by (auto simp: omap_ok_Cons)
qed simp

end
