(* ===== verification/Cedar_Key.thy ===== *)
theory Cedar_Key
  imports Prelude
begin

text \<open>
  The fixed 32 byte key of \<open>src/include/cedar/types/cedar_key.h\<close>: byte-order conversion,
  timestamps stored in descending form, the key object with its raw (converted) fields, the
  factories, accessors and modifiers, the comparison functions used by MemTable and SST code, and
  the byte comparator of the LSM tree. The host is little-endian, as on the platforms the build
  supports.
\<close>

subsection \<open>Byte order conversion\<close>

definition cedar_htobe64 :: "u64 \<Rightarrow> u64" where
  "cedar_htobe64 x =
     drop_bit 56 (x AND 0xFF00000000000000) OR
     drop_bit 40 (x AND 0x00FF000000000000) OR
     drop_bit 24 (x AND 0x0000FF0000000000) OR
     drop_bit 8  (x AND 0x000000FF00000000) OR
     push_bit 8  (x AND 0x00000000FF000000) OR
     push_bit 24 (x AND 0x0000000000FF0000) OR
     push_bit 40 (x AND 0x000000000000FF00) OR
     push_bit 56 (x AND 0x00000000000000FF)"

definition cedar_be64toh :: "u64 \<Rightarrow> u64" where
  "cedar_be64toh x = cedar_htobe64 x"

definition cedar_htobe16 :: "u16 \<Rightarrow> u16" where
  "cedar_htobe16 x = drop_bit 8 (x AND 0xFF00) OR push_bit 8 (x AND 0x00FF)"

definition cedar_be16toh :: "u16 \<Rightarrow> u16" where
  "cedar_be16toh x = cedar_htobe16 x"

subsection \<open>Timestamps\<close>

type_synonym timestamp = u64

definition EncodeForStorage :: "timestamp \<Rightarrow> u64" where
  "EncodeForStorage ts = cedar_htobe64 (u64_max - ts)"

definition DecodeFromStorage :: "u64 \<Rightarrow> timestamp" where
  "DecodeFromStorage stored_be = u64_max - cedar_be64toh stored_be"

definition Timestamp_Static :: timestamp where
  "Timestamp_Static = 1"

definition Timestamp_IsStatic :: "timestamp \<Rightarrow> bool" where
  "Timestamp_IsStatic ts \<longleftrightarrow> ts = 1"

subsection \<open>Entity types and flag bits\<close>

datatype EntityType = Vertex | EdgeOut | EdgeIn

primrec entity_type_code :: "EntityType \<Rightarrow> u8" where
  "entity_type_code Vertex = 0"
| "entity_type_code EdgeOut = 1"
| "entity_type_code EdgeIn = 2"

definition kOpTypeMask :: u8 where "kOpTypeMask = 0x03"
definition kOpCreate :: u8 where "kOpCreate = 0x00"
definition kOpUpdate :: u8 where "kOpUpdate = 0x01"
definition kOpDelete :: u8 where "kOpDelete = 0x02"
definition kIsDistributed :: u8 where "kIsDistributed = 0x04"
definition kHasVInline :: u8 where "kHasVInline = 0x08"
definition kIsCompressed :: u8 where "kIsCompressed = 0x10"
definition kIsLocked :: u8 where "kIsLocked = 0x20"
definition kHasExtension :: u8 where "kHasExtension = 0x40"
definition kTombstone :: u8 where "kTombstone = 0x80"
definition kIsStaticColumn :: u16 where "kIsStaticColumn = 0x8000"

lemmas key_flag_defs = kOpTypeMask_def kOpCreate_def kOpUpdate_def kOpDelete_def
  kIsDistributed_def kHasVInline_def kIsCompressed_def kIsLocked_def kHasExtension_def
  kTombstone_def kIsStaticColumn_def

subsection \<open>The key object\<close>

record cedar_key =
  entity_id_f :: u64
  timestamp_be_f :: u64
  target_id_f :: u64
  column_id_f :: u16
  sequence_f :: u16
  entity_type_f :: u8
  flags_f :: u8
  part_id_f :: u16

definition CedarKey_default :: cedar_key where
  "CedarKey_default = \<lparr>entity_id_f = 0, timestamp_be_f = 0, target_id_f = 0, column_id_f = 0,
     sequence_f = 0, entity_type_f = 0, flags_f = 0, part_id_f = 0\<rparr>"

definition CedarKey_make ::
  "u64 \<Rightarrow> EntityType \<Rightarrow> u16 \<Rightarrow> timestamp \<Rightarrow> u16 \<Rightarrow> u64 \<Rightarrow> u8 \<Rightarrow> u16 \<Rightarrow> cedar_key" where
  "CedarKey_make eid etype col ts seq target flags part =
     \<lparr>entity_id_f = cedar_htobe64 eid, timestamp_be_f = EncodeForStorage ts,
      target_id_f = cedar_htobe64 target, column_id_f = cedar_htobe16 col,
      sequence_f = cedar_htobe16 seq, entity_type_f = entity_type_code etype,
      flags_f = flags, part_id_f = cedar_htobe16 part\<rparr>"

definition CedarKey_Vertex ::
  "u64 \<Rightarrow> u16 \<Rightarrow> timestamp \<Rightarrow> u16 \<Rightarrow> u16 \<Rightarrow> u64 \<Rightarrow> u8 \<Rightarrow> cedar_key" where
  "CedarKey_Vertex vertex_id col ts seq part_id target_id flags =
     CedarKey_default\<lparr>entity_id_f := cedar_htobe64 vertex_id, timestamp_be_f := EncodeForStorage ts,
       target_id_f := cedar_htobe64 target_id, column_id_f := cedar_htobe16 col,
       sequence_f := cedar_htobe16 seq, entity_type_f := entity_type_code Vertex,
       flags_f := flags, part_id_f := cedar_htobe16 part_id\<rparr>"

definition CedarKey_EdgeOut ::
  "u64 \<Rightarrow> u64 \<Rightarrow> u16 \<Rightarrow> timestamp \<Rightarrow> u16 \<Rightarrow> u16 \<Rightarrow> u8 \<Rightarrow> cedar_key" where
  "CedarKey_EdgeOut src_id dst_id edge_type ts seq part_id flags =
     CedarKey_default\<lparr>entity_id_f := cedar_htobe64 src_id, timestamp_be_f := EncodeForStorage ts,
       target_id_f := cedar_htobe64 dst_id, column_id_f := cedar_htobe16 edge_type,
       sequence_f := cedar_htobe16 seq, entity_type_f := entity_type_code EdgeOut,
       flags_f := flags, part_id_f := cedar_htobe16 part_id\<rparr>"

definition CedarKey_EdgeIn ::
  "u64 \<Rightarrow> u64 \<Rightarrow> u16 \<Rightarrow> timestamp \<Rightarrow> u16 \<Rightarrow> u16 \<Rightarrow> u8 \<Rightarrow> cedar_key" where
  "CedarKey_EdgeIn dst_id src_id edge_type ts seq part_id flags =
     CedarKey_default\<lparr>entity_id_f := cedar_htobe64 dst_id, timestamp_be_f := EncodeForStorage ts,
       target_id_f := cedar_htobe64 src_id, column_id_f := cedar_htobe16 edge_type,
       sequence_f := cedar_htobe16 seq, entity_type_f := entity_type_code EdgeIn,
       flags_f := flags, part_id_f := cedar_htobe16 part_id\<rparr>"

definition MakeEdge ::
  "u64 \<Rightarrow> u64 \<Rightarrow> u16 \<Rightarrow> timestamp \<Rightarrow> u16 \<Rightarrow> u16 \<Rightarrow> cedar_key \<times> cedar_key" where
  "MakeEdge src_id dst_id edge_type ts seq part_id =
     (CedarKey_EdgeOut src_id dst_id edge_type ts seq part_id 0,
      CedarKey_EdgeIn dst_id src_id edge_type ts seq part_id 0)"

definition HandleSequenceOverflow :: "timestamp \<Rightarrow> u16 \<Rightarrow> timestamp \<times> u16" where
  "HandleSequenceOverflow ts seq = (if 65530 \<le> seq then (ts + 1, 0) else (ts, seq))"

subsection \<open>Accessors\<close>

definition entity_id :: "cedar_key \<Rightarrow> u64" where
  "entity_id k = cedar_be64toh (entity_id_f k)"

definition target_id :: "cedar_key \<Rightarrow> u64" where
  "target_id k = cedar_be64toh (target_id_f k)"

definition column_id :: "cedar_key \<Rightarrow> u16" where
  "column_id k = cedar_be16toh (column_id_f k)"

definition sequence_id :: "cedar_key \<Rightarrow> u16" where
  "sequence_id k = cedar_be16toh (sequence_f k)"

definition part_id :: "cedar_key \<Rightarrow> u16" where
  "part_id k = cedar_be16toh (part_id_f k)"

definition timestamp_of :: "cedar_key \<Rightarrow> timestamp" where
  "timestamp_of k = DecodeFromStorage (timestamp_be_f k)"

definition IsVertex :: "cedar_key \<Rightarrow> bool" where "IsVertex k \<longleftrightarrow> entity_type_f k = 0"
definition IsEdgeOut :: "cedar_key \<Rightarrow> bool" where "IsEdgeOut k \<longleftrightarrow> entity_type_f k = 1"
definition IsEdgeIn :: "cedar_key \<Rightarrow> bool" where "IsEdgeIn k \<longleftrightarrow> entity_type_f k = 2"
definition IsEdge :: "cedar_key \<Rightarrow> bool" where
  "IsEdge k \<longleftrightarrow> entity_type_f k = 1 \<or> entity_type_f k = 2"

definition IsTombstone :: "cedar_key \<Rightarrow> bool" where
  "IsTombstone k \<longleftrightarrow> flags_f k AND kTombstone \<noteq> 0"
definition IsCompressed :: "cedar_key \<Rightarrow> bool" where
  "IsCompressed k \<longleftrightarrow> flags_f k AND kIsCompressed \<noteq> 0"
definition IsDistributed :: "cedar_key \<Rightarrow> bool" where
  "IsDistributed k \<longleftrightarrow> flags_f k AND kIsDistributed \<noteq> 0"
definition IsLocked :: "cedar_key \<Rightarrow> bool" where
  "IsLocked k \<longleftrightarrow> flags_f k AND kIsLocked \<noteq> 0"
definition HasVInline :: "cedar_key \<Rightarrow> bool" where
  "HasVInline k \<longleftrightarrow> flags_f k AND kHasVInline \<noteq> 0"

definition IsStaticColumn :: "cedar_key \<Rightarrow> bool" where
  "IsStaticColumn k \<longleftrightarrow> column_id_f k AND kIsStaticColumn \<noteq> 0"

definition GetBaseColumnId :: "cedar_key \<Rightarrow> u16" where
  "GetBaseColumnId k = column_id_f k AND NOT kIsStaticColumn"

definition MarkStatic :: "cedar_key \<Rightarrow> cedar_key" where
  "MarkStatic k = k\<lparr>column_id_f := column_id_f k OR kIsStaticColumn\<rparr>"

definition ClearStatic :: "cedar_key \<Rightarrow> cedar_key" where
  "ClearStatic k = k\<lparr>column_id_f := column_id_f k AND NOT kIsStaticColumn\<rparr>"

definition GetOpType :: "cedar_key \<Rightarrow> u8" where
  "GetOpType k = flags_f k AND kOpTypeMask"

definition IsCreate :: "cedar_key \<Rightarrow> bool" where "IsCreate k \<longleftrightarrow> GetOpType k = kOpCreate"
definition IsUpdate :: "cedar_key \<Rightarrow> bool" where "IsUpdate k \<longleftrightarrow> GetOpType k = kOpUpdate"
definition IsDelete :: "cedar_key \<Rightarrow> bool" where "IsDelete k \<longleftrightarrow> GetOpType k = kOpDelete"

definition GetEdgePeerId :: "cedar_key \<Rightarrow> u64" where
  "GetEdgePeerId k = (if IsEdge k then target_id k else 0)"

definition GetInEdgeSrcId :: "cedar_key \<Rightarrow> u64" where
  "GetInEdgeSrcId k = (if IsEdgeIn k then target_id k else 0)"

definition GetOutEdgeDstId :: "cedar_key \<Rightarrow> u64" where
  "GetOutEdgeDstId k = (if IsEdgeOut k then target_id k else 0)"

subsection \<open>Modifiers\<close>

definition SetFlags :: "u8 \<Rightarrow> cedar_key \<Rightarrow> cedar_key" where
  "SetFlags fl k = k\<lparr>flags_f := fl\<rparr>"

definition AddFlags :: "u8 \<Rightarrow> cedar_key \<Rightarrow> cedar_key" where
  "AddFlags fl k = k\<lparr>flags_f := flags_f k OR fl\<rparr>"

definition ClearFlags :: "u8 \<Rightarrow> cedar_key \<Rightarrow> cedar_key" where
  "ClearFlags fl k = k\<lparr>flags_f := flags_f k AND NOT fl\<rparr>"

definition SetSequence :: "u16 \<Rightarrow> cedar_key \<Rightarrow> cedar_key" where
  "SetSequence seq k = k\<lparr>sequence_f := cedar_htobe16 seq\<rparr>"

definition SetPartId :: "u16 \<Rightarrow> cedar_key \<Rightarrow> cedar_key" where
  "SetPartId p k = k\<lparr>part_id_f := cedar_htobe16 p\<rparr>"

definition SetTargetId :: "u64 \<Rightarrow> cedar_key \<Rightarrow> cedar_key" where
  "SetTargetId t k = k\<lparr>target_id_f := cedar_htobe64 t\<rparr>"

definition SetEntityId :: "u64 \<Rightarrow> cedar_key \<Rightarrow> cedar_key" where
  "SetEntityId e k = k\<lparr>entity_id_f := cedar_htobe64 e\<rparr>"

definition SetColumnId :: "u16 \<Rightarrow> cedar_key \<Rightarrow> cedar_key" where
  "SetColumnId c k = k\<lparr>column_id_f := cedar_htobe16 c\<rparr>"

definition SetTimestamp :: "timestamp \<Rightarrow> cedar_key \<Rightarrow> cedar_key" where
  "SetTimestamp ts k = k\<lparr>timestamp_be_f := EncodeForStorage ts\<rparr>"

definition SetOpType :: "u8 \<Rightarrow> cedar_key \<Rightarrow> cedar_key" where
  "SetOpType op k = k\<lparr>flags_f := (flags_f k AND NOT kOpTypeMask) OR (op AND kOpTypeMask)\<rparr>"

subsection \<open>Comparison\<close>

definition CompareForSorting :: "cedar_key \<Rightarrow> cedar_key \<Rightarrow> int" where
  "CompareForSorting a b =
    (if entity_id a \<noteq> entity_id b then (if entity_id a < entity_id b then -1 else 1)
     else if entity_type_f a \<noteq> entity_type_f b then (if entity_type_f a < entity_type_f b then -1 else 1)
     else if column_id a \<noteq> column_id b then (if column_id a < column_id b then -1 else 1)
     else if target_id a \<noteq> target_id b then (if target_id a < target_id b then -1 else 1)
     else if timestamp_be_f a \<noteq> timestamp_be_f b then (if timestamp_be_f b < timestamp_be_f a then -1 else 1)
     else if sequence_id a \<noteq> sequence_id b then (if sequence_id a < sequence_id b then -1 else 1)
     else 0)"

definition LessForSorting :: "cedar_key \<Rightarrow> cedar_key \<Rightarrow> bool" where
  "LessForSorting a b \<longleftrightarrow> CompareForSorting a b < 0"

definition SameEntity :: "cedar_key \<Rightarrow> cedar_key \<Rightarrow> bool" where
  "SameEntity a b \<longleftrightarrow> entity_id a = entity_id b \<and> entity_type_f a = entity_type_f b"

definition SameProperty :: "cedar_key \<Rightarrow> cedar_key \<Rightarrow> bool" where
  "SameProperty a b \<longleftrightarrow> entity_id a = entity_id b \<and> entity_type_f a = entity_type_f b \<and>
     column_id a = column_id b"

definition Compare :: "cedar_key \<Rightarrow> cedar_key \<Rightarrow> int" where
  "Compare a b =
    (if entity_id a \<noteq> entity_id b then (if entity_id a < entity_id b then -1 else 1)
     else if entity_type_f a \<noteq> entity_type_f b then (if entity_type_f a < entity_type_f b then -1 else 1)
     else if column_id_f a \<noteq> column_id_f b then (if column_id_f a < column_id_f b then -1 else 1)
     else if target_id_f a \<noteq> target_id_f b then (if target_id_f a < target_id_f b then -1 else 1)
     else if timestamp_be_f a \<noteq> timestamp_be_f b then (if timestamp_be_f a < timestamp_be_f b then -1 else 1)
     else if sequence_f a \<noteq> sequence_f b then (if sequence_f a < sequence_f b then -1 else 1)
     else if flags_f a \<noteq> flags_f b then (if flags_f a < flags_f b then -1 else 1)
     else 0)"

definition CompareUserKey :: "cedar_key \<Rightarrow> cedar_key \<Rightarrow> int" where
  "CompareUserKey a b =
    (if entity_id a \<noteq> entity_id b then (if entity_id a < entity_id b then -1 else 1)
     else if entity_type_f a \<noteq> entity_type_f b then (if entity_type_f a < entity_type_f b then -1 else 1)
     else if column_id_f a \<noteq> column_id_f b then (if column_id_f a < column_id_f b then -1 else 1)
     else if target_id_f a \<noteq> target_id_f b then (if target_id_f a < target_id_f b then -1 else 1)
     else 0)"

definition SameUserKey :: "cedar_key \<Rightarrow> cedar_key \<Rightarrow> bool" where
  "SameUserKey a b \<longleftrightarrow> CompareUserKey a b = 0"

subsection \<open>Serialisation and the byte comparator\<close>

definition kKeySize :: nat where "kKeySize = 32"
definition kUserKeySize :: nat where "kUserKeySize = 19"

definition Encode :: "cedar_key \<Rightarrow> u8 list" where
  "Encode k = le_bytes 8 (entity_id_f k) @ le_bytes 8 (timestamp_be_f k) @ le_bytes 8 (target_id_f k) @
     le_bytes 2 (column_id_f k) @ le_bytes 2 (sequence_f k) @ le_bytes 1 (entity_type_f k) @
     le_bytes 1 (flags_f k) @ le_bytes 2 (part_id_f k)"

definition Decode_ptr :: "u8 list \<Rightarrow> cedar_key" where
  "Decode_ptr p =
     \<lparr>entity_id_f = le_word (take 8 p), timestamp_be_f = le_word (take 8 (drop 8 p)),
      target_id_f = le_word (take 8 (drop 16 p)), column_id_f = le_word (take 2 (drop 24 p)),
      sequence_f = le_word (take 2 (drop 26 p)), entity_type_f = le_word (take 1 (drop 28 p)),
      flags_f = le_word (take 1 (drop 29 p)), part_id_f = le_word (take 2 (drop 30 p))\<rparr>"

definition Decode :: "u8 list \<Rightarrow> cedar_key option" where
  "Decode s = (if length s < kKeySize then None else Some (Decode_ptr s))"

definition GetUserKeyBytes :: "cedar_key \<Rightarrow> u8 list" where
  "GetUserKeyBytes k = le_bytes 8 (entity_id_f k) @ le_bytes 1 (entity_type_f k) @
     le_bytes 2 (column_id_f k) @ le_bytes 8 (target_id_f k)"

definition CedarKeyComparator_Compare :: "u8 list \<Rightarrow> u8 list \<Rightarrow> int" where
  "CedarKeyComparator_Compare a b =
     (if length a < kKeySize \<or> length b < kKeySize
      then (if length a < length b then -1 else if length b < length a then 1 else 0)
      else memcmp a b kKeySize)"

definition EqualPrefix :: "u8 list \<Rightarrow> u8 list \<Rightarrow> nat \<Rightarrow> bool" where
  "EqualPrefix a b prefix_len =
     (let len = min (min (length a) (length b)) prefix_len in memcmp a b len = 0)"

definition ExtractUserKey :: "u8 list \<Rightarrow> u8 list" where
  "ExtractUserKey key = (if length key < kUserKeySize then key else take kUserKeySize key)"

definition CedarKeyComparator_CompareUserKey :: "u8 list \<Rightarrow> u8 list \<Rightarrow> int" where
  "CedarKeyComparator_CompareUserKey a b =
     (if length a < kKeySize \<or> length b < kKeySize
      then (if length a < length b then -1 else if length b < length a then 1 else 0)
      else CompareUserKey (Decode_ptr a) (Decode_ptr b))"

subsection \<open>Internal keys of the MemTable\<close>

record internal_key =
  ik_entity_id :: u64
  ik_entity_type :: u8
  ik_column_id :: u16
  ik_target_id :: u64

definition InternalKey_of :: "cedar_key \<Rightarrow> internal_key" where
  "InternalKey_of k = \<lparr>ik_entity_id = entity_id k, ik_entity_type = entity_type_f k,
     ik_column_id = column_id k, ik_target_id = target_id k\<rparr>"

definition InternalKey_eq :: "internal_key \<Rightarrow> internal_key \<Rightarrow> bool" where
  "InternalKey_eq a b \<longleftrightarrow> ik_entity_id a = ik_entity_id b \<and> ik_entity_type a = ik_entity_type b \<and>
     ik_column_id a = ik_column_id b \<and> ik_target_id a = ik_target_id b"

definition InternalKey_less :: "internal_key \<Rightarrow> internal_key \<Rightarrow> bool" where
  "InternalKey_less a b =
     (if ik_entity_id a \<noteq> ik_entity_id b then ik_entity_id a < ik_entity_id b
      else if ik_entity_type a \<noteq> ik_entity_type b then ik_entity_type a < ik_entity_type b
      else if ik_column_id a \<noteq> ik_column_id b then ik_column_id a < ik_column_id b
      else ik_target_id a < ik_target_id b)"

subsection \<open>Byte order conversion is an involution\<close>

lemma bit_cedar_htobe64:
  assumes "n < 64"
  shows "bit (cedar_htobe64 x) n = bit x (56 - 8 * (n div 8) + n mod 8)"
proof -
  have "\<forall>n \<in> set [0..<64]. bit (cedar_htobe64 x) n = bit x (56 - 8 * (n div 8) + n mod 8)"
    by (simp add: upt_rec cedar_htobe64_def bit_simps) (simp add: numeral_eq_Suc)
  then show ?thesis using assms by simp
qed

lemma bit_cedar_htobe16:
  assumes "n < 16"
  shows "bit (cedar_htobe16 x) n = bit x (8 - 8 * (n div 8) + n mod 8)"
proof -
  have "\<forall>n \<in> set [0..<16]. bit (cedar_htobe16 x) n = bit x (8 - 8 * (n div 8) + n mod 8)"
    by (simp add: upt_rec cedar_htobe16_def bit_simps) (simp add: numeral_eq_Suc)
  then show ?thesis using assms by simp
qed

lemma le_bytes_htobe64: "le_bytes 8 (cedar_htobe64 x) = rev (le_bytes 8 x)"
proof (rule nth_equalityI)
  fix i assume "i < length (le_bytes 8 (cedar_htobe64 x))"
  then have i: "i < 8" by simp
  show "le_bytes 8 (cedar_htobe64 x) ! i = rev (le_bytes 8 x) ! i"
  proof (rule bit_word_eqI)
    fix k assume "k < LENGTH(8)"
    then have k: "k < 8" by simp
    have "bit (cedar_htobe64 x) (8 * i + k) = bit x (56 - 8 * i + k)"
      using bit_cedar_htobe64 [of "8 * i + k" x] i k by simp
    moreover have "8 * (7 - i) + k = 56 - 8 * i + k" using i by simp
    ultimately show "bit (le_bytes 8 (cedar_htobe64 x) ! i) k = bit (rev (le_bytes 8 x) ! i) k"
      using i k by (simp add: rev_nth bit_simps)
  qed
qed simp

lemma le_bytes_htobe16: "le_bytes 2 (cedar_htobe16 x) = rev (le_bytes 2 x)"
proof (rule nth_equalityI)
  fix i assume "i < length (le_bytes 2 (cedar_htobe16 x))"
  then have i: "i < 2" by simp
  show "le_bytes 2 (cedar_htobe16 x) ! i = rev (le_bytes 2 x) ! i"
  proof (rule bit_word_eqI)
    fix k assume "k < LENGTH(8)"
    then have k: "k < 8" by simp
    have "bit (cedar_htobe16 x) (8 * i + k) = bit x (8 - 8 * i + k)"
      using bit_cedar_htobe16 [of "8 * i + k" x] i k by simp
    moreover have "8 * (1 - i) + k = 8 - 8 * i + k" using i by simp
    ultimately show "bit (le_bytes 2 (cedar_htobe16 x) ! i) k = bit (rev (le_bytes 2 x) ! i) k"
      using i k by (simp add: rev_nth bit_simps)
  qed
qed simp

lemma be64_roundtrip [simp]: "cedar_be64toh (cedar_htobe64 x) = x"
  by (metis cedar_be64toh_def le_bytes_htobe64 le_word_le_bytes_64 rev_rev_ident)

lemma be64_roundtrip' [simp]: "cedar_htobe64 (cedar_be64toh x) = x"
  using be64_roundtrip [of x] by (simp add: cedar_be64toh_def)

lemma be16_roundtrip [simp]: "cedar_be16toh (cedar_htobe16 x) = x"
  by (metis cedar_be16toh_def le_bytes_htobe16 le_word_le_bytes_16 rev_rev_ident)

lemma be16_roundtrip' [simp]: "cedar_htobe16 (cedar_be16toh x) = x"
  using be16_roundtrip [of x] by (simp add: cedar_be16toh_def)

lemma cedar_be64toh_inject [simp]: "cedar_be64toh x = cedar_be64toh y \<longleftrightarrow> x = y"
  by (metis be64_roundtrip')

lemma cedar_be16toh_inject [simp]: "cedar_be16toh x = cedar_be16toh y \<longleftrightarrow> x = y"
  by (metis be16_roundtrip')

lemma timestamp_storage_roundtrip [simp]: "DecodeFromStorage (EncodeForStorage ts) = ts"
  by (simp add: DecodeFromStorage_def EncodeForStorage_def)

lemma rev_le_bytes_be64: "le_bytes 8 w = rev (le_bytes 8 (cedar_be64toh w))"
  by (simp flip: le_bytes_htobe64)

lemma rev_le_bytes_be16: "le_bytes 2 w = rev (le_bytes 2 (cedar_be16toh w))"
  by (simp flip: le_bytes_htobe16)

lemma memcmp_be64: "memcmp (le_bytes 8 v) (le_bytes 8 w) 8 = cmp3 (cedar_be64toh v) (cedar_be64toh w)"
  by (subst (1 2) rev_le_bytes_be64) (rule memcmp_be_bytes, simp)

lemma memcmp_be16: "memcmp (le_bytes 2 v) (le_bytes 2 w) 2 = cmp3 (cedar_be16toh v) (cedar_be16toh w)"
  by (subst (1 2) rev_le_bytes_be16) (rule memcmp_be_bytes, simp)

lemma memcmp_u8: "memcmp (le_bytes 1 v) (le_bytes 1 w) 1 = cmp3 v (w :: u8)"
  by (simp add: le_bytes_def cmp3_def)

subsection \<open>Factories, accessors and serialisation\<close>

lemmas cedar_key_accessor_defs =
  entity_id_def target_id_def column_id_def sequence_id_def part_id_def timestamp_of_def

lemmas cedar_key_factory_defs =
  CedarKey_default_def CedarKey_make_def CedarKey_Vertex_def CedarKey_EdgeOut_def CedarKey_EdgeIn_def

lemma accessors_CedarKey_make [simp]:
  "entity_id (CedarKey_make e t c ts s tg f p) = e"
  "target_id (CedarKey_make e t c ts s tg f p) = tg"
  "column_id (CedarKey_make e t c ts s tg f p) = c"
  "sequence_id (CedarKey_make e t c ts s tg f p) = s"
  "part_id (CedarKey_make e t c ts s tg f p) = p"
  "timestamp_of (CedarKey_make e t c ts s tg f p) = ts"
  "entity_type_f (CedarKey_make e t c ts s tg f p) = entity_type_code t"
  "flags_f (CedarKey_make e t c ts s tg f p) = f"
  by (simp_all add: CedarKey_make_def cedar_key_accessor_defs)

lemma factory_make:
  "CedarKey_Vertex v c ts s p tg f = CedarKey_make v Vertex c ts s tg f p"
  "CedarKey_EdgeOut src dst c ts s p f = CedarKey_make src EdgeOut c ts s dst f p"
  "CedarKey_EdgeIn dst src c ts s p f = CedarKey_make dst EdgeIn c ts s src f p"
  by (simp_all add: cedar_key_factory_defs)

lemma DecodeFromStorage_inject [simp]: "DecodeFromStorage x = DecodeFromStorage y \<longleftrightarrow> x = y"
  by (simp add: DecodeFromStorage_def)

lemma cedar_key_eqI:
  assumes "entity_id a = entity_id b" "timestamp_of a = timestamp_of b" "target_id a = target_id b"
    "column_id a = column_id b" "sequence_id a = sequence_id b" "entity_type_f a = entity_type_f b"
    "flags_f a = flags_f b" "part_id a = part_id b"
  shows "a = (b :: cedar_key)"
  using assms by (cases a; cases b) (simp add: cedar_key_accessor_defs)

lemma length_Encode [simp]: "length (Encode k) = 32"
  by (simp add: Encode_def)

lemma le_word_u8 [simp]: "le_word (le_bytes (Suc 0) w) = (w :: u8)"
  by (rule le_word_le_bytes) simp

lemma Decode_ptr_Encode: "Decode_ptr (Encode k @ rest) = k"
  by (cases k) (simp add: Decode_ptr_def Encode_def)

lemma take_drop_join: "take n (drop m xs) @ drop (m + n) xs = drop m xs"
  by (metis add.commute append_take_drop_id drop_drop)

lemma le_bytes_slice:
  assumes "LENGTH('a::len) = 8 * n" "m + n \<le> length bs"
  shows "le_bytes n (le_word (take n (drop m bs)) :: 'a word) = take n (drop m bs)"
  using le_bytes_le_word [where 'a = 'a, of "take n (drop m bs)"] assms by simp

lemma Encode_Decode_ptr:
  assumes len: "length bs = 32"
  shows "Encode (Decode_ptr bs) = bs"
proof -
  have parts: "take 2 (drop 30 bs) = drop 30 bs"
    "take 1 (drop 29 bs) @ drop 30 bs = drop 29 bs"
    "take 1 (drop 28 bs) @ drop 29 bs = drop 28 bs"
    "take 2 (drop 26 bs) @ drop 28 bs = drop 26 bs"
    "take 2 (drop 24 bs) @ drop 26 bs = drop 24 bs"
    "take 8 (drop 16 bs) @ drop 24 bs = drop 16 bs"
    "take 8 (drop 8 bs) @ drop 16 bs = drop 8 bs"
    "take 8 bs @ drop 8 bs = bs"
    using take_drop_join [of 1 29 bs] take_drop_join [of 1 28 bs] take_drop_join [of 2 26 bs]
      take_drop_join [of 2 24 bs] take_drop_join [of 8 16 bs] take_drop_join [of 8 8 bs] len
    by simp_all
  note slice64 = le_bytes_slice [where 'a = 64 and n = 8 and bs = bs]
    and slice16 = le_bytes_slice [where 'a = 16 and n = 2 and bs = bs]
    and slice8 = le_bytes_slice [where 'a = 8 and n = 1 and bs = bs]
  show ?thesis
    using slice64 [of 0] slice64 [of 8] slice64 [of 16] slice16 [of 24] slice16 [of 26]
      slice8 [of 28] slice8 [of 29] slice16 [of 30] len
    by (simp only: Encode_def Decode_ptr_def cedar_key.simps) (simp add: parts del: One_nat_def)
qed

subsection \<open>Comparison functions\<close>

text \<open>Each comparison function is a lexicographic comparison of a tuple of fields.\<close>

definition compare_tuple :: "cedar_key \<Rightarrow> u64 \<times> u8 \<times> u16 \<times> u64 \<times> u64 \<times> u16 \<times> u8" where
  "compare_tuple k = (entity_id k, entity_type_f k, column_id_f k, target_id_f k, timestamp_be_f k,
     sequence_f k, flags_f k)"

definition user_key_tuple :: "cedar_key \<Rightarrow> u64 \<times> u8 \<times> u16 \<times> u64" where
  "user_key_tuple k = (entity_id k, entity_type_f k, column_id_f k, target_id_f k)"

definition sorting_tuple :: "cedar_key \<Rightarrow> u64 \<times> u8 \<times> u16 \<times> u64 \<times> u64 \<times> u16" where
  "sorting_tuple k = (entity_id k, entity_type_f k, column_id k, target_id k,
     u64_max - timestamp_be_f k, sequence_id k)"

lemma unat_u64_max_diff: "unat (u64_max - x) = 2 ^ 64 - 1 - unat (x :: u64)"
proof -
  have "unat x < 2 ^ 64" using unsigned_less [of x] by simp
  then have "x \<le> u64_max" by (simp add: word_le_nat_alt)
  then show ?thesis by (simp add: unat_sub)
qed

lemma u64_max_diff_less [simp]: "u64_max - x < u64_max - y \<longleftrightarrow> y < (x :: u64)"
proof -
  have "unat x < 2 ^ 64" "unat y < 2 ^ 64"
    using unsigned_less [of x] unsigned_less [of y] by simp_all
  then show ?thesis by (auto simp: word_less_nat_alt unat_u64_max_diff)
qed

lemma u64_max_diff_le [simp]: "u64_max - x \<le> u64_max - y \<longleftrightarrow> y \<le> (x :: u64)"
  by (simp flip: linorder_not_less)

lemma Compare_tuple: "Compare a b = cmp3 (compare_tuple a) (compare_tuple b)"
  by (simp add: Compare_def compare_tuple_def cmp3_Pair cmp3_def)

lemma CompareUserKey_tuple: "CompareUserKey a b = cmp3 (user_key_tuple a) (user_key_tuple b)"
  by (simp add: CompareUserKey_def user_key_tuple_def cmp3_Pair cmp3_def)

lemma CompareForSorting_tuple: "CompareForSorting a b = cmp3 (sorting_tuple a) (sorting_tuple b)"
  by (simp add: CompareForSorting_def sorting_tuple_def cmp3_Pair cmp3_def)

interpretation key_cmp: comparator Compare
  by (rule comparator_via_key) (rule Compare_tuple)

interpretation user_key_cmp: comparator CompareUserKey
  by (rule comparator_via_key) (rule CompareUserKey_tuple)

interpretation sort_cmp: comparator CompareForSorting
  by (rule comparator_via_key) (rule CompareForSorting_tuple)

lemma Compare_user_key_split:
  "Compare a b = (if CompareUserKey a b \<noteq> 0 then CompareUserKey a b
     else cmp3 (timestamp_be_f a, sequence_f a, flags_f a) (timestamp_be_f b, sequence_f b, flags_f b))"
  by (simp add: Compare_def CompareUserKey_def cmp3_Pair cmp3_def)

lemma SameUserKey_InternalKey: "SameUserKey a b \<longleftrightarrow> InternalKey_of a = InternalKey_of b"
  by (auto simp: SameUserKey_def CompareUserKey_tuple user_key_tuple_def InternalKey_of_def
      column_id_def target_id_def)

lemma InternalKey_eq_iff: "InternalKey_eq a b \<longleftrightarrow> a = b"
  by (cases a; cases b) (auto simp: InternalKey_eq_def)

subsection \<open>Properties\<close>

text \<open>C30. Serialisation is a bijection between keys and 32 byte strings: decoding the encoded key,
  possibly followed by more bytes, gives the key back, encoding a decoded 32 byte string gives the
  string back, and a shorter slice is refused.\<close>

theorem cedar_key_codec:
  "Decode (Encode k @ rest) = Some k \<and>
   (length bs = kKeySize \<longrightarrow> (\<exists>k'. Decode bs = Some k' \<and> Encode k' = bs)) \<and>
   (length bs < kKeySize \<longrightarrow> Decode bs = None)"
  by (simp add: Decode_def kKeySize_def Decode_ptr_Encode Encode_Decode_ptr)

theorem cedar_key_codec_witness:
  "(\<exists>k. Decode (replicate 32 7) = Some k \<and> Encode k = replicate 32 7) \<and> Decode [1, 2] = None"
  using cedar_key_codec [of CedarKey_default "[]" "replicate 32 7"]
    cedar_key_codec [of CedarKey_default "[]" "[1, 2]"] by (simp add: kKeySize_def)

lemma memcmp_step:
  assumes "length xs = n" "length ys = n" "memcmp xs ys n = cmp3 u v" "xs = ys \<longleftrightarrow> u = v"
    "memcmp xs' ys' m = cmp3 p q"
  shows "memcmp (xs @ xs') (ys @ ys') (n + m) = cmp3 (u, p) (v, q)"
  using assms by (auto simp: memcmp_append cmp3_Pair cmp3_def)

lemma le_bytes_inject:
  assumes "LENGTH('a::len) = 8 * n"
  shows "le_bytes n v = le_bytes n w \<longleftrightarrow> v = (w :: 'a word)"
  by (metis assms le_word_le_bytes)

lemma Encode_memcmp:
  "memcmp (Encode a) (Encode b) (8 + (8 + (8 + (2 + (2 + (1 + (1 + 2))))))) =
    cmp3 (entity_id a, u64_max - timestamp_of a, target_id a, column_id a, sequence_id a,
          entity_type_f a, flags_f a, part_id a)
         (entity_id b, u64_max - timestamp_of b, target_id b, column_id b, sequence_id b,
          entity_type_f b, flags_f b, part_id b)"
  unfolding Encode_def cedar_key_accessor_defs DecodeFromStorage_def
  by (intro memcmp_step; simp add: memcmp_be64 memcmp_be16 memcmp_u8 [simplified] le_bytes_inject)

text \<open>C23. The byte comparator of the LSM tree orders encoded keys exactly as the layout promises:
  by entity, then newest version first, then target, column, sequence, type, flags and partition.\<close>

theorem comparator_newest_first:
  "CedarKeyComparator_Compare (Encode a) (Encode b) =
    cmp3 (entity_id a, u64_max - timestamp_of a, target_id a, column_id a, sequence_id a,
          entity_type_f a, flags_f a, part_id a)
         (entity_id b, u64_max - timestamp_of b, target_id b, column_id b, sequence_id b,
          entity_type_f b, flags_f b, part_id b)"
  using Encode_memcmp [of a b] by (simp add: CedarKeyComparator_Compare_def kKeySize_def)

text \<open>C31. \<open>CedarKey::Compare\<close> is a total order on keys up to the partition id: it is
  antisymmetric and transitive, two keys compare equal exactly when they differ at most in the
  partition id, and the versions of one user key are contiguous in every sorted run.\<close>

theorem Compare_total_order:
  "Compare b a = - Compare a b \<and>
   (Compare a b \<le> 0 \<and> Compare b c \<le> 0 \<longrightarrow> Compare a c \<le> 0) \<and>
   (Compare a b = 0 \<longleftrightarrow> b = a\<lparr>part_id_f := part_id_f b\<rparr>) \<and>
   (SameUserKey a c \<and> Compare a b \<le> 0 \<and> Compare b c \<le> 0 \<longrightarrow> SameUserKey a b)"
proof (intro conjI)
  show "Compare b a = - Compare a b" by (rule key_cmp.cmp_swap)
  show "Compare a b \<le> 0 \<and> Compare b c \<le> 0 \<longrightarrow> Compare a c \<le> 0"
    using key_cmp.cmp_trans by blast
  show "Compare a b = 0 \<longleftrightarrow> b = a\<lparr>part_id_f := part_id_f b\<rparr>"
    by (cases a; cases b) (auto simp: Compare_tuple compare_tuple_def entity_id_def)
  show "SameUserKey a c \<and> Compare a b \<le> 0 \<and> Compare b c \<le> 0 \<longrightarrow> SameUserKey a b"
    using user_key_cmp.cmp_swap [of b a] user_key_cmp.cmp_swap [of b c]
      user_key_cmp.cmp_equiv_left [of a c b]
    by (auto simp: SameUserKey_def Compare_user_key_split split: if_splits)
qed

theorem Compare_total_order_witness:
  "Compare (CedarKey_Vertex 1 2 9 0 0 0 0) (CedarKey_Vertex 3 2 7 0 0 0 0) \<le> 0 \<and>
   SameUserKey (CedarKey_Vertex 1 2 9 0 0 0 0) (CedarKey_Vertex 1 2 8 0 0 0 0)"
proof -
  let ?a = "CedarKey_Vertex 1 2 9 0 0 0 0" and ?b = "CedarKey_Vertex 1 2 8 0 0 0 0"
    and ?c = "CedarKey_Vertex 1 2 7 0 0 0 0" and ?d = "CedarKey_Vertex 3 2 7 0 0 0 0"
  have "Compare ?a ?b \<le> 0" "Compare ?b ?c \<le> 0" "Compare ?b ?d \<le> 0" "SameUserKey ?a ?c"
    by (simp_all add: Compare_def SameUserKey_def CompareUserKey_def cedar_key_factory_defs
        entity_id_def EncodeForStorage_def) (simp_all add: cedar_htobe64_def)
  then show ?thesis
    using Compare_total_order [where a = ?a and b = ?b and c = ?c]
      Compare_total_order [where a = ?a and b = ?b and c = ?d] by blast
qed

text \<open>The in-memory comparisons do not sort versions newest first, although the sorting contract
  of the header says so: on a little-endian host they compare the byte-swapped timestamp as an
  integer, and each of them places some older version of a user key before a newer one.\<close>

theorem Compare_not_newest_first:
  "(\<exists>old new. SameUserKey old new \<and> timestamp_of old < timestamp_of new \<and> Compare old new < 0) \<and>
   (\<exists>old new. SameUserKey old new \<and> timestamp_of old < timestamp_of new \<and>
      CompareForSorting old new < 0)"
proof (intro conjI exI)
  let ?k = "\<lambda>ts. CedarKey_Vertex 1 1 ts 0 0 0 0"
  show "SameUserKey (?k 255) (?k 256)" "SameUserKey (?k 1) (?k 2)"
    by (simp_all add: SameUserKey_InternalKey InternalKey_of_def factory_make)
  show "timestamp_of (?k 255) < timestamp_of (?k 256)" "timestamp_of (?k 1) < timestamp_of (?k 2)"
    by (simp_all add: factory_make)
  show "Compare (?k 255) (?k 256) < 0"
    by (simp add: Compare_def factory_make CedarKey_make_def EncodeForStorage_def cedar_htobe64_def entity_id_def)
  show "CompareForSorting (?k 1) (?k 2) < 0"
    by (simp add: CompareForSorting_def factory_make)
      (simp add: CedarKey_make_def EncodeForStorage_def cedar_htobe64_def)
qed

lemma kIsStaticColumn_exp: "kIsStaticColumn = 2 ^ 15"
  by (simp add: kIsStaticColumn_def)

lemma bit_kIsStaticColumn: "bit kIsStaticColumn n \<longleftrightarrow> n = 15"
  unfolding kIsStaticColumn_exp bit_exp_iff by auto

lemma bit_column_id:
  assumes "n < 16"
  obtains m where "m < 16" "m = 15 \<longleftrightarrow> n = 7" "\<And>k. bit (column_id k) n = bit (column_id_f k) m"
proof
  have "8 - 8 * (n div 8) + n mod 8 = (if n < 8 then 8 + n else n - 8)"
    using assms by (auto simp: le_div_geq le_mod_geq)
  then show "8 - 8 * (n div 8) + n mod 8 < 16" "8 - 8 * (n div 8) + n mod 8 = 15 \<longleftrightarrow> n = 7"
    using assms by auto
  show "bit (column_id k) n = bit (column_id_f k) (8 - 8 * (n div 8) + n mod 8)" for k
    using assms by (simp add: column_id_def cedar_be16toh_def bit_cedar_htobe16)
qed

text \<open>The static-column mark lives in the wrong bit: \<open>IsStaticColumn\<close> and \<open>MarkStatic\<close>
  operate on the stored big-endian column id, so they test, set and clear bit 7 of the logical
  column id instead of its highest bit.\<close>

theorem static_column_is_bit_7:
  "IsStaticColumn k = bit (column_id k) 7 \<and>
   column_id (MarkStatic k) = set_bit 7 (column_id k) \<and>
   column_id (ClearStatic k) = unset_bit 7 (column_id k)"
proof (intro conjI)
  show "IsStaticColumn k = bit (column_id k) 7"
    unfolding IsStaticColumn_def kIsStaticColumn_exp and_exp_eq_0_iff_not_bit
    by (simp add: column_id_def cedar_be16toh_def bit_cedar_htobe16)
  show "column_id (MarkStatic k) = set_bit 7 (column_id k)"
  proof (rule bit_word_eqI)
    fix n assume "n < LENGTH(16)"
    then have n: "n < 16" by simp
    obtain m where "m < 16" "m = 15 \<longleftrightarrow> n = 7" "\<And>k. bit (column_id k) n = bit (column_id_f k) m"
      using bit_column_id [OF n] by blast
    with n show "bit (column_id (MarkStatic k)) n = bit (set_bit 7 (column_id k)) n"
      by (auto simp: MarkStatic_def bit_or_iff bit_set_bit_iff bit_kIsStaticColumn)
  qed
  show "column_id (ClearStatic k) = unset_bit 7 (column_id k)"
  proof (rule bit_word_eqI)
    fix n assume "n < LENGTH(16)"
    then have n: "n < 16" by simp
    obtain m where "m < 16" "m = 15 \<longleftrightarrow> n = 7" "\<And>k. bit (column_id k) n = bit (column_id_f k) m"
      using bit_column_id [OF n] by blast
    with n show "bit (column_id (ClearStatic k)) n = bit (unset_bit 7 (column_id k)) n"
      by (auto simp: ClearStatic_def bit_and_iff bit_not_iff bit_unset_bit_iff bit_kIsStaticColumn)
  qed
qed

end
