(* ===== verification/Descriptor.thy ===== *)
theory Descriptor
  imports Cedar_Key
begin

text \<open>
  The 64 bit cell descriptor of \<open>src/include/cedar/types/descriptor.h\<close>: its bit fields (kind,
  column, payload, length, compression, schema version), the inline values, the blob reference
  layout that reuses the same bits, and the 8 byte big-endian encoding. A descriptor is its raw
  \<open>value_\<close>; an \<open>int32_t\<close> or \<open>float\<close> payload is its 32 bit representation.
\<close>

datatype EntryKind = EK_InlineInt | EK_InlineFloat | EK_InlineShortStr | EK_ExternalRef
  | EK_EdgeRef | EK_Tombstone | EK_Metadata

primrec entry_kind_code :: "EntryKind \<Rightarrow> u64" where
  "entry_kind_code EK_InlineInt = 0"
| "entry_kind_code EK_InlineFloat = 1"
| "entry_kind_code EK_InlineShortStr = 2"
| "entry_kind_code EK_ExternalRef = 3"
| "entry_kind_code EK_EdgeRef = 4"
| "entry_kind_code EK_Tombstone = 5"
| "entry_kind_code EK_Metadata = 6"

datatype CompressionType = CT_None | CT_Lz4 | CT_Zstd

primrec compression_code :: "CompressionType \<Rightarrow> u64" where
  "compression_code CT_None = 0"
| "compression_code CT_Lz4 = 1"
| "compression_code CT_Zstd = 2"

type_synonym descriptor = u64

subsection \<open>Bit fields\<close>

definition GetKind :: "descriptor \<Rightarrow> EntryKind" where
  "GetKind v = (let c = v AND 0x0F in
     if c = 0 then EK_InlineInt else if c = 1 then EK_InlineFloat
     else if c = 2 then EK_InlineShortStr else if c = 3 then EK_ExternalRef
     else if c = 4 then EK_EdgeRef else if c = 5 then EK_Tombstone
     else if c = 6 then EK_Metadata else EK_Tombstone)"

definition SetKind :: "EntryKind \<Rightarrow> descriptor \<Rightarrow> descriptor" where
  "SetKind kind v = (v AND NOT 0x0F) OR (entry_kind_code kind AND 0x0F)"

definition GetColumnId :: "descriptor \<Rightarrow> u16" where
  "GetColumnId v = ucast (drop_bit 4 v AND 0x0FFF)"

definition SetColumnId_d :: "u16 \<Rightarrow> descriptor \<Rightarrow> descriptor" where
  "SetColumnId_d col v = (v AND NOT 0xFFF0) OR push_bit 4 (ucast col AND 0x0FFF)"

definition GetPayload :: "descriptor \<Rightarrow> u32" where
  "GetPayload v = ucast (drop_bit 16 v AND 0xFFFFFFFF)"

definition SetPayload :: "u32 \<Rightarrow> descriptor \<Rightarrow> descriptor" where
  "SetPayload p v = (v AND NOT 0xFFFFFFFF0000) OR push_bit 16 (ucast p AND 0xFFFFFFFF)"

definition GetLength :: "descriptor \<Rightarrow> u8" where
  "GetLength v = ucast (drop_bit 48 v AND 0xFF)"

definition SetLength :: "u8 \<Rightarrow> descriptor \<Rightarrow> descriptor" where
  "SetLength len v = (v AND NOT 0xFF000000000000) OR push_bit 48 (ucast len AND 0xFF)"

definition GetCompression :: "descriptor \<Rightarrow> CompressionType" where
  "GetCompression v = (let c = drop_bit 56 v AND 0x03 in
     if c = 0 then CT_None else if c = 1 then CT_Lz4 else if c = 2 then CT_Zstd else CT_None)"

definition SetCompression :: "CompressionType \<Rightarrow> descriptor \<Rightarrow> descriptor" where
  "SetCompression c v =
     (v AND NOT 0x0300000000000000) OR push_bit 56 (compression_code c AND 0x03)"

definition kMaxSchemaVersion :: u8 where
  "kMaxSchemaVersion = 63"

definition GetSchemaVersion :: "descriptor \<Rightarrow> u8" where
  "GetSchemaVersion v = ucast (drop_bit 58 v AND 0x3F)"

definition SetSchemaVersion :: "u8 \<Rightarrow> descriptor \<Rightarrow> descriptor" where
  "SetSchemaVersion ver v =
     (v AND NOT 0xFC00000000000000) OR push_bit 58 (ucast ver AND 0x3F)"

subsection \<open>Constructors and inline values\<close>

definition Descriptor_default :: descriptor where
  "Descriptor_default = SetKind EK_Tombstone 0"

definition Descriptor_make :: "EntryKind \<Rightarrow> u16 \<Rightarrow> u32 \<Rightarrow> u8 \<Rightarrow> CompressionType \<Rightarrow> descriptor" where
  "Descriptor_make kind col payload len compr =
     SetCompression compr (SetLength len (SetPayload payload (SetColumnId_d col (SetKind kind 0))))"

definition IsTombstone_d :: "descriptor \<Rightarrow> bool" where
  "IsTombstone_d v \<longleftrightarrow> GetKind v = EK_Tombstone"

definition IsInline :: "descriptor \<Rightarrow> bool" where
  "IsInline v \<longleftrightarrow> (let kind = GetKind v in
     kind = EK_InlineInt \<or> kind = EK_InlineFloat \<or> kind = EK_InlineShortStr)"

definition IsExternal :: "descriptor \<Rightarrow> bool" where
  "IsExternal v \<longleftrightarrow> GetKind v = EK_ExternalRef"

definition InlineInt :: "u16 \<Rightarrow> u32 \<Rightarrow> descriptor" where
  "InlineInt col value = Descriptor_make EK_InlineInt col value 4 CT_None"

definition AsInlineInt :: "descriptor \<Rightarrow> u32 option" where
  "AsInlineInt v = (if GetKind v = EK_InlineInt then Some (GetPayload v) else None)"

definition InlineFloat :: "u16 \<Rightarrow> u32 \<Rightarrow> descriptor" where
  "InlineFloat col value = Descriptor_make EK_InlineFloat col value 4 CT_None"

definition AsInlineFloat :: "descriptor \<Rightarrow> u32 option" where
  "AsInlineFloat v = (if GetKind v = EK_InlineFloat then Some (GetPayload v) else None)"

definition InlineShortStr :: "u16 \<Rightarrow> u8 list \<Rightarrow> descriptor option" where
  "InlineShortStr col value =
     (if 4 < length value then None
      else Some (Descriptor_make EK_InlineShortStr col (le_word value) (of_nat (length value)) CT_None))"

definition AsInlineShortStr :: "descriptor \<Rightarrow> u8 list" where
  "AsInlineShortStr v =
     (if GetKind v = EK_InlineShortStr then
        (let payload = GetPayload v; len = GetLength v
         in if len \<le> 4 then take (unat len) (le_bytes 4 payload) else [])
      else [])"

definition ExternalRef :: "u16 \<Rightarrow> u32 \<Rightarrow> u8 \<Rightarrow> CompressionType \<Rightarrow> descriptor" where
  "ExternalRef col offset len compr = Descriptor_make EK_ExternalRef col offset len compr"

record external_info =
  ei_offset :: u32
  ei_length :: u8
  ei_compression :: CompressionType

definition AsExternalRef :: "descriptor \<Rightarrow> external_info option" where
  "AsExternalRef v =
     (if GetKind v = EK_ExternalRef
      then Some \<lparr>ei_offset = GetPayload v, ei_length = GetLength v, ei_compression = GetCompression v\<rparr>
      else None)"

definition Descriptor_Tombstone :: "u16 \<Rightarrow> descriptor" where
  "Descriptor_Tombstone col = Descriptor_make EK_Tombstone col 0 0 CT_None"

subsection \<open>Blob references\<close>

definition GetBlobOffset :: "descriptor \<Rightarrow> u32" where
  "GetBlobOffset v = ucast (drop_bit 16 v AND 0xFFFFFFFF)"

definition SetBlobOffset :: "u32 \<Rightarrow> descriptor \<Rightarrow> descriptor" where
  "SetBlobOffset p v = (v AND NOT 0xFFFFFFFF0000) OR push_bit 16 (ucast p AND 0xFFFFFFFF)"

definition GetBlobSizeKb :: "descriptor \<Rightarrow> u16" where
  "GetBlobSizeKb v = ucast (drop_bit 48 v AND 0xFFFF)"

definition SetBlobSizeKb :: "u16 \<Rightarrow> descriptor \<Rightarrow> descriptor" where
  "SetBlobSizeKb s v = (v AND NOT 0xFFFF000000000000) OR push_bit 48 (ucast s AND 0xFFFF)"

definition GetBlobChecksum :: "descriptor \<Rightarrow> u8" where
  "GetBlobChecksum v = ucast (drop_bit 4 v AND 0xFF)"

definition SetBlobChecksum :: "u8 \<Rightarrow> descriptor \<Rightarrow> descriptor" where
  "SetBlobChecksum c v = (v AND NOT 0xFF0) OR push_bit 4 (ucast c AND 0xFF)"

record blob_ref =
  br_offset :: u32
  br_size_kb :: u16
  br_checksum :: u8

definition MakeBlobRef :: "u32 \<Rightarrow> u16 \<Rightarrow> u8 \<Rightarrow> descriptor" where
  "MakeBlobRef offset size_kb checksum =
     SetBlobChecksum checksum (SetBlobSizeKb size_kb (SetBlobOffset offset
       (SetKind EK_ExternalRef Descriptor_default)))"

definition GetBlobRef :: "descriptor \<Rightarrow> blob_ref" where
  "GetBlobRef v = \<lparr>br_offset = GetBlobOffset v, br_size_kb = GetBlobSizeKb v,
     br_checksum = GetBlobChecksum v\<rparr>"

definition IsBlobRef :: "descriptor \<Rightarrow> bool" where
  "IsBlobRef v \<longleftrightarrow> GetKind v = EK_ExternalRef"

subsection \<open>Encoding\<close>

definition Descriptor_Encode :: "descriptor \<Rightarrow> u8 list" where
  "Descriptor_Encode v = le_bytes 8 (cedar_htobe64 v)"

definition Descriptor_Decode :: "u8 list \<Rightarrow> descriptor option" where
  "Descriptor_Decode bs =
     (if length bs < 8 then None else Some (cedar_be64toh (le_word (take 8 bs))))"

subsection \<open>The operations as field accesses\<close>

lemma field_literals:
  "SetKind kind v = field_set 0 4 (entry_kind_code kind) v"
  "SetColumnId_d col v = field_set 4 12 (ucast col) v"
  "SetPayload p v = field_set 16 32 (ucast p) v"
  "SetLength len v = field_set 48 8 (ucast len) v"
  "SetCompression c v = field_set 56 2 (compression_code c) v"
  "SetSchemaVersion ver v = field_set 58 6 (ucast ver) v"
  "SetBlobOffset p v = field_set 16 32 (ucast p) v"
  "SetBlobSizeKb s v = field_set 48 16 (ucast s) v"
  "SetBlobChecksum b v = field_set 4 8 (ucast b) v"
  "GetColumnId v = ucast (field_get 4 12 v)"
  "GetPayload v = ucast (field_get 16 32 v)"
  "GetLength v = ucast (field_get 48 8 v)"
  "GetSchemaVersion v = ucast (field_get 58 6 v)"
  "GetBlobOffset v = ucast (field_get 16 32 v)"
  "GetBlobSizeKb v = ucast (field_get 48 16 v)"
  "GetBlobChecksum v = ucast (field_get 4 8 v)"
  by (simp_all add: SetKind_def SetColumnId_d_def SetPayload_def SetLength_def SetCompression_def
      SetSchemaVersion_def SetBlobOffset_def SetBlobSizeKb_def SetBlobChecksum_def GetColumnId_def
      GetPayload_def GetLength_def GetSchemaVersion_def GetBlobOffset_def GetBlobSizeKb_def
      GetBlobChecksum_def field_set_def field_get_def take_bit_eq_mask mask_eq_exp_minus_1)

lemma kind_and_compression_fields:
  "v AND 0x0F = field_get 0 4 v" "drop_bit 56 v AND 0x03 = field_get 56 2 (v :: u64)"
  by (simp_all add: field_get_def take_bit_eq_mask mask_eq_exp_minus_1)

subsection \<open>Reading back what was written\<close>

lemma ucast_ucast_take:
  "LENGTH('a::len) \<le> 64 \<Longrightarrow> n \<le> LENGTH('a) \<Longrightarrow>
   (ucast (take_bit n (ucast x :: u64)) :: 'a word) = take_bit n x"
  by (rule bit_word_eqI) (auto simp: bit_simps)

lemma code_less: "take_bit 4 (entry_kind_code k) = entry_kind_code k"
    "take_bit 2 (compression_code c) = compression_code c"
  by (cases k; simp) (cases c; simp)

lemma GetKind_field:
  "field_get 0 4 v = entry_kind_code k \<Longrightarrow> GetKind v = k"
  unfolding GetKind_def kind_and_compression_fields by (cases k) simp_all

lemma GetCompression_field:
  "field_get 56 2 v = compression_code c \<Longrightarrow> GetCompression v = c"
  unfolding GetCompression_def kind_and_compression_fields by (cases c) simp_all

lemmas field_simps_d = field_literals field_get_set_same field_get_set_other code_less ucast_ucast_take

lemma Descriptor_make_fields [simp]:
  "GetKind (Descriptor_make k c p l z) = k"
  "GetColumnId (Descriptor_make k c p l z) = take_bit 12 c"
  "GetPayload (Descriptor_make k c p l z) = p"
  "GetLength (Descriptor_make k c p l z) = l"
  "GetCompression (Descriptor_make k c p l z) = z"
  by (simp_all add: Descriptor_make_def field_simps_d GetKind_field GetCompression_field
      take_bit_word_eq_self)

text \<open>The fields of a descriptor, as its getters read them.\<close>

record descriptor_fields =
  df_kind :: EntryKind
  df_column_id :: u16
  df_payload :: u32
  df_length :: u8
  df_compression :: CompressionType
  df_schema_version :: u8

definition fields_of :: "descriptor \<Rightarrow> descriptor_fields" where
  "fields_of v = \<lparr>df_kind = GetKind v, df_column_id = GetColumnId v, df_payload = GetPayload v, df_length = GetLength v,
     df_compression = GetCompression v, df_schema_version = GetSchemaVersion v\<rparr>"

lemma kind_compression_other:
  "4 \<le> t \<Longrightarrow> GetKind (field_set t m x v) = GetKind v"
  "t + m \<le> 56 \<or> 58 \<le> t \<Longrightarrow> GetCompression (field_set t m x v) = GetCompression v"
  unfolding GetKind_def GetCompression_def kind_and_compression_fields by (subst field_get_set_other; auto)+

text \<open>C34. Every setter of a descriptor, applied to any descriptor, changes its own field and no other: the getter then
  reads back the value set, cut to 12 bits for the column id and to 6 bits for the schema version, and the other getters
  read what they read before. A descriptor built from its parts reads them back, with the schema version 0.\<close>

theorem descriptor_fields_roundtrip:
  "fields_of (SetKind k v) = (fields_of v)\<lparr>df_kind := k\<rparr> \<and>
   fields_of (SetColumnId_d c v) = (fields_of v)\<lparr>df_column_id := take_bit 12 c\<rparr> \<and>
   fields_of (SetPayload p v) = (fields_of v)\<lparr>df_payload := p\<rparr> \<and>
   fields_of (SetLength l v) = (fields_of v)\<lparr>df_length := l\<rparr> \<and>
   fields_of (SetCompression z v) = (fields_of v)\<lparr>df_compression := z\<rparr> \<and>
   fields_of (SetSchemaVersion ver v) = (fields_of v)\<lparr>df_schema_version := take_bit 6 ver\<rparr> \<and>
   fields_of (Descriptor_make k c p l z) = \<lparr>df_kind = k, df_column_id = take_bit 12 c, df_payload = p, df_length = l,
     df_compression = z, df_schema_version = 0\<rparr>"
proof (intro conjI)
  show "fields_of (SetKind k v) = (fields_of v)\<lparr>df_kind := k\<rparr>"
    by (simp add: fields_of_def field_simps_d GetKind_field kind_compression_other)
  show "fields_of (SetColumnId_d c v) = (fields_of v)\<lparr>df_column_id := take_bit 12 c\<rparr>"
    "fields_of (SetPayload p v) = (fields_of v)\<lparr>df_payload := p\<rparr>"
    "fields_of (SetLength l v) = (fields_of v)\<lparr>df_length := l\<rparr>"
    "fields_of (SetSchemaVersion ver v) = (fields_of v)\<lparr>df_schema_version := take_bit 6 ver\<rparr>"
    by (simp_all add: fields_of_def field_simps_d kind_compression_other take_bit_word_eq_self)
  show "fields_of (SetCompression z v) = (fields_of v)\<lparr>df_compression := z\<rparr>"
    by (simp add: fields_of_def field_simps_d GetCompression_field kind_compression_other)
  show "fields_of (Descriptor_make k c p l z) = \<lparr>df_kind = k, df_column_id = take_bit 12 c, df_payload = p, df_length = l,
     df_compression = z, df_schema_version = 0\<rparr>"
    by (simp add: fields_of_def) (simp add: Descriptor_make_def field_simps_d, simp add: field_get_def)
qed

lemma take_le_bytes_le_word:
  assumes "length bs \<le> 4"
  shows "take (length bs) (le_bytes 4 (le_word bs :: u32)) = bs"
proof (rule nth_equalityI)
  fix i assume "i < length (take (length bs) (le_bytes 4 (le_word bs :: u32)))"
  then have i: "i < length bs" "i < 4" by simp_all
  show "take (length bs) (le_bytes 4 (le_word bs :: u32)) ! i = bs ! i"
    by (rule bit_word_eqI) (use i in \<open>auto simp: bit_le_word bit_simps\<close>)
qed (use assms in simp)

lemma length_Descriptor_Encode [simp]: "length (Descriptor_Encode v) = 8"
  by (simp add: Descriptor_Encode_def)

lemma Descriptor_Decode_Encode [simp]: "Descriptor_Decode (Descriptor_Encode v) = Some v"
  by (simp add: Descriptor_Decode_def Descriptor_Encode_def le_word_le_bytes)

text \<open>Values survive the descriptor: inline integers and floats, strings of at most four bytes
  (longer ones are refused), blob references, and the 8 byte encoding.\<close>

theorem descriptor_value_roundtrip:
  "AsInlineInt (InlineInt c n) = Some n \<and>
   AsInlineFloat (InlineFloat c n) = Some n \<and>
   (InlineShortStr c s = None \<longleftrightarrow> 4 < length s) \<and>
   (InlineShortStr c s = Some d \<longrightarrow> AsInlineShortStr d = s) \<and>
   GetBlobRef (MakeBlobRef off kb chk) = \<lparr>br_offset = off, br_size_kb = kb, br_checksum = chk\<rparr> \<and>
   IsBlobRef (MakeBlobRef off kb chk) \<and>
   Descriptor_Decode (Descriptor_Encode v @ rest) = Some v"
proof (intro conjI)
  show "AsInlineInt (InlineInt c n) = Some n" "AsInlineFloat (InlineFloat c n) = Some n"
    by (simp_all add: AsInlineInt_def InlineInt_def AsInlineFloat_def InlineFloat_def)
  show "InlineShortStr c s = Some d \<longrightarrow> AsInlineShortStr d = s"
  proof
    assume "InlineShortStr c s = Some d"
    then have len: "length s \<le> 4"
      and d: "d = Descriptor_make EK_InlineShortStr c (le_word s) (of_nat (length s)) CT_None"
      by (auto simp: InlineShortStr_def split: if_splits)
    have u: "unat (of_nat (length s) :: u8) = length s"
      using len by (simp add: unat_of_nat)
    then have "(of_nat (length s) :: u8) \<le> 4" using len by (simp add: word_le_nat_alt)
    with u len show "AsInlineShortStr d = s"
      by (simp add: d AsInlineShortStr_def take_le_bytes_le_word)
  qed
qed (simp_all add: InlineShortStr_def GetBlobRef_def MakeBlobRef_def IsBlobRef_def field_simps_d GetKind_field take_bit_word_eq_self
    Descriptor_default_def Descriptor_Decode_def Descriptor_Encode_def)

theorem descriptor_value_roundtrip_witness:
  "\<exists>d. InlineShortStr 5 [104, 105] = Some d \<and> AsInlineShortStr d = [104, 105]"
  using descriptor_value_roundtrip [where c = 5 and s = "[104, 105]"]
  by (simp add: InlineShortStr_def)

end
