(* ===== verification/Hybrid_Clock.thy ===== *)
theory Hybrid_Clock
  imports Prelude
begin

text \<open>
  The hybrid logical clock of \<open>src/src/dtx/utils/hybrid_logical_clock.cc\<close> and its header:
  timestamps with their order and byte format, the clock state, \<open>Now\<close>, \<open>Update\<close> and \<open>Peek\<close>.
  The readings of the system clock are arguments, so every behaviour of the wall clock (standing
  still, jumping, going backwards) is covered. The results are monotonicity of one operation and
  of every run of operations, and that a clock overtakes each timestamp it receives.
\<close>

subsection \<open>Timestamps\<close>

datatype HlcTimestamp = Hlc (physical: u64) (logical: u64)

instantiation HlcTimestamp :: linorder
begin

definition less_HlcTimestamp :: "HlcTimestamp \<Rightarrow> HlcTimestamp \<Rightarrow> bool" where
  "less_HlcTimestamp a b \<longleftrightarrow>
     physical a < physical b \<or> (physical a = physical b \<and> logical a < logical b)"

definition less_eq_HlcTimestamp :: "HlcTimestamp \<Rightarrow> HlcTimestamp \<Rightarrow> bool" where
  "less_eq_HlcTimestamp a b \<longleftrightarrow> \<not> b < (a :: HlcTimestamp)"

instance
  by standard (auto simp: less_HlcTimestamp_def less_eq_HlcTimestamp_def intro: HlcTimestamp.expand)

end

definition HappensBefore :: "HlcTimestamp \<Rightarrow> HlcTimestamp \<Rightarrow> bool" where
  "HappensBefore a b \<longleftrightarrow> a < b"

definition IsConcurrentWith :: "HlcTimestamp \<Rightarrow> HlcTimestamp \<Rightarrow> bool" where
  "IsConcurrentWith a b \<longleftrightarrow> \<not> a < b \<and> \<not> b < a"

definition Hlc_Serialize :: "HlcTimestamp \<Rightarrow> u8 list" where
  "Hlc_Serialize t = le_bytes 8 (physical t) @ le_bytes 8 (logical t)"

definition Hlc_Deserialize :: "u8 list \<Rightarrow> HlcTimestamp" where
  "Hlc_Deserialize buf = Hlc (le_word (take 8 buf)) (le_word (take 8 (drop 8 buf)))"

subsection \<open>The clock\<close>

record hlc =
  last_physical :: u64
  last_logical :: u64

definition kMaxLogicalCounter :: u64 where
  "kMaxLogicalCounter = 0xFFFFFFFF"

definition HybridLogicalClock_init :: hlc where
  "HybridLogicalClock_init = \<lparr>last_physical = 0, last_logical = 0\<rparr>"

definition Peek :: "hlc \<Rightarrow> HlcTimestamp" where
  "Peek c = Hlc (last_physical c) (last_logical c)"

text \<open>\<open>p1\<close> is the first reading of the wall clock, \<open>p2\<close> the one taken again on counter overflow.\<close>

definition HLC_Now :: "u64 \<Rightarrow> u64 \<Rightarrow> hlc \<Rightarrow> HlcTimestamp \<times> hlc" where
  "HLC_Now p1 p2 c =
    (let c' =
       (if last_physical c < p1 then \<lparr>last_physical = p1, last_logical = 0\<rparr>
        else if p1 = last_physical c then
          (if kMaxLogicalCounter \<le> last_logical c then
             \<lparr>last_physical = (if last_physical c < p2 then p2 else last_physical c + 1),
              last_logical = 0\<rparr>
           else c\<lparr>last_logical := last_logical c + 1\<rparr>)
        else
          (if kMaxLogicalCounter \<le> last_logical c then
             (if p1 \<le> last_physical c
              then \<lparr>last_physical = last_physical c + 1, last_logical = 0\<rparr>
              else \<lparr>last_physical = p1, last_logical = 0\<rparr>)
           else c\<lparr>last_logical := last_logical c + 1\<rparr>))
     in (Hlc (last_physical c') (last_logical c'), c'))"

definition HLC_Update :: "HlcTimestamp \<Rightarrow> u64 \<Rightarrow> hlc \<Rightarrow> hlc" where
  "HLC_Update received p c =
    (let new_physical = max (max (last_physical c) (physical received)) p;
         new_logical =
           (if new_physical = last_physical c \<and> new_physical = physical received
            then max (last_logical c) (logical received) + 1
            else if new_physical = last_physical c then last_logical c + 1
            else if new_physical = physical received then logical received + 1
            else 0)
     in \<lparr>last_physical = new_physical, last_logical = new_logical\<rparr>)"

definition ResetForTesting :: "hlc \<Rightarrow> hlc" where
  "ResetForTesting c = c\<lparr>last_physical := 0, last_logical := 0\<rparr>"

definition IsInitialized :: "hlc \<Rightarrow> bool" where
  "IsInitialized c \<longleftrightarrow> 0 < last_physical c"

subsection \<open>Runs of clock operations\<close>

datatype hlc_event = EvNow u64 u64 | EvUpdate HlcTimestamp u64

primrec hlc_step :: "hlc \<Rightarrow> hlc_event \<Rightarrow> hlc" where
  "hlc_step c (EvNow p1 p2) = snd (HLC_Now p1 p2 c)"
| "hlc_step c (EvUpdate r p) = HLC_Update r p c"

fun hlc_run :: "hlc \<Rightarrow> hlc_event list \<Rightarrow> hlc list" where
  "hlc_run c [] = []"
| "hlc_run c (e # es) = hlc_step c e # hlc_run (hlc_step c e) es"

text \<open>The physical and logical values an event brings in.\<close>

primrec event_physical :: "hlc_event \<Rightarrow> nat" where
  "event_physical (EvNow p1 p2) = max (unat p1) (unat p2)"
| "event_physical (EvUpdate r p) = max (unat (physical r)) (unat p)"

primrec event_logical :: "hlc_event \<Rightarrow> nat" where
  "event_logical (EvNow p1 p2) = 0"
| "event_logical (EvUpdate r p) = unat (logical r)"

subsection \<open>One operation\<close>

lemma Peek_less: "Peek c < Peek c' \<longleftrightarrow>
    last_physical c < last_physical c' \<or>
    (last_physical c = last_physical c' \<and> last_logical c < last_logical c')"
  by (simp add: Peek_def less_HlcTimestamp_def)

lemma word_less_Suc: "unat (w :: 'a::len word) + 1 < 2 ^ LENGTH('a) \<Longrightarrow> w < w + 1"
  by (simp add: word_less_nat_alt unat_word_ariths)

lemma unat_Suc: "unat (w :: 'a::len word) + 1 < 2 ^ LENGTH('a) \<Longrightarrow> unat (w + 1) = unat w + 1"
  by (simp add: unat_word_ariths)

lemma not_max_Suc: "(w :: u64) \<noteq> u64_max \<Longrightarrow> unat w + 1 < 2 ^ 64"
proof -
  assume "w \<noteq> u64_max"
  then have "unat w \<noteq> unat u64_max" by (simp add: word_unat_eq_iff)
  moreover have "unat w < 2 ^ 64" using unsigned_less [of w] by simp
  ultimately show ?thesis by simp
qed

lemma HLC_Now_less:
  assumes "last_physical c \<noteq> u64_max"
  shows "Peek c < fst (HLC_Now p1 p2 c)"
proof -
  have "last_logical c < kMaxLogicalCounter \<Longrightarrow> last_logical c < last_logical c + 1"
    by (rule word_less_Suc) (simp add: kMaxLogicalCounter_def word_less_nat_alt)
  moreover have "last_physical c < last_physical c + 1"
    using not_max_Suc [OF assms] by (intro word_less_Suc) simp
  ultimately show ?thesis
    by (auto simp: HLC_Now_def Peek_def less_HlcTimestamp_def Let_def)
qed

lemma HLC_Now_Peek: "Peek (snd (HLC_Now p1 p2 c)) = fst (HLC_Now p1 p2 c)"
  by (simp add: HLC_Now_def Peek_def Let_def)

lemma HLC_Update_less:
  assumes "last_logical c \<noteq> u64_max" "logical r \<noteq> u64_max"
  shows "Peek c < Peek (HLC_Update r p c)" "r < Peek (HLC_Update r p c)"
proof -
  have l: "last_logical c < last_logical c + 1" "logical r < logical r + 1"
    using not_max_Suc [OF assms(1)] not_max_Suc [OF assms(2)] by (auto intro: word_less_Suc)
  then have "last_logical c < max (last_logical c) (logical r) + 1"
    "logical r < max (last_logical c) (logical r) + 1"
    by (auto simp: max_def)
  with l show "Peek c < Peek (HLC_Update r p c)" "r < Peek (HLC_Update r p c)"
    by (auto simp: HLC_Update_def Peek_def less_HlcTimestamp_def Let_def max_def split: if_splits)
qed

subsection \<open>Runs\<close>

definition hlc_bound :: "nat \<Rightarrow> nat \<Rightarrow> hlc \<Rightarrow> bool" where
  "hlc_bound P L c \<longleftrightarrow> unat (last_physical c) \<le> P \<and> unat (last_logical c) \<le> L"

lemma unat_not_max: "unat (w :: u64) \<le> n \<Longrightarrow> n + 1 < 2 ^ 64 \<Longrightarrow> w \<noteq> u64_max"
  by (auto simp: word_unat_eq_iff)

lemma unat_Suc_le: "unat (w :: u64) \<le> n \<Longrightarrow> n + 1 < 2 ^ 64 \<Longrightarrow> unat (w + 1) \<le> n + 1"
  using unat_Suc [of w] by simp

lemma hlc_step_bound:
  assumes "hlc_bound P L c" "event_physical e \<le> P" "event_logical e \<le> L"
    and "P + 1 < 2 ^ 64" "L + 1 < 2 ^ 64"
  shows "hlc_bound (P + 1) (L + 1) (hlc_step c e)"
proof (cases e)
  case (EvNow p1 p2)
  with assms show ?thesis
    using unat_Suc_le [of "last_physical c" P] unat_Suc_le [of "last_logical c" L]
    by (auto simp: hlc_bound_def HLC_Now_def Let_def)
next
  case (EvUpdate r p)
  with assms show ?thesis
    using unat_Suc_le [of "logical r" L] unat_Suc_le [of "last_logical c" L]
    by (auto simp: hlc_bound_def HLC_Update_def Let_def max_def split: if_splits)
qed

lemma hlc_step_less:
  assumes "hlc_bound P L c" "event_logical e \<le> L" "P + 1 < 2 ^ 64" "L + 1 < 2 ^ 64"
  shows "Peek c < Peek (hlc_step c e)"
proof -
  have "last_physical c \<noteq> u64_max" "last_logical c \<noteq> u64_max"
    using assms unat_not_max [of _ P] unat_not_max [of _ L] by (auto simp: hlc_bound_def)
  moreover have "logical r \<noteq> u64_max" if "e = EvUpdate r p" for r p
    using that assms unat_not_max [of _ L] by auto
  ultimately show ?thesis
    by (cases e) (simp_all add: HLC_Now_less HLC_Now_Peek HLC_Update_less)
qed

lemma hlc_run_sorted:
  assumes "hlc_bound P L c" "\<And>e. e \<in> set es \<Longrightarrow> event_physical e \<le> P \<and> event_logical e \<le> L"
    and "P + length es < 2 ^ 64" "L + length es < 2 ^ 64"
  shows "sorted_wrt (<) (map Peek (c # hlc_run c es))"
  using assms
proof (induction es arbitrary: c P L)
  case (Cons e es)
  let ?c = "hlc_step c e"
  have b: "hlc_bound (P + 1) (L + 1) ?c" using Cons.prems by (intro hlc_step_bound) auto
  have l: "Peek c < Peek ?c" using Cons.prems by (intro hlc_step_less [of P L]) auto
  have "event_physical e' \<le> P + 1 \<and> event_logical e' \<le> L + 1" if "e' \<in> set es" for e'
    using Cons.prems(2) [of e'] that by auto
  then have "sorted_wrt (<) (map Peek (?c # hlc_run ?c es))"
    using Cons.prems(3,4) b by (intro Cons.IH [of "P + 1" "L + 1"]) auto
  with l show ?case by (auto intro: less_trans)
qed simp

lemma hlc_run_received:
  assumes "hlc_bound P L c" "\<And>e. e \<in> set es \<Longrightarrow> event_physical e \<le> P \<and> event_logical e \<le> L"
    and "P + length es < 2 ^ 64" "L + length es < 2 ^ 64" "i < length es" "es ! i = EvUpdate r p"
  shows "r < Peek (hlc_run c es ! i)"
  using assms
proof (induction es arbitrary: c P L i)
  case (Cons e es)
  let ?c = "hlc_step c e"
  show ?case
  proof (cases i)
    case 0
    then have e: "e = EvUpdate r p" using Cons.prems by simp
    have "last_logical c \<noteq> u64_max"
      using Cons.prems(1,4) unat_not_max [of "last_logical c" L] by (auto simp: hlc_bound_def)
    moreover have "logical r \<noteq> u64_max"
      using Cons.prems(2) [of e] Cons.prems(4) unat_not_max [of "logical r" L] e by auto
    ultimately show ?thesis using 0 e HLC_Update_less(2) by simp
  next
    case (Suc j)
    have b: "hlc_bound (P + 1) (L + 1) ?c" using Cons.prems by (intro hlc_step_bound) auto
    have "event_physical e' \<le> P + 1 \<and> event_logical e' \<le> L + 1" if "e' \<in> set es" for e'
      using Cons.prems(2) [of e'] that by auto
    with b Cons.prems(3-6) Suc show ?thesis
      using Cons.IH [of "P + 1" "L + 1" ?c j] by auto
  qed
qed simp

lemma length_hlc_run [simp]: "length (hlc_run c es) = length es"
  by (induction es arbitrary: c) auto

text \<open>C29. A hybrid logical clock never goes back: in every run of \<open>Now\<close> and \<open>Update\<close> calls, whatever
  the wall clock reports, the clock value strictly grows with each call (so the timestamps issued by
  \<open>Now\<close> are strictly increasing), and after receiving a timestamp the clock is beyond it. The
  values seen from outside stay below \<open>2^63\<close>, so that no counter wraps.\<close>

theorem hlc_run_monotonic:
  assumes "\<And>e. e \<in> set es \<Longrightarrow> event_physical e < 2 ^ 63 \<and> event_logical e < 2 ^ 63"
    and "length es < 2 ^ 63"
  shows "sorted_wrt (<) (map Peek (HybridLogicalClock_init # hlc_run HybridLogicalClock_init es)) \<and>
    (\<forall>i < length es. \<forall>r p. es ! i = EvUpdate r p \<longrightarrow>
       r < Peek (hlc_run HybridLogicalClock_init es ! i))"
proof -
  have b: "hlc_bound (2 ^ 63) (2 ^ 63) HybridLogicalClock_init"
    by (simp add: hlc_bound_def HybridLogicalClock_init_def)
  have e: "event_physical e \<le> 2 ^ 63 \<and> event_logical e \<le> 2 ^ 63" if "e \<in> set es" for e
    using assms(1) [OF that] by simp
  show ?thesis
    using hlc_run_sorted [OF b e] hlc_run_received [OF b e] assms(2) by auto
qed

theorem hlc_run_monotonic_witness:
  "let es = [EvNow 50 50, EvUpdate (Hlc 90 7) 51, EvNow 52 52]
   in sorted_wrt (<) (map Peek (HybridLogicalClock_init # hlc_run HybridLogicalClock_init es)) \<and>
      Hlc 90 7 < Peek (hlc_run HybridLogicalClock_init es ! 1)"
proof -
  let ?es = "[EvNow 50 50, EvUpdate (Hlc 90 7) 51, EvNow 52 52]"
  have "event_physical e < 2 ^ 63 \<and> event_logical e < 2 ^ 63" if "e \<in> set ?es" for e
    using that by auto
  then show ?thesis
    using hlc_run_monotonic [of ?es] by (simp add: Let_def del: hlc_run.simps)
qed

text \<open>An HLC timestamp read back from its 16 byte wire form is the one written.\<close>

lemma Hlc_codec: "Hlc_Deserialize (Hlc_Serialize t @ rest) = t"
  by (cases t) (simp add: Hlc_Deserialize_def Hlc_Serialize_def)

text \<open>The counter of \<open>Update\<close> is not protected: a received counter at the maximum makes the clock
  fall behind the received timestamp.\<close>

lemma HLC_Update_wraps: "Peek (HLC_Update (Hlc 100 u64_max) 0 HybridLogicalClock_init) < Hlc 100 u64_max"
  by (simp add: HLC_Update_def HybridLogicalClock_init_def Peek_def less_HlcTimestamp_def Let_def)

end
