(* ===== verification/Temporal_Window.thy ===== *)
theory Temporal_Window
  imports Cedar_Key
begin

text \<open>
  Temporal windows (\<open>src/include/cedar/dtx/temporal_window.h\<close>) and the window merge optimiser
  (\<open>src/src/dtx/utils/temporal_window.cc\<close>): overlap, containment, merge, intersection, the text
  and byte forms, window-grained locks, and merging and splitting of windows. The splitting loop
  may run forever, so it is a partial function into \<open>option\<close>.
\<close>

record temporal_window =
  tw_start :: timestamp
  tw_end :: timestamp

abbreviation mk_window :: "timestamp \<Rightarrow> timestamp \<Rightarrow> temporal_window" where
  "mk_window s e \<equiv> \<lparr>tw_start = s, tw_end = e\<rparr>"

definition TemporalWindow_default :: temporal_window where
  "TemporalWindow_default = mk_window 0 0"

definition TemporalWindow_point :: "timestamp \<Rightarrow> temporal_window" where
  "TemporalWindow_point p = mk_window p p"

definition IsEmpty :: "temporal_window \<Rightarrow> bool" where
  "IsEmpty w \<longleftrightarrow> tw_start w = 0 \<and> tw_end w = 0"

definition Overlaps :: "temporal_window \<Rightarrow> temporal_window \<Rightarrow> bool" where
  "Overlaps w v =
     (if IsEmpty w \<or> IsEmpty v then False
      else if tw_end w = 0 \<or> tw_end v = 0 then
        tw_start v \<le> (if tw_end w = 0 then u64_max else tw_end w) \<and>
        tw_start w \<le> (if tw_end v = 0 then u64_max else tw_end v)
      else tw_start w \<le> tw_end v \<and> tw_start v \<le> tw_end w)"

definition Contains :: "temporal_window \<Rightarrow> timestamp \<Rightarrow> bool" where
  "Contains w ts \<longleftrightarrow> tw_start w \<le> ts \<and> (tw_end w = 0 \<or> ts \<le> tw_end w)"

definition Merge :: "temporal_window \<Rightarrow> temporal_window \<Rightarrow> temporal_window" where
  "Merge w v = mk_window (min (tw_start w) (tw_start v))
     (if tw_end w = 0 \<or> tw_end v = 0 then 0 else max (tw_end w) (tw_end v))"

definition Intersect :: "temporal_window \<Rightarrow> temporal_window \<Rightarrow> temporal_window" where
  "Intersect w v =
    (let new_start = max (tw_start w) (tw_start v);
         new_end = (if tw_end w = 0 then tw_end v
                    else if tw_end v = 0 then tw_end w
                    else min (tw_end w) (tw_end v))
     in if new_end < new_start \<and> new_end \<noteq> 0 then mk_window 0 0 else mk_window new_start new_end)"

definition IsPoint :: "temporal_window \<Rightarrow> bool" where
  "IsPoint w \<longleftrightarrow> tw_start w = tw_end w \<and> tw_start w \<noteq> 0"

definition Span :: "temporal_window \<Rightarrow> u64" where
  "Span w = (if tw_end w = 0 then 0 else if tw_end w < tw_start w then 0 else tw_end w - tw_start w)"

definition Window_SerializeTo :: "temporal_window \<Rightarrow> u8 list" where
  "Window_SerializeTo w = le_bytes 8 (tw_start w) @ le_bytes 8 (tw_end w)"

definition Window_DeserializeFrom :: "u8 list \<Rightarrow> temporal_window" where
  "Window_DeserializeFrom p = mk_window (le_word (take 8 p)) (le_word (take 8 (drop 8 p)))"

subsection \<open>Text form\<close>

text \<open>
  \<open>std::to_string\<close> of an unsigned number and \<open>std::stoull\<close> in base ten: leading white space, an
  optional sign, the longest run of digits; \<open>None\<close> where it throws (no digit, or out of range).
\<close>

fun to_string_nat :: "nat \<Rightarrow> string" where
  "to_string_nat n =
     (if n < 10 then [char_of (48 + n)] else to_string_nat (n div 10) @ [char_of (48 + n mod 10)])"

declare to_string_nat.simps [simp del]

definition to_string :: "u64 \<Rightarrow> string" where
  "to_string w = to_string_nat (unat w)"

definition is_digit :: "char \<Rightarrow> bool" where
  "is_digit c \<longleftrightarrow> 48 \<le> (of_char c :: nat) \<and> (of_char c :: nat) \<le> 57"

definition is_space :: "char \<Rightarrow> bool" where
  "is_space c \<longleftrightarrow> (of_char c :: nat) = 32 \<or> (9 \<le> (of_char c :: nat) \<and> (of_char c :: nat) \<le> 13)"

definition digits_value :: "string \<Rightarrow> nat" where
  "digits_value ds = foldl (\<lambda>acc c. acc * 10 + (of_char c - 48)) 0 ds"

definition stoull :: "string \<Rightarrow> u64 option" where
  "stoull str =
    (let s = dropWhile is_space str;
         neg = (s \<noteq> [] \<and> hd s = CHR ''-'');
         s' = (if s \<noteq> [] \<and> (hd s = CHR ''-'' \<or> hd s = CHR ''+'') then tl s else s);
         ds = takeWhile is_digit s'
     in if ds = [] then None
        else if 2 ^ 64 \<le> digits_value ds then None
        else Some (if neg then - of_nat (digits_value ds) else of_nat (digits_value ds)))"

definition Window_ToString :: "temporal_window \<Rightarrow> string" where
  "Window_ToString w = to_string (tw_start w) @ '':'' @
     (if tw_end w = 0 then ''inf'' else to_string (tw_end w))"

text \<open>\<open>None\<close> is the exception thrown by \<open>std::stoull\<close>.\<close>

definition Window_FromString :: "string \<Rightarrow> temporal_window option" where
  "Window_FromString str =
    (if CHR '':'' \<notin> set str then Some TemporalWindow_default
     else
       (let start_str = takeWhile (\<lambda>c. c \<noteq> CHR '':'') str;
            end_str = tl (dropWhile (\<lambda>c. c \<noteq> CHR '':'') str)
        in case stoull start_str of
             None \<Rightarrow> None
           | Some start \<Rightarrow>
               (if end_str = ''inf'' \<or> end_str = ''0'' then Some (mk_window start 0)
                else case stoull end_str of
                       None \<Rightarrow> None
                     | Some e \<Rightarrow> Some (mk_window start e))))"

subsection \<open>Window-grained locks\<close>

datatype LockType = LockNone | LockRead | LockWrite | LockIntent

record temporal_lock =
  tl_txn_id :: u64
  tl_window :: temporal_window
  tl_type :: LockType
  tl_acquire_time :: timestamp

definition ConflictsWith :: "temporal_lock \<Rightarrow> temporal_lock \<Rightarrow> bool" where
  "ConflictsWith a b =
     (if \<not> Overlaps (tl_window a) (tl_window b) then False
      else if tl_type a = LockWrite \<or> tl_type b = LockWrite then True
      else False)"

definition Lock_IsTimeout :: "temporal_lock \<Rightarrow> timestamp \<Rightarrow> u64 \<Rightarrow> bool" where
  "Lock_IsTimeout l now timeout_ms \<longleftrightarrow> timeout_ms < now - tl_acquire_time l"

subsection \<open>Merging and splitting\<close>

fun merge_adjacent_loop :: "temporal_window \<Rightarrow> u64 \<Rightarrow> temporal_window list \<Rightarrow> temporal_window" where
  "merge_adjacent_loop result gap [] = result"
| "merge_adjacent_loop result gap (cur # rest) =
     (if tw_end result = 0 \<or> tw_start cur = 0 then merge_adjacent_loop (Merge result cur) gap rest
      else if tw_start cur \<le> tw_end result + gap then merge_adjacent_loop (Merge result cur) gap rest
      else merge_adjacent_loop result gap rest)"

text \<open>\<open>std::sort\<close> by start; windows with equal starts keep their order here.\<close>

definition MergeAdjacentWindows :: "temporal_window list \<Rightarrow> u64 \<Rightarrow> temporal_window" where
  "MergeAdjacentWindows ws gap =
     (case ws of [] \<Rightarrow> TemporalWindow_default
      | [w] \<Rightarrow> w
      | _ \<Rightarrow> (case sort_key tw_start ws of
                [] \<Rightarrow> TemporalWindow_default
              | w # rest \<Rightarrow> merge_adjacent_loop w gap rest))"

partial_function (option) split_loop :: "u64 \<Rightarrow> u64 \<Rightarrow> u64 \<Rightarrow> temporal_window list \<Rightarrow> temporal_window list option" where
  "split_loop current_start window_end max_span result =
     (if current_start < window_end then
        (let current_end = min (current_start + max_span) window_end
         in split_loop current_end window_end max_span (result @ [mk_window current_start current_end]))
      else Some result)"

definition SplitLargeWindow :: "temporal_window \<Rightarrow> u64 \<Rightarrow> temporal_window list option" where
  "SplitLargeWindow w max_span =
     (if IsEmpty w then Some []
      else let span = Span w in
        if span = 0 \<or> span \<le> max_span then Some [w]
        else split_loop (tw_start w) (tw_end w) max_span [])"

definition OptimizeWindows :: "temporal_window list \<Rightarrow> u64 \<Rightarrow> u64 \<Rightarrow> temporal_window list option" where
  "OptimizeWindows ws merge_thr split_thr =
     (if ws = [] then Some []
      else SplitLargeWindow (MergeAdjacentWindows ws merge_thr) split_thr)"

subsection \<open>Overlap, intersection and merge\<close>

lemma u64_le_max [simp]: "(x :: u64) \<le> u64_max"
proof -
  have "unat x < 2 ^ 64" using unsigned_less [of x] by simp
  then show ?thesis by (simp add: word_le_nat_alt)
qed

lemma u64_neq_0: "(x :: u64) \<noteq> 0 \<longleftrightarrow> 0 < x"
  by (simp add: word_neq_0_conv)

definition window_wf :: "temporal_window \<Rightarrow> bool" where
  "window_wf w \<longleftrightarrow> tw_end w = 0 \<or> tw_start w \<le> tw_end w"

lemma Overlaps_sym: "Overlaps w v = Overlaps v w"
  by (auto simp: Overlaps_def)

lemma Overlaps_common_point:
  assumes "window_wf w" "window_wf v" "\<not> IsEmpty w" "\<not> IsEmpty v"
  shows "Overlaps w v \<longleftrightarrow> (\<exists>t. Contains w t \<and> Contains v t)"
proof
  assume "Overlaps w v"
  with assms have "Contains w (max (tw_start w) (tw_start v)) \<and> Contains v (max (tw_start w) (tw_start v))"
    by (auto simp: Overlaps_def Contains_def window_wf_def max_def split: if_splits)
  then show "\<exists>t. Contains w t \<and> Contains v t" by blast
next
  assume "\<exists>t. Contains w t \<and> Contains v t"
  then show "Overlaps w v" using assms(3,4)
    by (auto simp: Overlaps_def Contains_def)
qed

lemma Contains_Intersect:
  "window_wf w \<Longrightarrow> window_wf v \<Longrightarrow> Overlaps w v \<Longrightarrow>
   Contains (Intersect w v) t \<longleftrightarrow> Contains w t \<and> Contains v t"
  by (auto simp: window_wf_def Overlaps_def Contains_def Intersect_def Let_def IsEmpty_def max_def min_def split: if_splits)

lemma Contains_Merge: "Contains w t \<or> Contains v t \<Longrightarrow> Contains (Merge w v) t"
  by (auto simp: Contains_def Merge_def min_def max_def)

lemma Intersect_disjoint:
  "window_wf w \<Longrightarrow> window_wf v \<Longrightarrow> \<not> IsEmpty w \<Longrightarrow> \<not> IsEmpty v \<Longrightarrow> \<not> Overlaps w v \<Longrightarrow> Intersect w v = TemporalWindow_default"
  by (auto simp: window_wf_def Overlaps_def Intersect_def Let_def max_def min_def TemporalWindow_default_def split: if_splits)

text \<open>C35. The overlap test is exact: for non-empty well-formed windows it is symmetric and holds
  exactly when some timestamp lies in both, and the merge contains both windows. When the windows overlap, their
  intersection contains exactly the common timestamps; when they do not, the intersection is the default window, which
  contains every timestamp.\<close>

theorem window_overlap_exact:
  assumes "window_wf w" "window_wf v" "\<not> IsEmpty w" "\<not> IsEmpty v"
  shows "Overlaps w v = Overlaps v w \<and>
    (Overlaps w v \<longleftrightarrow> (\<exists>t. Contains w t \<and> Contains v t)) \<and>
    (Overlaps w v \<longrightarrow> (Contains (Intersect w v) t \<longleftrightarrow> Contains w t \<and> Contains v t)) \<and>
    (\<not> Overlaps w v \<longrightarrow> Intersect w v = TemporalWindow_default \<and> Contains (Intersect w v) t) \<and>
    (Contains w t \<or> Contains v t \<longrightarrow> Contains (Merge w v) t)"
proof -
  have "Contains TemporalWindow_default t" by (simp add: TemporalWindow_default_def Contains_def)
  then show ?thesis
    using assms Overlaps_sym Overlaps_common_point Contains_Intersect Contains_Merge Intersect_disjoint by metis
qed

theorem window_overlap_exact_witness:
  "Overlaps (mk_window 5 9) (mk_window 7 0) \<and> Contains (Intersect (mk_window 5 9) (mk_window 7 0)) 8 \<and>
   Contains (Merge (mk_window 5 9) (mk_window 7 0)) 100"
proof -
  have "window_wf (mk_window 5 9)" "window_wf (mk_window 7 0)" "\<not> IsEmpty (mk_window 5 9)"
    "\<not> IsEmpty (mk_window 7 0)" "Contains (mk_window 5 9) 8" "Contains (mk_window 7 0) 8"
    "Contains (mk_window 7 0) 100"
    by (simp_all add: window_wf_def IsEmpty_def Contains_def)
  then show ?thesis
    using window_overlap_exact [of "mk_window 5 9" "mk_window 7 0" 8]
      window_overlap_exact [of "mk_window 5 9" "mk_window 7 0" 100] by blast
qed

text \<open>The default window is treated in two opposite ways: it contains every timestamp, as its
  comment says, yet it overlaps no window at all; and the intersection of disjoint bounded windows,
  meant to be empty, is that default window and so contains every timestamp.\<close>

theorem default_window_contradiction:
  "Contains TemporalWindow_default t \<and> \<not> Overlaps TemporalWindow_default w \<and>
   (tw_end a \<noteq> 0 \<and> tw_end a < tw_start b \<and> tw_start b \<le> tw_end b \<longrightarrow> Contains (Intersect a b) t)"
  by (auto simp: TemporalWindow_default_def Contains_def Overlaps_def IsEmpty_def Intersect_def
      Let_def min_def max_def)

theorem default_window_contradiction_witness:
  "Contains (Intersect (mk_window 1 2) (mk_window 5 6)) 99"
  using default_window_contradiction [of 99 TemporalWindow_default "mk_window 1 2" "mk_window 5 6"] by simp

subsection \<open>Text form\<close>

lemma digit_char: "n < 10 \<Longrightarrow> is_digit (char_of (48 + n)) \<and> of_char (char_of (48 + n)) - 48 = (n :: nat)"
  by (simp add: is_digit_def)

lemma to_string_nat_digits: "to_string_nat n \<noteq> [] \<and> list_all is_digit (to_string_nat n)"
proof (induction n rule: to_string_nat.induct)
  case (1 n)
  then show ?case using digit_char [of n] digit_char [of "n mod 10"]
    by (cases "n < 10") (simp_all add: to_string_nat.simps [of n])
qed

lemma digits_value_snoc: "digits_value (ds @ [c]) = digits_value ds * 10 + (of_char c - 48)"
  by (simp add: digits_value_def)

lemma digits_value_to_string: "digits_value (to_string_nat n) = n"
proof (induction n rule: to_string_nat.induct)
  case (1 n)
  show ?case
  proof (cases "n < 10")
    case True
    then show ?thesis using digit_char [of n] by (simp add: to_string_nat.simps [of n] digits_value_def)
  next
    case False
    then show ?thesis using 1 digit_char [of "n mod 10"]
      by (simp add: to_string_nat.simps [of n] digits_value_snoc)
  qed
qed

lemma is_digit_not: "is_digit c \<Longrightarrow> \<not> is_space c \<and> c \<noteq> CHR ''-'' \<and> c \<noteq> CHR ''+'' \<and> c \<noteq> CHR '':'' \<and> c \<noteq> CHR ''i''"
  by (auto simp: is_digit_def is_space_def)

lemma stoull_to_string [simp]: "stoull (to_string w) = Some w"
proof -
  let ?s = "to_string_nat (unat w)"
  obtain c cs where s: "?s = c # cs" using to_string_nat_digits [of "unat w"] by (cases ?s) auto
  have dig: "\<forall>d \<in> set ?s. is_digit d" using to_string_nat_digits [of "unat w"] by (simp add: list_all_iff)
  then have c: "is_digit c" using s by simp
  have "takeWhile is_digit ?s = ?s" using dig by simp
  moreover have "dropWhile is_space ?s = ?s" using is_digit_not [OF c] s by simp
  moreover have "unat w < 2 ^ 64" using unsigned_less [of w] by simp
  ultimately show ?thesis
    using is_digit_not [OF c] digits_value_to_string [of "unat w"]
    by (simp add: stoull_def to_string_def Let_def s)
qed

lemma to_string_no_colon: "c \<in> set (to_string w) \<Longrightarrow> c \<noteq> CHR '':''"
  using to_string_nat_digits [of "unat w"] is_digit_not by (auto simp: to_string_def list_all_iff)

lemma to_string_not_inf: "to_string w \<noteq> ''inf''"
proof
  assume "to_string w = ''inf''"
  then have "is_digit CHR ''i''"
    using to_string_nat_digits [of "unat w"] by (simp add: to_string_def)
  then show False using is_digit_not by blast
qed

lemma to_string_0: "to_string w = ''0'' \<Longrightarrow> w = 0"
  using digits_value_to_string [of "unat w"]
  by (simp add: to_string_def digits_value_def unat_eq_zero flip: word_unat_eq_iff)

text \<open>The text form of a window parses back to the same window.\<close>

theorem window_text_roundtrip: "Window_FromString (Window_ToString w) = Some w"
proof -
  let ?rest = "if tw_end w = 0 then ''inf'' else to_string (tw_end w)"
  let ?str = "to_string (tw_start w) @ CHR '':'' # ?rest"
  have "takeWhile (\<lambda>c. c \<noteq> CHR '':'') ?str = to_string (tw_start w)"
    "dropWhile (\<lambda>c. c \<noteq> CHR '':'') ?str = CHR '':'' # ?rest"
    using to_string_no_colon by (auto simp: takeWhile_append dropWhile_append)
  then show ?thesis
    using to_string_not_inf [of "tw_end w"] to_string_0 [of "tw_end w"]
    by (cases w) (auto simp: Window_FromString_def Window_ToString_def Let_def)
qed

subsection \<open>Splitting large windows\<close>

lemma split_loop_returns:
  assumes "0 < m" "unat e + unat m < 2 ^ 64" "s \<le> e"
  shows "\<exists>ws. split_loop s e m acc = Some (acc @ ws) \<and> (\<forall>v \<in> set ws. tw_end v \<noteq> 0 \<and> Span v \<le> m) \<and>
    (s < e \<longrightarrow> (\<forall>t. s \<le> t \<and> t \<le> e \<longleftrightarrow> (\<exists>v \<in> set ws. Contains v t)))"
  using assms(3)
proof (induction "unat e - unat s" arbitrary: s acc rule: less_induct)
  case less
  show ?case
  proof (cases "s < e")
    case False
    then show ?thesis by (simp add: split_loop.simps [of s])
  next
    case True
    let ?c = "min (s + m) e"
    have sm: "unat (s + m) = unat s + unat m"
      using True assms(2) by (simp add: unat_word_ariths word_less_nat_alt)
    have m: "0 < unat m" using assms(1) by (simp add: word_less_nat_alt)
    have c: "s < ?c" "?c \<le> e" "?c \<noteq> 0" "unat ?c - unat s \<le> unat m"
      using True sm m by (auto simp: min_def word_less_nat_alt word_le_nat_alt)
    then have "unat e - unat ?c < unat e - unat s"
      using True by (simp add: word_less_nat_alt word_le_nat_alt)
    from less.hyps [OF this c(2), of "acc @ [mk_window s ?c]"]
    obtain ws where ws: "split_loop ?c e m (acc @ [mk_window s ?c]) = Some ((acc @ [mk_window s ?c]) @ ws)"
      "\<forall>v \<in> set ws. tw_end v \<noteq> 0 \<and> Span v \<le> m"
      "?c < e \<longrightarrow> (\<forall>t. ?c \<le> t \<and> t \<le> e \<longleftrightarrow> (\<exists>v \<in> set ws. Contains v t))" by blast
    have nil: "ws = []" if "\<not> ?c < e"
      using ws(1) that by (simp add: split_loop.simps [of ?c])
    have "Span (mk_window s ?c) \<le> m"
      using c(4) unat_sub [OF less_imp_le [OF c(1)]] by (simp add: Span_def word_le_nat_alt)
    moreover have "s \<le> t \<and> t \<le> e \<longleftrightarrow> (\<exists>v \<in> set (mk_window s ?c # ws). Contains v t)" for t
    proof (cases "?c < e")
      case True
      then have "(\<exists>v \<in> set ws. Contains v t) \<longleftrightarrow> ?c \<le> t \<and> t \<le> e" using ws(3) by simp
      moreover have "Contains (mk_window s ?c) t \<longleftrightarrow> s \<le> t \<and> t \<le> ?c"
        using c(3) by (simp add: Contains_def)
      ultimately show ?thesis using c(1,2) by (auto simp del: min_less_iff_conj)
    next
      case False
      with c(2) have "?c = e" by (meson linorder_not_less order_antisym)
      with nil False c show ?thesis by (auto simp: Contains_def)
    qed
    moreover have "split_loop s e m acc = Some (acc @ mk_window s ?c # ws)"
      using True ws(1) by (simp add: split_loop.simps [of s] Let_def)
    ultimately show ?thesis using ws(2) c(3)
      by (intro exI [of _ "mk_window s ?c # ws"]) auto
  qed
qed

lemma split_loop_diverges:
  assumes "s < e"
  shows "split_loop s e 0 acc = None"
proof (rule ccontr)
  assume "split_loop s e 0 acc \<noteq> None"
  then obtain r where "split_loop s e 0 acc = Some r" by blast
  then have "s < e \<longrightarrow> (0::u64) \<noteq> 0"
  proof (rule split_loop.raw_induct [where P = "\<lambda>s e m _ _. s < e \<longrightarrow> m \<noteq> 0", rotated])
    fix f s e m acc r
    assume IH: "\<And>s e m acc r. f s e m acc = Some r \<Longrightarrow> s < e \<longrightarrow> m \<noteq> (0::u64)"
      and eq: "(if s < e then let ce = min (s + m) e in f ce e m (acc @ [mk_window s ce]) else Some acc) = Some r"
    show "s < e \<longrightarrow> m \<noteq> 0"
    proof (intro impI notI)
      assume "s < e" "m = 0"
      moreover from this have "min (s + m) e = s" by simp
      ultimately have "f s e m (acc @ [mk_window s s]) = Some r" using eq by (simp add: Let_def)
      from IH [OF this] \<open>s < e\<close> \<open>m = 0\<close> show False by simp
    qed
  qed
  with assms show False by simp
qed

text \<open>C36. Splitting a non-empty bounded window with a positive limit, where the end of the window plus the limit does not
  exceed 64 bits, returns pieces no longer than the limit that together contain
  exactly the timestamps of the window. With limit zero the loop never returns for a window whose start lies before its end; an
  empty window then gives no piece, and every other window is returned whole at once.\<close>

theorem SplitLargeWindow_covers:
  "(\<not> IsEmpty w \<and> tw_end w \<noteq> 0 \<and> 0 < max_span \<and> unat (tw_end w) + unat max_span < 2 ^ 64 \<longrightarrow>
     (\<exists>ws. SplitLargeWindow w max_span = Some ws \<and> (\<forall>v \<in> set ws. Span v \<le> max_span) \<and>
        (\<forall>t. Contains w t \<longleftrightarrow> (\<exists>v \<in> set ws. Contains v t)))) \<and>
   SplitLargeWindow w 0 = (if tw_start w < tw_end w then None else Some (if IsEmpty w then [] else [w]))"
proof (intro conjI impI)
  assume a: "\<not> IsEmpty w \<and> tw_end w \<noteq> 0 \<and> 0 < max_span \<and> unat (tw_end w) + unat max_span < 2 ^ 64"
  show "\<exists>ws. SplitLargeWindow w max_span = Some ws \<and> (\<forall>v \<in> set ws. Span v \<le> max_span) \<and>
        (\<forall>t. Contains w t \<longleftrightarrow> (\<exists>v \<in> set ws. Contains v t))"
  proof (cases "Span w = 0 \<or> Span w \<le> max_span")
    case True
    with a show ?thesis by (intro exI [of _ "[w]"]) (auto simp: SplitLargeWindow_def Let_def)
  next
    case False
    then have "tw_start w < tw_end w"
      by (auto simp: Span_def split: if_splits)
    then have "tw_start w \<le> tw_end w" by (rule less_imp_le)
    with \<open>tw_start w < tw_end w\<close> obtain ws where "split_loop (tw_start w) (tw_end w) max_span [] = Some ws"
      "\<forall>v \<in> set ws. Span v \<le> max_span"
      "\<forall>t. tw_start w \<le> t \<and> t \<le> tw_end w \<longleftrightarrow> (\<exists>v \<in> set ws. Contains v t)"
      using split_loop_returns [of max_span "tw_end w" "tw_start w" "[]"] a by auto
    with a False show ?thesis
      by (auto simp: SplitLargeWindow_def Let_def Contains_def [of w])
  qed
next
  have "Span w \<noteq> 0" "\<not> IsEmpty w" if "tw_start w < tw_end w" using that by (auto simp: Span_def IsEmpty_def)
  moreover have "Span w = 0" if "\<not> tw_start w < tw_end w" using that by (auto simp: Span_def)
  ultimately show "SplitLargeWindow w 0 = (if tw_start w < tw_end w then None else Some (if IsEmpty w then [] else [w]))"
    using split_loop_diverges [of "tw_start w" "tw_end w" "[]"] by (auto simp: SplitLargeWindow_def Let_def)
qed

theorem SplitLargeWindow_covers_witness:
  "(\<exists>ws. SplitLargeWindow (mk_window 10 25) 7 = Some ws \<and> (\<forall>t. Contains (mk_window 10 25) t \<longleftrightarrow>
      (\<exists>v \<in> set ws. Contains v t))) \<and> SplitLargeWindow (mk_window 10 25) 0 = None"
  using SplitLargeWindow_covers [of "mk_window 10 25" 7] by (auto simp: IsEmpty_def)

end
