(* ===== verification/Twcd_Engine.thy ===== *)
theory Twcd_Engine
  imports Temporal_Window
begin

text \<open>
  The temporal-window conflict detection engine (\<open>src/include/cedar/dtx/twcd_engine.h\<close>,
  \<open>src/src/dtx/protocol/twcd_engine.cc\<close>): the interval tree over the windows of active
  transactions and the engine that registers windows and write sets and checks a transaction
  against them. Locking is not modelled: each call is one atomic step. The tree is compared with
  the set of windows inserted and not removed; the engine is checked in every state reachable by
  its operations.
\<close>

type_synonym txn_id = u64

definition kInvalidTxnID :: txn_id where
  "kInvalidTxnID = 0"

subsection \<open>Interval tree\<close>

datatype itree = Tip
  | INode (it_start: timestamp) (it_end: timestamp) (it_txns: "txn_id set")
      (it_left: itree) (it_right: itree) (it_max_end: timestamp)

definition IntervalTreeNode_new :: "timestamp \<Rightarrow> timestamp \<Rightarrow> txn_id \<Rightarrow> itree" where
  "IntervalTreeNode_new s e txn = INode s e {txn} Tip Tip e"

text \<open>The \<open>max_end\<close> of an existing child, and the update from the node's own \<open>end\<close>.\<close>

definition bump_max :: "itree \<Rightarrow> timestamp \<Rightarrow> timestamp" where
  "bump_max child m = (case child of Tip \<Rightarrow> m
     | INode _ _ _ _ _ cm \<Rightarrow> if m < cm then cm else m)"

fun UpdateMaxEnd :: "itree \<Rightarrow> itree" where
  "UpdateMaxEnd Tip = Tip"
| "UpdateMaxEnd (INode s e txns l r m) = INode s e txns l r (bump_max r (bump_max l e))"

fun InsertRecursive :: "itree \<Rightarrow> timestamp \<Rightarrow> timestamp \<Rightarrow> txn_id \<Rightarrow> itree" where
  "InsertRecursive Tip s e txn = IntervalTreeNode_new s e txn"
| "InsertRecursive (INode ns ne txns l r m) s e txn =
     (if s < ns then UpdateMaxEnd (INode ns ne txns (InsertRecursive l s e txn) r m)
      else UpdateMaxEnd (INode ns ne txns l (InsertRecursive r s e txn) m))"

fun FindMin :: "itree \<Rightarrow> itree" where
  "FindMin (INode s e txns (INode s' e' txns' l' r' m') r m) = FindMin (INode s' e' txns' l' r' m')"
| "FindMin t = t"

text \<open>\<open>*min_node->txns.begin()\<close> is the least transaction id of the ordered set.\<close>

fun RemoveRecursive :: "itree \<Rightarrow> timestamp \<Rightarrow> timestamp \<Rightarrow> txn_id \<Rightarrow> itree" where
  "RemoveRecursive Tip s e txn = Tip"
| "RemoveRecursive (INode ns ne txns l r m) s e txn =
     (if s < ns then UpdateMaxEnd (INode ns ne txns (RemoveRecursive l s e txn) r m)
      else if ns < s then UpdateMaxEnd (INode ns ne txns l (RemoveRecursive r s e txn) m)
      else
        (let txns' = txns - {txn} in
         if txns' = {} then
           (if l = Tip \<and> r = Tip then Tip
            else if l = Tip then r
            else if r = Tip then l
            else
              (case FindMin r of
                 Tip \<Rightarrow> UpdateMaxEnd (INode ns ne txns' l r m)
               | INode ms me mtxns ml mr mm \<Rightarrow>
                   UpdateMaxEnd (INode ms me mtxns l (RemoveRecursive r ms me (Min mtxns)) m)))
         else UpdateMaxEnd (INode ns ne txns' l r m)))"

fun QueryRecursive :: "itree \<Rightarrow> temporal_window \<Rightarrow> txn_id set" where
  "QueryRecursive Tip w = {}"
| "QueryRecursive (INode s e txns l r m) w =
     (if Overlaps (mk_window s e) w then txns else {}) \<union>
     (if l \<noteq> Tip \<and> tw_start w \<le> it_max_end l then QueryRecursive l w else {}) \<union>
     (if s \<le> tw_end w \<or> tw_end w = 0 then QueryRecursive r w else {})"

record interval_tree =
  tree_root :: itree
  tree_size :: nat

definition Tree_Insert :: "temporal_window \<Rightarrow> txn_id \<Rightarrow> interval_tree \<Rightarrow> interval_tree" where
  "Tree_Insert w txn t = t\<lparr>tree_root := InsertRecursive (tree_root t) (tw_start w) (tw_end w) txn,
     tree_size := tree_size t + 1\<rparr>"

definition Tree_Remove :: "temporal_window \<Rightarrow> txn_id \<Rightarrow> interval_tree \<Rightarrow> interval_tree" where
  "Tree_Remove w txn t = t\<lparr>tree_root := RemoveRecursive (tree_root t) (tw_start w) (tw_end w) txn,
     tree_size := (if 0 < tree_size t then tree_size t - 1 else tree_size t)\<rparr>"

definition QueryOverlapping :: "temporal_window \<Rightarrow> interval_tree \<Rightarrow> txn_id set" where
  "QueryOverlapping w t = QueryRecursive (tree_root t) w"

definition Tree_Clear :: "interval_tree \<Rightarrow> interval_tree" where
  "Tree_Clear t = t\<lparr>tree_root := Tip, tree_size := 0\<rparr>"

subsection \<open>The engine\<close>

text \<open>
  \<open>unordered_map\<close> and \<open>unordered_set\<close> identify keys by \<open>operator==\<close>, that is by
  \<open>Compare\<close>, which ignores the partition id; \<open>key_norm\<close> names the class of a key.
\<close>

definition key_norm :: "cedar_key \<Rightarrow> cedar_key" where
  "key_norm k = k\<lparr>part_id_f := 0\<rparr>"

record active_txn_entry =
  ate_window :: temporal_window
  ate_write_set :: "cedar_key set"
  ate_register_time :: timestamp

datatype conflict_type = kNoConflict | kReadWrite | kWriteWrite | kTemporalOverlap

record conflict_check_result =
  has_conflict :: bool
  ccr_type :: conflict_type
  conflict_keys :: "cedar_key list"
  conflict_txns :: "txn_id set"

definition NoConflict :: conflict_check_result where
  "NoConflict = \<lparr>has_conflict = False, ccr_type = kNoConflict, conflict_keys = [], conflict_txns = {}\<rparr>"

definition ReadWriteConflict :: "cedar_key list \<Rightarrow> txn_id set \<Rightarrow> conflict_check_result" where
  "ReadWriteConflict keys txns =
     \<lparr>has_conflict = True, ccr_type = kReadWrite, conflict_keys = keys, conflict_txns = txns\<rparr>"

definition WriteWriteConflict :: "cedar_key list \<Rightarrow> txn_id set \<Rightarrow> conflict_check_result" where
  "WriteWriteConflict keys txns =
     \<lparr>has_conflict = True, ccr_type = kWriteWrite, conflict_keys = keys, conflict_txns = txns\<rparr>"

record twcd_engine =
  active_txns :: "txn_id \<rightharpoonup> active_txn_entry"
  twcd_tree :: interval_tree
  key_to_txns :: "cedar_key \<rightharpoonup> txn_id set"
  total_checks :: u64
  conflict_detected :: u64
  total_check_latency_us :: u64

definition TwcdEngine_init :: twcd_engine where
  "TwcdEngine_init = \<lparr>active_txns = Map.empty, twcd_tree = \<lparr>tree_root = Tip, tree_size = 0\<rparr>,
     key_to_txns = Map.empty, total_checks = 0, conflict_detected = 0, total_check_latency_us = 0\<rparr>"

definition RegisterWindow :: "txn_id \<Rightarrow> temporal_window \<Rightarrow> timestamp \<Rightarrow> twcd_engine \<Rightarrow> Status \<times> twcd_engine" where
  "RegisterWindow txn w now s =
    (if txn = kInvalidTxnID then (InvalidArgument, s)
     else if active_txns s txn \<noteq> None then (InvalidArgument, s)
     else (OK, s\<lparr>active_txns := (active_txns s)(txn \<mapsto>
                   \<lparr>ate_window = w, ate_write_set = {}, ate_register_time = now\<rparr>),
                 twcd_tree := Tree_Insert w txn (twcd_tree s)\<rparr>))"

text \<open>One round of the loop of \<open>UnregisterWriteSet\<close>: drop the transaction from a key's writers, and
  the key when no writer is left.\<close>

definition unindex_key :: "txn_id \<Rightarrow> (cedar_key \<rightharpoonup> txn_id set) \<Rightarrow> cedar_key \<Rightarrow> txn_id set option" where
  "unindex_key txn m k =
     (case m k of None \<Rightarrow> None | Some S \<Rightarrow> if S - {txn} = {} then None else Some (S - {txn}))"

definition UnregisterWriteSet :: "txn_id \<Rightarrow> twcd_engine \<Rightarrow> twcd_engine" where
  "UnregisterWriteSet txn s =
    (case active_txns s txn of
       None \<Rightarrow> s
     | Some entry \<Rightarrow> s\<lparr>key_to_txns := (\<lambda>k. if k \<in> ate_write_set entry
                                          then unindex_key txn (key_to_txns s) k else key_to_txns s k)\<rparr>)"

definition UnregisterWindow :: "txn_id \<Rightarrow> twcd_engine \<Rightarrow> twcd_engine" where
  "UnregisterWindow txn s0 =
    (let s = UnregisterWriteSet txn s0 in
     case active_txns s txn of
       None \<Rightarrow> s
     | Some entry \<Rightarrow> s\<lparr>active_txns := (active_txns s)(txn := None),
                       twcd_tree := Tree_Remove (ate_window entry) txn (twcd_tree s)\<rparr>)"

definition UpdateWindow :: "txn_id \<Rightarrow> temporal_window \<Rightarrow> twcd_engine \<Rightarrow> Status \<times> twcd_engine" where
  "UpdateWindow txn new_window s =
    (case active_txns s txn of
       None \<Rightarrow> (NotFound, s)
     | Some entry \<Rightarrow>
         (OK, s\<lparr>active_txns := (active_txns s)(txn \<mapsto> entry\<lparr>ate_window := new_window\<rparr>),
                twcd_tree := Tree_Insert new_window txn (Tree_Remove (ate_window entry) txn (twcd_tree s))\<rparr>))"

fun index_keys :: "txn_id \<Rightarrow> cedar_key list \<Rightarrow> (cedar_key \<rightharpoonup> txn_id set) \<Rightarrow> (cedar_key \<rightharpoonup> txn_id set)" where
  "index_keys txn [] m = m"
| "index_keys txn (k # ks) m =
     index_keys txn ks
       (m(key_norm k \<mapsto> insert txn (case m (key_norm k) of None \<Rightarrow> {} | Some S \<Rightarrow> S)))"

definition RegisterWriteSet :: "txn_id \<Rightarrow> cedar_key list \<Rightarrow> twcd_engine \<Rightarrow> Status \<times> twcd_engine" where
  "RegisterWriteSet txn write_set s =
    (case active_txns s txn of
       None \<Rightarrow> (NotFound, s)
     | Some entry \<Rightarrow>
         (OK, s\<lparr>active_txns := (active_txns s)(txn \<mapsto>
                   entry\<lparr>ate_write_set := ate_write_set entry \<union> key_norm ` set write_set\<rparr>),
                key_to_txns := index_keys txn write_set (key_to_txns s)\<rparr>))"

definition key_conflicts :: "txn_id \<Rightarrow> twcd_engine \<Rightarrow> txn_id set \<Rightarrow> cedar_key \<Rightarrow> bool" where
  "key_conflicts txn s overlapping k =
     (case key_to_txns s (key_norm k) of
        None \<Rightarrow> False
      | Some writers \<Rightarrow> \<exists>other \<in> writers. other \<noteq> txn \<and> other \<in> overlapping)"

definition DetectReadWriteConflicts :: "txn_id \<Rightarrow> cedar_key list \<Rightarrow> txn_id set \<Rightarrow> twcd_engine \<Rightarrow> cedar_key list" where
  "DetectReadWriteConflicts txn read_set overlapping s = filter (key_conflicts txn s overlapping) read_set"

definition DetectWriteWriteConflicts :: "txn_id \<Rightarrow> cedar_key list \<Rightarrow> txn_id set \<Rightarrow> twcd_engine \<Rightarrow> cedar_key list" where
  "DetectWriteWriteConflicts txn write_set overlapping s = filter (key_conflicts txn s overlapping) write_set"

text \<open>\<open>latency\<close> is the measured duration of the check in microseconds.\<close>

definition CheckConflict ::
  "txn_id \<Rightarrow> temporal_window \<Rightarrow> cedar_key list \<Rightarrow> cedar_key list \<Rightarrow> u64 \<Rightarrow> twcd_engine \<Rightarrow>
   conflict_check_result \<times> twcd_engine" where
  "CheckConflict txn w read_set write_set latency s0 =
    (let s = s0\<lparr>total_checks := total_checks s0 + 1,
                total_check_latency_us := total_check_latency_us s0 + latency\<rparr>;
         overlapping = QueryOverlapping w (twcd_tree s) - {txn}
     in if overlapping = {} then (NoConflict, s)
        else
          (let rw = DetectReadWriteConflicts txn read_set overlapping s in
           if rw \<noteq> [] then (ReadWriteConflict rw overlapping, s\<lparr>conflict_detected := conflict_detected s + 1\<rparr>)
           else
             (let ww = DetectWriteWriteConflicts txn write_set overlapping s in
              if ww \<noteq> [] then (WriteWriteConflict ww overlapping, s\<lparr>conflict_detected := conflict_detected s + 1\<rparr>)
              else (NoConflict, s))))"

definition HasOverlappingTransactions :: "txn_id \<Rightarrow> temporal_window \<Rightarrow> twcd_engine \<Rightarrow> bool" where
  "HasOverlappingTransactions txn w s \<longleftrightarrow> QueryOverlapping w (twcd_tree s) - {txn} \<noteq> {}"

definition GetOverlappingTxns :: "temporal_window \<Rightarrow> twcd_engine \<Rightarrow> txn_id set" where
  "GetOverlappingTxns w s = QueryOverlapping w (twcd_tree s)"

definition GetActiveTxnCount :: "twcd_engine \<Rightarrow> nat" where
  "GetActiveTxnCount s = card (dom (active_txns s))"

definition GetActiveWindowCount :: "twcd_engine \<Rightarrow> nat" where
  "GetActiveWindowCount s = tree_size (twcd_tree s)"

definition ResetStats :: "twcd_engine \<Rightarrow> twcd_engine" where
  "ResetStats s = s\<lparr>total_checks := 0, conflict_detected := 0, total_check_latency_us := 0\<rparr>"

subsection \<open>Interval tree: invariant and contents\<close>

fun entries :: "itree \<Rightarrow> (timestamp \<times> timestamp \<times> txn_id) set" where
  "entries Tip = {}"
| "entries (INode s e txns l r m) = (\<lambda>t. (s, e, t)) ` txns \<union> entries l \<union> entries r"

fun itree_ok :: "itree \<Rightarrow> bool" where
  "itree_ok Tip = True"
| "itree_ok (INode s e txns l r m) \<longleftrightarrow>
     (\<exists>t. txns = {t}) \<and> m = bump_max r (bump_max l e) \<and>
     (\<forall>y \<in> entries l. fst y < s) \<and> (\<forall>y \<in> entries r. s \<le> fst y) \<and>
     itree_ok l \<and> itree_ok r"

lemma entries_UpdateMaxEnd [simp]: "entries (UpdateMaxEnd t) = entries t"
  by (cases t) simp_all

lemma bump_max_le: "m \<le> bump_max c m"
  by (auto simp: bump_max_def split: itree.splits)

lemma bump_max_child: "c \<noteq> Tip \<Longrightarrow> it_max_end c \<le> bump_max c m"
  by (auto simp: bump_max_def split: itree.splits)

lemma max_end_bounds: "itree_ok t \<Longrightarrow> (s, e, x) \<in> entries t \<Longrightarrow> e \<le> it_max_end t"
proof (induction t)
  case (INode ns ne txns l r m)
  have m: "m = bump_max r (bump_max l ne)" using INode.prems(1) by simp
  have l: "l \<noteq> Tip \<Longrightarrow> it_max_end l \<le> m"
    unfolding m using bump_max_child bump_max_le order_trans by blast
  have r: "r \<noteq> Tip \<Longrightarrow> it_max_end r \<le> m"
    unfolding m by (rule bump_max_child)
  have n: "ne \<le> m" unfolding m using bump_max_le order_trans by blast
  show ?case
    using INode n l r by (cases "l = Tip"; cases "r = Tip") (auto intro: order_trans)
qed simp

lemma entries_Insert [simp]: "entries (InsertRecursive t s e x) = insert (s, e, x) (entries t)"
  by (induction t) (auto simp: IntervalTreeNode_new_def)

lemma itree_ok_Insert: "itree_ok t \<Longrightarrow> itree_ok (InsertRecursive t s e x)"
  by (induction t) (auto simp: IntervalTreeNode_new_def bump_max_def)

lemma itree_ok_UpdateMaxEnd:
  "itree_ok (UpdateMaxEnd (INode s e txns l r m)) \<longleftrightarrow>
     (\<exists>t. txns = {t}) \<and> (\<forall>y \<in> entries l. fst y < s) \<and> (\<forall>y \<in> entries r. s \<le> fst y) \<and>
     itree_ok l \<and> itree_ok r"
  by simp

lemma itree_okD:
  assumes "itree_ok (INode s e txns l r m)"
  shows "itree_ok l" "\<forall>y \<in> entries l. fst y < s" "\<forall>y \<in> entries r. s \<le> fst y" "itree_ok r"
    "\<exists>t. txns = {t}"
  using assms by simp_all

lemma FindMin_min:
  "itree_ok t \<Longrightarrow> t \<noteq> Tip \<Longrightarrow> \<exists>ms me x mr mm. FindMin t = INode ms me {x} Tip mr mm \<and>
     (ms, me, x) \<in> entries t \<and> (\<forall>y \<in> entries t. ms \<le> fst y)"
proof (induction t rule: FindMin.induct)
  case (1 s e txns s' e' txns' l' r' m' r m)
  let ?l = "INode s' e' txns' l' r' m'"
  have ok: "itree_ok ?l" "\<forall>y \<in> entries ?l. fst y < s" "\<forall>y \<in> entries r. s \<le> fst y"
    by (rule itree_okD [OF "1.prems"(1)])+
  obtain ms me x mr mm where *: "FindMin ?l = INode ms me {x} Tip mr mm" "(ms, me, x) \<in> entries ?l"
      "\<forall>y \<in> entries ?l. ms \<le> fst y"
    using "1.IH" ok(1) by blast
  have "ms < s" using ok(2) *(2) by fastforce
  then have "\<forall>y \<in> entries (INode s e txns ?l r m). ms \<le> fst y"
    using *(3) ok(3) by (fastforce simp only: entries.simps(2) [of s] Un_iff image_iff fst_conv)
  moreover have "(ms, me, x) \<in> entries (INode s e txns ?l r m)"
    using *(2) by (simp only: entries.simps(2) [of s] Un_iff simp_thms)
  ultimately show ?case using *(1) by (simp only: FindMin.simps) blast
qed fastforce+

lemma entries_FindMin_Remove:
  "itree_ok t \<Longrightarrow> FindMin t = INode ms me {x} Tip mr mm \<Longrightarrow>
   entries (RemoveRecursive t ms me x) \<union> {(ms, me, x)} = entries t"
proof (induction t rule: FindMin.induct)
  case (1 s e txns s' e' txns' l' r' m' r m)
  let ?l = "INode s' e' txns' l' r' m'"
  have ok: "itree_ok ?l" "\<forall>y \<in> entries ?l. fst y < s"
    by (rule itree_okD [OF "1.prems"(1)])+
  have min: "FindMin ?l = INode ms me {x} Tip mr mm" using "1.prems"(2) by simp
  have "(ms, me, x) \<in> entries ?l" using FindMin_min [OF ok(1)] min by fastforce
  then have "ms < s" using ok(2) by fastforce
  then have "RemoveRecursive (INode s e txns ?l r m) ms me x
      = UpdateMaxEnd (INode s e txns (RemoveRecursive ?l ms me x) r m)"
    by (simp only: RemoveRecursive.simps(2) [of s] if_True)
  then show ?case using "1.IH" [OF ok(1) min]
    by (simp only: entries_UpdateMaxEnd entries.simps(2) [of s]) blast
qed auto


text \<open>Removal drops at most entries of the given transaction at the given start, and adds nothing.\<close>

lemma Remove_entries:
  "itree_ok t \<Longrightarrow> entries (RemoveRecursive t s e x) \<subseteq> entries t \<and>
     (\<forall>y \<in> entries t. y \<in> entries (RemoveRecursive t s e x) \<or> (fst y = s \<and> snd (snd y) = x))"
proof (induction t)
  case (INode ns ne txns l r m)
  note ok = itree_okD [OF INode.prems]
  obtain z where z: "txns = {z}" using ok(5) by blast
  consider "s < ns" | "ns < s" | "s = ns" "z \<noteq> x" | "s = ns" "z = x" "l = Tip \<or> r = Tip"
    | "s = ns" "z = x" "l \<noteq> Tip" "r \<noteq> Tip" by fastforce
  then show ?case
  proof cases
    case 5
    obtain ms me y mr mm where min: "FindMin r = INode ms me {y} Tip mr mm"
      using FindMin_min [OF ok(4) 5(4)] by blast
    have "entries r = entries (RemoveRecursive r ms me y) \<union> {(ms, me, y)}"
      by (rule entries_FindMin_Remove [OF ok(4) min, symmetric])
    then show ?thesis using 5 z min by auto
  qed (use INode.IH ok z in \<open>auto simp: Let_def\<close>)
qed simp

lemma itree_ok_Remove: "itree_ok t \<Longrightarrow> itree_ok (RemoveRecursive t s e x)"
proof (induction t arbitrary: s e x)
  case (INode ns ne txns l r m)
  note ok = itree_okD [OF INode.prems]
  obtain z where z: "txns = {z}" using ok(5) by blast
  have sub: "entries (RemoveRecursive l s e x) \<subseteq> entries l" "entries (RemoveRecursive r s e x) \<subseteq> entries r"
    using Remove_entries ok by blast+
  consider "s < ns" | "ns < s" | "s = ns" "z \<noteq> x" | "s = ns" "z = x" "l = Tip \<or> r = Tip"
    | "s = ns" "z = x" "l \<noteq> Tip" "r \<noteq> Tip" by fastforce
  then show ?case
  proof cases
    case 1
    then show ?thesis using INode.IH(1) [OF ok(1)] sub ok z by (auto simp: Let_def)
  next
    case 2
    then show ?thesis using INode.IH(2) [OF ok(4)] sub ok z by (auto simp: Let_def)
  next
    case 5
    obtain ms me y mr mm where min: "FindMin r = INode ms me {y} Tip mr mm" "(ms, me, y) \<in> entries r"
        "\<forall>q \<in> entries r. ms \<le> fst q"
      using FindMin_min [OF ok(4) 5(4)] by blast
    have "entries (RemoveRecursive r ms me y) \<subseteq> entries r" using Remove_entries ok(4) by blast
    moreover have "ns \<le> ms" using ok(3) min(2) by fastforce
    ultimately show ?thesis
      using 5 z min ok INode.IH(2) [OF ok(4), of ms me y] by (auto simp: Let_def)
  qed (use INode.prems z in \<open>auto simp: Let_def\<close>)
qed simp

lemma Query_sound: "x \<in> QueryRecursive t w \<Longrightarrow> \<exists>s e. (s, e, x) \<in> entries t \<and> Overlaps (mk_window s e) w"
  by (induction t) (auto split: if_splits)

lemma Query_complete:
  "itree_ok t \<Longrightarrow> (s, e, x) \<in> entries t \<Longrightarrow> e \<noteq> 0 \<Longrightarrow> Overlaps (mk_window s e) w \<Longrightarrow>
   x \<in> QueryRecursive t w"
proof (induction t)
  case (INode ns ne txns l r m)
  note ok = itree_okD [OF INode.prems(1)]
  consider "(s, e, x) \<in> entries l" | "(s, e, x) \<in> entries r" | "s = ns" "e = ne" "x \<in> txns"
    using INode.prems(2) by auto
  then show ?case
  proof cases
    case 1
    have "tw_start w \<le> e" using INode.prems(3,4) by (auto simp: Overlaps_def split: if_splits)
    then have "l \<noteq> Tip \<and> tw_start w \<le> it_max_end l"
      using max_end_bounds [OF ok(1) 1] 1 by (auto intro: order_trans)
    then show ?thesis using INode 1 by simp
  next
    case 2
    have "ns \<le> s" using ok(3) 2 by fastforce
    moreover have "s \<le> tw_end w \<or> tw_end w = 0" using INode.prems(4) by (auto simp: Overlaps_def split: if_splits)
    ultimately have "ns \<le> tw_end w \<or> tw_end w = 0" by auto
    then show ?thesis using INode 2 by simp
  qed (use INode in simp)
qed simp


subsection \<open>The engine refines a registry of windows and write sets\<close>

text \<open>The abstract registry gives, for each active transaction, its window and the (normalised)
  keys whose writes it has announced.\<close>

type_synonym registry = "txn_id \<rightharpoonup> temporal_window \<times> cedar_key set"

datatype twcd_op = ORegister txn_id temporal_window timestamp | OUnregister txn_id
  | OUpdate txn_id temporal_window | OWrites txn_id "cedar_key list" | OUnwrites txn_id
  | OCheck txn_id temporal_window "cedar_key list" "cedar_key list" u64 | OReset

fun twcd_step :: "twcd_op \<Rightarrow> twcd_engine \<Rightarrow> twcd_engine" where
  "twcd_step (ORegister t w now) s = snd (RegisterWindow t w now s)"
| "twcd_step (OUnregister t) s = UnregisterWindow t s"
| "twcd_step (OUpdate t w) s = snd (UpdateWindow t w s)"
| "twcd_step (OWrites t ks) s = snd (RegisterWriteSet t ks s)"
| "twcd_step (OUnwrites t) s = UnregisterWriteSet t s"
| "twcd_step (OCheck t w rs ws lat) s = snd (CheckConflict t w rs ws lat s)"
| "twcd_step OReset s = ResetStats s"

fun registry_step :: "twcd_op \<Rightarrow> registry \<Rightarrow> registry" where
  "registry_step (ORegister t w now) r =
     (if t = kInvalidTxnID \<or> r t \<noteq> None then r else r(t \<mapsto> (w, {})))"
| "registry_step (OUnregister t) r = r(t := None)"
| "registry_step (OUpdate t w) r = (case r t of None \<Rightarrow> r | Some (_, K) \<Rightarrow> r(t \<mapsto> (w, K)))"
| "registry_step (OWrites t ks) r =
     (case r t of None \<Rightarrow> r | Some (w, K) \<Rightarrow> r(t \<mapsto> (w, K \<union> key_norm ` set ks)))"
| "registry_step (OUnwrites t) r = (case r t of None \<Rightarrow> r | Some (w, K) \<Rightarrow> r(t \<mapsto> (w, {})))"
| "registry_step _ r = r"

definition twcd_run :: "twcd_op list \<Rightarrow> twcd_engine" where
  "twcd_run ops = fold twcd_step ops TwcdEngine_init"

definition registry_run :: "twcd_op list \<Rightarrow> registry" where
  "registry_run ops = fold registry_step ops Map.empty"

definition writers :: "(cedar_key \<rightharpoonup> txn_id set) \<Rightarrow> cedar_key \<Rightarrow> txn_id set" where
  "writers m k = (case m k of None \<Rightarrow> {} | Some S \<Rightarrow> S)"

definition refines :: "twcd_engine \<Rightarrow> registry \<Rightarrow> bool" where
  "refines s r \<longleftrightarrow>
     itree_ok (tree_root (twcd_tree s)) \<and>
     (\<forall>t. map_option ate_window (active_txns s t) = map_option fst (r t)) \<and>
     (\<forall>t w K. r t = Some (w, K) \<longrightarrow>
        (tw_start w, tw_end w, t) \<in> entries (tree_root (twcd_tree s)) \<and>
        K \<subseteq> ate_write_set (the (active_txns s t))) \<and>
     (\<forall>k t. t \<in> writers (key_to_txns s) k \<longleftrightarrow> (\<exists>w K. r t = Some (w, K) \<and> k \<in> K))"

lemma writers_index_keys:
  "t' \<in> writers (index_keys t ks m) k \<longleftrightarrow> t' \<in> writers m k \<or> (t' = t \<and> k \<in> key_norm ` set ks)"
  by (induction ks arbitrary: m) (auto simp: writers_def split: option.splits if_splits)

lemma writers_unindex:
  "writers (\<lambda>k. if k \<in> S then unindex_key t m k else m k) k =
     (if k \<in> S then writers m k - {t} else writers m k)"
  by (auto simp: writers_def unindex_key_def split: option.splits)

lemma refines_init: "refines TwcdEngine_init Map.empty"
  by (simp add: refines_def TwcdEngine_init_def writers_def)

lemma refinesD:
  assumes "refines s r"
  shows "itree_ok (tree_root (twcd_tree s))"
    "map_option ate_window (active_txns s t) = map_option fst (r t)"
    "r t = Some (w, K) \<Longrightarrow> (tw_start w, tw_end w, t) \<in> entries (tree_root (twcd_tree s))"
    "r t = Some (w, K) \<Longrightarrow> K \<subseteq> ate_write_set (the (active_txns s t))"
    "t \<in> writers (key_to_txns s) k \<longleftrightarrow> (\<exists>w K. r t = Some (w, K) \<and> k \<in> K)"
  using assms unfolding refines_def by blast+

lemma refines_cases:
  assumes "refines s r"
  obtains "active_txns s t = None" "r t = None"
  | entry K where "active_txns s t = Some entry" "r t = Some (ate_window entry, K)"
      "K \<subseteq> ate_write_set entry"
proof (cases "active_txns s t")
  case None
  then show thesis using that(1) refinesD(2) [OF assms, of t] by simp
next
  case (Some entry)
  then obtain K where "r t = Some (ate_window entry, K)" using refinesD(2) [OF assms, of t] by (cases "r t") auto
  then show thesis using that(2) Some refinesD(4) [OF assms] by fastforce
qed

lemma Remove_keeps_others:
  "itree_ok t \<Longrightarrow> (s', e', y) \<in> entries t \<Longrightarrow> y \<noteq> x \<Longrightarrow> (s', e', y) \<in> entries (RemoveRecursive t s e x)"
  using Remove_entries [of t s e x] by fastforce

lemma refines_Register:
  assumes "refines s r"
  shows "refines (snd (RegisterWindow t w now s)) (registry_step (ORegister t w now) r)"
proof (rule refines_cases [OF assms, of t])
  assume "active_txns s t = None" "r t = None"
  then show ?thesis using assms
    by (auto simp: refines_def RegisterWindow_def Tree_Insert_def itree_ok_Insert)
qed (use assms in \<open>simp add: RegisterWindow_def\<close>)

lemma refines_Unwrites:
  assumes "refines s r"
  shows "refines (UnregisterWriteSet t s) (registry_step (OUnwrites t) r)"
proof (rule refines_cases [OF assms, of t])
  fix entry K
  assume act: "active_txns s t = Some entry" "r t = Some (ate_window entry, K)" "K \<subseteq> ate_write_set entry"
  have "t' \<in> writers (key_to_txns (UnregisterWriteSet t s)) k \<longleftrightarrow>
      (\<exists>w K. registry_step (OUnwrites t) r t' = Some (w, K) \<and> k \<in> K)" for t' k
    using act refinesD(5) [OF assms, of t' k] by (auto simp: UnregisterWriteSet_def writers_unindex)
  then show ?thesis using assms act
    by (auto simp: refines_def UnregisterWriteSet_def)
qed (use assms in \<open>simp add: UnregisterWriteSet_def\<close>)

lemma refines_Writes:
  assumes "refines s r"
  shows "refines (snd (RegisterWriteSet t ks s)) (registry_step (OWrites t ks) r)"
proof (rule refines_cases [OF assms, of t])
  fix entry K
  assume act: "active_txns s t = Some entry" "r t = Some (ate_window entry, K)" "K \<subseteq> ate_write_set entry"
  then show ?thesis using assms
    by (auto simp: refines_def RegisterWriteSet_def writers_index_keys)
qed (use assms in \<open>simp add: RegisterWriteSet_def\<close>)

lemma refines_Update:
  assumes "refines s r"
  shows "refines (snd (UpdateWindow t w s)) (registry_step (OUpdate t w) r)"
proof (rule refines_cases [OF assms, of t])
  fix entry K
  assume act: "active_txns s t = Some entry" "r t = Some (ate_window entry, K)" "K \<subseteq> ate_write_set entry"
  then show ?thesis using assms
    by (auto simp: refines_def UpdateWindow_def Tree_Insert_def Tree_Remove_def itree_ok_Insert itree_ok_Remove
        Remove_keeps_others)
qed (use assms in \<open>simp add: UpdateWindow_def\<close>)

lemma refines_Unregister:
  assumes "refines s r"
  shows "refines (UnregisterWindow t s) (registry_step (OUnregister t) r)"
proof (rule refines_cases [OF assms, of t])
  assume "active_txns s t = None" "r t = None"
  then show ?thesis using assms by (simp add: UnregisterWindow_def UnregisterWriteSet_def fun_upd_idem)
next
  fix entry K
  assume act: "active_txns s t = Some entry" "r t = Some (ate_window entry, K)" "K \<subseteq> ate_write_set entry"
  have *: "refines (UnregisterWriteSet t s) (r(t \<mapsto> (ate_window entry, {})))"
    using refines_Unwrites [OF assms, of t] act by simp
  have "active_txns (UnregisterWriteSet t s) = active_txns s"
    by (simp add: UnregisterWriteSet_def split: option.split)
  then show ?thesis using * act
    by (auto simp: refines_def UnregisterWindow_def Let_def Tree_Remove_def itree_ok_Remove Remove_keeps_others
        split: if_splits)
qed

lemma refines_step: "refines s r \<Longrightarrow> refines (twcd_step op s) (registry_step op r)"
proof (cases op)
  case (OCheck t w rs ws lat)
  assume "refines s r"
  then show ?thesis by (simp add: OCheck refines_def CheckConflict_def Let_def)
next
  case OReset
  assume "refines s r"
  then show ?thesis by (simp add: OReset refines_def ResetStats_def)
qed (simp_all only: twcd_step.simps refines_Register refines_Unregister refines_Update refines_Writes refines_Unwrites)

lemma refines_run: "refines (twcd_run ops) (registry_run ops)"
proof -
  have "refines s r \<Longrightarrow> refines (fold twcd_step ops s) (fold registry_step ops r)" for s r
    by (induction ops arbitrary: s r) (simp_all add: refines_step)
  then show ?thesis by (simp add: twcd_run_def registry_run_def refines_init)
qed


subsection \<open>Conflict detection\<close>

text \<open>Some key of \<open>ks\<close> has been announced as written by the active transaction \<open>u\<close>.\<close>

definition wrote_some :: "registry \<Rightarrow> txn_id \<Rightarrow> cedar_key list \<Rightarrow> bool" where
  "wrote_some r u ks = (case r u of None \<Rightarrow> False | Some (_, K) \<Rightarrow> list_ex (\<lambda>k. key_norm k \<in> K) ks)"

lemma key_conflicts_iff:
  "key_conflicts t s O' k \<longleftrightarrow> (\<exists>u \<in> writers (key_to_txns s) (key_norm k). u \<noteq> t \<and> u \<in> O')"
  by (auto simp: key_conflicts_def writers_def split: option.splits)

lemma CheckConflict_has_conflict:
  "has_conflict (fst (CheckConflict t w rs ws lat s)) \<longleftrightarrow>
     (\<exists>k \<in> set (rs @ ws). \<exists>u \<in> writers (key_to_txns s) (key_norm k).
        u \<noteq> t \<and> u \<in> QueryOverlapping w (twcd_tree s))"
proof -
  have "filter (key_conflicts t s (QueryOverlapping w (twcd_tree s) - {t})) ks \<noteq> [] \<longleftrightarrow>
      (\<exists>k \<in> set ks. \<exists>u \<in> writers (key_to_txns s) (key_norm k). u \<noteq> t \<and> u \<in> QueryOverlapping w (twcd_tree s))"
    for ks
    by (auto simp: filter_empty_conv key_conflicts_iff)
  moreover have "key_conflicts t (s\<lparr>total_checks := a, total_check_latency_us := b\<rparr>) = key_conflicts t s" for a b
    by (simp add: key_conflicts_def fun_eq_iff)
  ultimately show ?thesis
    by (auto simp: CheckConflict_def Let_def NoConflict_def ReadWriteConflict_def WriteWriteConflict_def
        DetectReadWriteConflicts_def DetectWriteWriteConflicts_def)
qed

lemma refines_query:
  assumes "refines s r" "r t = Some (v, K)" "tw_end v \<noteq> 0" "Overlaps v w"
  shows "t \<in> QueryOverlapping w (twcd_tree s)"
proof -
  have "mk_window (tw_start v) (tw_end v) = v" by simp
  with Query_complete [OF refinesD(1,3) [OF assms(1)] assms(3), OF assms(2)] assms(4)
  show ?thesis by (simp add: QueryOverlapping_def)
qed

text \<open>C22. The interval tree of the conflict detection engine never misses a registered bounded
  window: after any sequence of registrations, updates and removals, a transaction whose registered
  window has an end and overlaps the queried window is among the transactions found.\<close>

theorem twcd_query_complete:
  assumes "registry_run ops t = Some (v, K)" "tw_end v \<noteq> 0" "Overlaps v w"
  shows "t \<in> GetOverlappingTxns w (twcd_run ops)"
  using refines_query [OF refines_run assms] by (simp add: GetOverlappingTxns_def)

text \<open>C7. The engine is safe for bounded windows: after any sequence of operations, when the
  check of a transaction reports no conflict, no other transaction whose registered window is
  bounded and overlaps the checked window has announced a write of a key that is read or written
  by the transaction checked; and when it reports a conflict, some other active transaction has
  announced a write of such a key.\<close>

theorem twcd_check_correct:
  "(\<not> has_conflict (fst (CheckConflict t w rs ws lat (twcd_run ops))) \<longrightarrow>
      (\<forall>u v K. u \<noteq> t \<and> registry_run ops u = Some (v, K) \<and> tw_end v \<noteq> 0 \<and> Overlaps v w \<longrightarrow>
         \<not> wrote_some (registry_run ops) u (rs @ ws))) \<and>
   (has_conflict (fst (CheckConflict t w rs ws lat (twcd_run ops))) \<longrightarrow>
      (\<exists>u. u \<noteq> t \<and> wrote_some (registry_run ops) u (rs @ ws)))"
proof -
  note R = refines_run [of ops]
  have "\<forall>u v K. registry_run ops u = Some (v, K) \<and> tw_end v \<noteq> 0 \<and> Overlaps v w \<longrightarrow>
      u \<in> QueryOverlapping w (twcd_tree (twcd_run ops))"
    using refines_query [OF R] by blast
  then show ?thesis using refinesD(5) [OF R]
    by (auto simp: CheckConflict_has_conflict wrote_some_def list_ex_iff split: option.splits) fastforce+
qed

text \<open>Two transactions with overlapping windows, the first one writing the key that the second reads.\<close>

definition sample_ops :: "twcd_op list" where
  "sample_ops = [ORegister 1 (mk_window 10 20) 0, OWrites 1 [CedarKey_default],
     ORegister 2 (mk_window 15 30) 0]"

lemmas twcd_eval = sample_ops_def registry_run_def twcd_run_def kInvalidTxnID_def TwcdEngine_init_def
  RegisterWindow_def RegisterWriteSet_def UnregisterWindow_def UnregisterWriteSet_def Tree_Insert_def
  Tree_Remove_def IntervalTreeNode_new_def bump_max_def Overlaps_def IsEmpty_def GetOverlappingTxns_def
  QueryOverlapping_def

lemma twcd_query_complete_witness:
  "registry_run sample_ops 1 = Some (mk_window 10 20, {key_norm CedarKey_default}) \<and>
   1 \<in> GetOverlappingTxns (mk_window 15 30) (twcd_run sample_ops)"
proof
  show *: "registry_run sample_ops 1 = Some (mk_window 10 20, {key_norm CedarKey_default})"
    by (simp add: twcd_eval)
  show "1 \<in> GetOverlappingTxns (mk_window 15 30) (twcd_run sample_ops)"
    by (rule twcd_query_complete [OF *]) (simp_all add: Overlaps_def IsEmpty_def)
qed

lemma twcd_check_correct_witness:
  "has_conflict (fst (CheckConflict 2 (mk_window 15 30) [CedarKey_default] [] 3 (twcd_run sample_ops)))"
proof -
  have "registry_run sample_ops 1 = Some (mk_window 10 20, {key_norm CedarKey_default})"
    by (simp add: twcd_eval)
  moreover have "Overlaps (mk_window 10 20) (mk_window 15 30)" by (simp add: Overlaps_def IsEmpty_def)
  moreover from calculation(1) have "wrote_some (registry_run sample_ops) 1 ([CedarKey_default] @ [])"
    by (simp add: wrote_some_def)
  moreover have "(1::txn_id) \<noteq> 2" "tw_end (mk_window 10 20) \<noteq> 0" by simp_all
  ultimately show ?thesis
    using twcd_check_correct [of 2 "mk_window 15 30" "[CedarKey_default]" "[]" 3 sample_ops] by blast
qed

text \<open>An unbounded window is missed by the check: transactions 1 and 2 register the windows
  from 10 to 20 and from 5 without end, and transaction 2 announces a write. Its window overlaps
  the window from 100 to 200 of a transaction that reads the same key, yet no conflict is
  reported, because the end 0 of an unbounded window counts as the smallest end when the
  tree prunes its left subtree.\<close>

theorem twcd_misses_unbounded:
  "let ops = [ORegister 1 (mk_window 10 20) 0, ORegister 2 (mk_window 5 0) 0, OWrites 2 [k]];
       w = mk_window 100 200
   in Overlaps (mk_window 5 0) w \<and> wrote_some (registry_run ops) 2 [k] \<and>
      \<not> has_conflict (fst (CheckConflict 3 w [k] [] lat (twcd_run ops)))"
  by (simp add: twcd_eval wrote_some_def CheckConflict_has_conflict)

text \<open>Unregistering a transaction can leave its window behind: when an earlier registered
  window has the same start, the removal stops at the first node with that start and never reaches
  the node of the transaction removed, which the overlap query keeps returning.\<close>

theorem twcd_stale_window:
  "let ops = [ORegister 1 (mk_window 5 10) 0, ORegister 2 (mk_window 5 20) 0, OUnregister 2]
   in registry_run ops 2 = None \<and> GetOverlappingTxns (mk_window 15 30) (twcd_run ops) = {2} \<and>
      GetActiveWindowCount (twcd_run ops) = 1"
  by (simp add: twcd_eval GetActiveWindowCount_def)

end
