(* ===== verification/Txn_Context.thy ===== *)
theory Txn_Context
  imports Twcd_Engine "HOL-Library.Monad_Syntax"
begin

text \<open>
  Transaction contexts (\<open>src/include/cedar/dtx/txn_context.h\<close>,
  \<open>src/src/dtx/coordinator/txn_context.cc\<close>) with the identifiers, enumerations and routing hash
  of \<open>types.h\<close>. The enumerations have a fixed 8 bit representation and are read back from
  text without a range check, so they are kept as bytes with named values. Iteration of the
  participant set is the order of a duplicate-free list. Causal bookmarks and
  clock readings of the context are left out.
\<close>

type_synonym partition_id = u16
type_synonym node_id = u32
type_synonym subgraph_id = u32

definition kInvalidPartitionID :: partition_id where "kInvalidPartitionID = 0xFFFF"
definition kInvalidNodeID :: node_id where "kInvalidNodeID = 0xFFFFFFFF"
definition kInvalidSubgraphID :: subgraph_id where "kInvalidSubgraphID = 0xFFFFFFFF"

subsection \<open>Enumerations\<close>

type_synonym TxnType = u8

definition kSinglePartition :: TxnType where "kSinglePartition = 1"
definition kSameTemporalRange :: TxnType where "kSameTemporalRange = 2"
definition kCrossTemporalRange :: TxnType where "kCrossTemporalRange = 3"
definition kDeterministic :: TxnType where "kDeterministic = 4"

type_synonym DistributedTxnState = u8

definition kStarted :: DistributedTxnState where "kStarted = 0"
definition kPreparing :: DistributedTxnState where "kPreparing = 1"
definition kPrepared :: DistributedTxnState where "kPrepared = 2"
definition kCommitting :: DistributedTxnState where "kCommitting = 3"
definition kCommitted :: DistributedTxnState where "kCommitted = 4"
definition kAborting :: DistributedTxnState where "kAborting = 5"
definition kAborted :: DistributedTxnState where "kAborted = 6"

lemmas txn_enum_defs [cedar_defs] = kSinglePartition_def kSameTemporalRange_def kCrossTemporalRange_def
  kDeterministic_def kStarted_def kPreparing_def kPrepared_def kCommitting_def kCommitted_def
  kAborting_def kAborted_def

datatype ValidationResult = kValid | kInvalid | kNeedFullCheck | kTimeout

subsection \<open>Partition hash\<close>

text \<open>\<open>std::hash\<close> of an unsigned integer is the identity in the standard libraries the code is built
  with; it is a parameter here, as nothing in the language fixes it.\<close>

definition HashToPartition :: "(u64 \<Rightarrow> u64) \<Rightarrow> (u16 \<Rightarrow> u64) \<Rightarrow> cedar_key \<Rightarrow> partition_id \<Rightarrow> partition_id" where
  "HashToPartition hash64 hash16 key num_partitions =
    (if num_partitions = 0 then 0
     else
       (let h = hash64 (entity_id key);
            h' = xor h (hash16 (column_id key) + 0x9e3779b9 + push_bit 6 h + drop_bit 2 h)
        in ucast (h' mod ucast num_partitions)))"

definition KeyBelongsToPartition :: "cedar_key \<Rightarrow> partition_id \<Rightarrow> bool" where
  "KeyBelongsToPartition key pid \<longleftrightarrow> part_id key = pid"

subsection \<open>The context\<close>

record write_set_item =
  wsi_key :: cedar_key
  wsi_window :: temporal_window
  wsi_version :: u64

record read_set_item =
  rsi_key :: cedar_key
  rsi_window :: temporal_window
  rsi_read_version :: u64
  rsi_read_timestamp :: timestamp

record txn_context =
  ctx_txn_id :: txn_id
  ctx_start_ts :: u64
  ctx_commit_ts :: u64
  ctx_type :: TxnType
  ctx_state :: DistributedTxnState
  ctx_window :: temporal_window
  ctx_coordinator :: node_id
  ctx_participants :: "partition_id list"
  ctx_leaders :: "partition_id \<rightharpoonup> node_id"
  ctx_read_set :: "read_set_item list"
  ctx_write_set :: "write_set_item list"
  ctx_subgraphs :: "subgraph_id set"
  ctx_local_subgraph :: bool
  ctx_execution_time_ms :: u64
  ctx_coord_time_ms :: u64
  ctx_retry_count :: u32

definition TxnContext_default :: txn_context where
  "TxnContext_default = \<lparr>ctx_txn_id = kInvalidTxnID, ctx_start_ts = 0, ctx_commit_ts = 0,
     ctx_type = kSinglePartition, ctx_state = kStarted, ctx_window = TemporalWindow_default,
     ctx_coordinator = kInvalidNodeID, ctx_participants = [], ctx_leaders = Map.empty,
     ctx_read_set = [], ctx_write_set = [], ctx_subgraphs = {}, ctx_local_subgraph = False,
     ctx_execution_time_ms = 0, ctx_coord_time_ms = 0, ctx_retry_count = 0\<rparr>"

definition ExtendTemporalWindow :: "timestamp \<Rightarrow> txn_context \<Rightarrow> txn_context" where
  "ExtendTemporalWindow ts c = c\<lparr>ctx_window := Merge (ctx_window c) (TemporalWindow_point ts)\<rparr>"

definition AddParticipant :: "partition_id \<Rightarrow> txn_context \<Rightarrow> txn_context" where
  "AddParticipant pid c =
     (if pid \<in> set (ctx_participants c) then c
      else c\<lparr>ctx_participants := ctx_participants c @ [pid]\<rparr>)"

definition AddParticipants :: "partition_id list \<Rightarrow> txn_context \<Rightarrow> txn_context" where
  "AddParticipants pids c = fold AddParticipant pids c"

definition SetPartitionLeader :: "partition_id \<Rightarrow> node_id \<Rightarrow> txn_context \<Rightarrow> txn_context" where
  "SetPartitionLeader pid nid c = c\<lparr>ctx_leaders := (ctx_leaders c)(pid \<mapsto> nid)\<rparr>"

definition GetPartitionLeader :: "txn_context \<Rightarrow> partition_id \<Rightarrow> node_id" where
  "GetPartitionLeader c pid = (case ctx_leaders c pid of Some nid \<Rightarrow> nid | None \<Rightarrow> kInvalidNodeID)"

definition AddToReadSet :: "cedar_key \<Rightarrow> temporal_window \<Rightarrow> txn_context \<Rightarrow> txn_context" where
  "AddToReadSet key w c = c\<lparr>ctx_read_set := ctx_read_set c @
     [\<lparr>rsi_key = key, rsi_window = w, rsi_read_version = 0, rsi_read_timestamp = 0\<rparr>]\<rparr>"

definition AddToWriteSet :: "cedar_key \<Rightarrow> temporal_window \<Rightarrow> txn_context \<Rightarrow> txn_context" where
  "AddToWriteSet key w c = c\<lparr>ctx_write_set := ctx_write_set c @
     [\<lparr>wsi_key = key, wsi_window = w, wsi_version = 0\<rparr>]\<rparr>"

definition IsSinglePartition :: "txn_context \<Rightarrow> bool" where
  "IsSinglePartition c \<longleftrightarrow> length (ctx_participants c) = 1"

definition NeedsCoordination :: "txn_context \<Rightarrow> bool" where
  "NeedsCoordination c \<longleftrightarrow> 1 < length (ctx_participants c)"

definition MayConflictWith :: "txn_context \<Rightarrow> txn_context \<Rightarrow> bool" where
  "MayConflictWith c d =
     (if \<not> Overlaps (ctx_window c) (ctx_window d) then False
      else list_ex (\<lambda>pid. pid \<in> set (ctx_participants d)) (ctx_participants c))"

subsection \<open>Text form\<close>

definition Context_Serialize :: "txn_context \<Rightarrow> string" where
  "Context_Serialize c =
     to_string (ctx_txn_id c) @ '','' @ to_string (ctx_start_ts c) @ '','' @ to_string (ctx_commit_ts c) @ '','' @
     to_string_nat (unat (ctx_type c)) @ '','' @ to_string_nat (unat (ctx_state c)) @ '','' @
     to_string_nat (unat (ctx_coordinator c)) @
     '','' @ to_string (tw_start (ctx_window c)) @ '','' @ to_string (tw_end (ctx_window c)) @
     '','' @ to_string_nat (length (ctx_participants c)) @
     concat (map (\<lambda>pid. '','' @ to_string_nat (unat pid)) (ctx_participants c)) @
     '','' @ to_string_nat (length (ctx_read_set c)) @
     '','' @ to_string_nat (length (ctx_write_set c)) @
     '','' @ to_string (ctx_execution_time_ms c) @
     '','' @ to_string (ctx_coord_time_ms c) @
     '','' @ to_string_nat (unat (ctx_retry_count c))"

text \<open>\<open>std::stoi\<close>: \<open>None\<close> where it throws; \<open>std::stoul\<close> is \<open>stoull\<close> on 64 bit targets.\<close>

definition stoi :: "string \<Rightarrow> int option" where
  "stoi str =
    (let s = dropWhile is_space str;
         neg = (s \<noteq> [] \<and> hd s = CHR ''-'');
         s' = (if s \<noteq> [] \<and> (hd s = CHR ''-'' \<or> hd s = CHR ''+'') then tl s else s);
         ds = takeWhile is_digit s';
         v = (if neg then - int (digits_value ds) else int (digits_value ds))
     in if ds = [] then None
        else if v < - (2 ^ 31) \<or> 2 ^ 31 \<le> v then None
        else Some v)"

text \<open>One \<open>safe_getline\<close>: the next token up to a comma and the rest of the stream; \<open>None\<close> at the
  end of the stream or on an empty token.\<close>

definition safe_getline :: "string \<Rightarrow> (string \<times> string) option" where
  "safe_getline s =
     (let tok = takeWhile (\<lambda>c. c \<noteq> CHR '','') s
      in if tok = [] then None else Some (tok, drop (length tok + 1) s))"

definition read_field :: "(string \<Rightarrow> 'a option) \<Rightarrow> string \<Rightarrow> ('a \<times> string) option" where
  "read_field conv s = do { (tok, rest) \<leftarrow> safe_getline s; v \<leftarrow> conv tok; Some (v, rest) }"

fun read_participants :: "nat \<Rightarrow> txn_context \<Rightarrow> string \<Rightarrow> (txn_context \<times> string) option" where
  "read_participants 0 c s = Some (c, s)"
| "read_participants (Suc n) c s =
     do { (pid, rest) \<leftarrow> read_field stoull s; read_participants n (AddParticipant (ucast pid) c) rest }"

definition Context_Deserialize :: "string \<Rightarrow> txn_context option" where
  "Context_Deserialize s0 = do {
     (tid, s1) \<leftarrow> read_field stoull s0;
     (sts, s2) \<leftarrow> read_field stoull s1;
     (cts, s3) \<leftarrow> read_field stoull s2;
     (ty, s4) \<leftarrow> read_field stoi s3;
     (st, s5) \<leftarrow> read_field stoi s4;
     (node, s6) \<leftarrow> read_field stoull s5;
     (ws, s7) \<leftarrow> read_field stoull s6;
     (we, s8) \<leftarrow> read_field stoull s7;
     (cnt, s9) \<leftarrow> read_field stoull s8;
     (c, s10) \<leftarrow> read_participants (unat cnt) (TxnContext_default\<lparr>ctx_txn_id := tid, ctx_start_ts := sts,
         ctx_commit_ts := cts, ctx_type := word_of_int ty, ctx_state := word_of_int st,
         ctx_coordinator := ucast node, ctx_window := mk_window ws we\<rparr>) s9;
     (_, s11) \<leftarrow> safe_getline s10;
     (_, s12) \<leftarrow> safe_getline s11;
     (ex, s13) \<leftarrow> read_field stoull s12;
     (co, s14) \<leftarrow> read_field stoull s13;
     (re, _) \<leftarrow> read_field stoull s14;
     Some (c\<lparr>ctx_execution_time_ms := ex, ctx_coord_time_ms := co, ctx_retry_count := ucast re\<rparr>) }"

subsection \<open>The text form keeps what it writes\<close>

lemma to_string_nat_ne [simp]: "to_string_nat n \<noteq> []" "to_string w \<noteq> []"
  using to_string_nat_digits by (auto simp: to_string_def)

lemma digits_decompose:
  obtains c cs where "to_string_nat n = c # cs" "is_digit c"
  using to_string_nat_digits [of n] by (cases "to_string_nat n") auto

lemma stoull_to_string_nat: "n < 2 ^ 64 \<Longrightarrow> stoull (to_string_nat n) = Some (of_nat n)"
  using stoull_to_string [of "of_nat n"] by (simp add: to_string_def unat_of_nat)

lemma stoi_to_string_nat: "n < 2 ^ 31 \<Longrightarrow> stoi (to_string_nat n) = Some (int n)"
proof -
  assume n: "n < 2 ^ 31"
  obtain c cs where s: "to_string_nat n = c # cs" "is_digit c" by (rule digits_decompose)
  have tw: "takeWhile is_digit cs = cs"
    using to_string_nat_digits [of n] s(1) by (simp add: list_all_iff)
  show ?thesis
    using n is_digit_not [OF s(2)] digits_value_to_string [of n] s
    by (simp add: stoi_def Let_def tw)
qed

lemma takeWhile_digits:
  "takeWhile (\<lambda>c. c \<noteq> CHR '','') (to_string_nat n @ CHR '','' # rest) = to_string_nat n"
  "takeWhile (\<lambda>c. c \<noteq> CHR '','') (to_string_nat n) = to_string_nat n"
proof -
  have "\<forall>d \<in> set (to_string_nat n). d \<noteq> CHR '',''"
    using to_string_nat_digits [of n] by (auto simp: list_all_iff is_digit_def)
  then show "takeWhile (\<lambda>c. c \<noteq> CHR '','') (to_string_nat n @ CHR '','' # rest) = to_string_nat n"
    "takeWhile (\<lambda>c. c \<noteq> CHR '','') (to_string_nat n) = to_string_nat n"
    by (simp_all add: takeWhile_append)
qed

lemma safe_getline_digits [simp]:
  "safe_getline (to_string_nat n @ CHR '','' # rest) = Some (to_string_nat n, rest)"
  "safe_getline (to_string_nat n) = Some (to_string_nat n, [])"
  by (simp_all add: safe_getline_def Let_def takeWhile_digits)

lemma read_field_digits:
  "conv (to_string_nat n) = Some v \<Longrightarrow> read_field conv (to_string_nat n @ CHR '','' # rest) = Some (v, rest)"
  "conv (to_string_nat n) = Some v \<Longrightarrow> read_field conv (to_string_nat n) = Some (v, [])"
  by (simp_all add: read_field_def)

lemma unat_bounds:
  fixes w :: u64 and p :: u16 and q :: u32 and b :: u8
  shows "unat w < 2 ^ 64" "unat p < 2 ^ 16" "unat q < 2 ^ 32" "unat b < 2 ^ 8"
  using unsigned_less [of w] unsigned_less [of p] unsigned_less [of q] unsigned_less [of b] by simp_all

lemma ucast_up_down [simp]:
  fixes p :: u16 and q :: u32
  shows "ucast (ucast p :: u64) = p" "ucast (ucast q :: u64) = q"
  by (transfer; simp)+

lemma of_nat_unat_ucast:
  fixes p :: u16 and q :: u32
  shows "of_nat (unat p) = (ucast p :: u64)" "of_nat (unat q) = (ucast q :: u64)"
  by (transfer; simp)+

lemma read_field_word:
  fixes w :: u64 and p :: u16 and q :: u32
  shows "read_field stoull (to_string_nat (unat w) @ CHR '','' # rest) = Some (w, rest)"
    "read_field stoull (to_string_nat (unat p) @ CHR '','' # rest) = Some (ucast p, rest)"
    "read_field stoull (to_string_nat (unat q) @ CHR '','' # rest) = Some (ucast q, rest)"
    "read_field stoull (to_string_nat (unat q)) = Some (ucast q, [])"
  using unat_bounds(1) [of w] unat_bounds(2) [of p] unat_bounds(3) [of q]
  by (simp_all add: read_field_digits stoull_to_string_nat of_nat_unat_ucast)

lemma read_field_enum:
  fixes b :: u8
  shows "read_field stoi (to_string_nat (unat b) @ CHR '','' # rest) = Some (uint b, rest)"
proof -
  have "unat b < 2 ^ 31" by (rule less_trans [OF unat_bounds(4)]) simp
  from read_field_digits(1) [where conv = stoi, OF stoi_to_string_nat [OF this]] show ?thesis by simp
qed

lemma read_participants_digits:
  "distinct (ctx_participants c @ pids) \<Longrightarrow>
   read_participants (length pids) c
     (concat (map (\<lambda>pid. to_string_nat (unat pid) @ '','') pids) @ rest) =
   Some (c\<lparr>ctx_participants := ctx_participants c @ pids\<rparr>, rest)"
proof (induction pids arbitrary: c)
  case (Cons p pids)
  then show ?case
    using Cons.IH [of "c\<lparr>ctx_participants := ctx_participants c @ [p]\<rparr>"]
    by (simp add: read_field_word AddParticipant_def)
qed simp

text \<open>The separators written before each participant are those read after each token.\<close>

lemma shift_commas:
  "xs @ concat (map (\<lambda>p. '','' @ f p) ps) @ '','' @ rest = xs @ '','' @ concat (map (\<lambda>p. f p @ '','') ps) @ rest"
  by (induction ps arbitrary: xs rest) simp_all

lemma distinct_u16_length: "distinct (ps :: u16 list) \<Longrightarrow> length ps < 2 ^ 64"
proof -
  assume "distinct ps"
  then have "length ps = card (set ps)" by (simp add: distinct_card)
  also have "\<dots> \<le> CARD(u16)" by (rule card_mono) simp_all
  also have "\<dots> = 2 ^ 16" by (simp add: card_word)
  finally show ?thesis by simp
qed

text \<open>C32. Reading back the text form of a transaction context restores every field the text holds:
  identity, timestamps, type, state, coordinator, window, participants and counters, whatever
  their values; the read and write sets, the leaders and the subgraphs come back empty.\<close>

theorem context_text_roundtrip:
  assumes "distinct (ctx_participants c)"
  shows "Context_Deserialize (Context_Serialize c) =
    Some (c\<lparr>ctx_leaders := Map.empty, ctx_read_set := [], ctx_write_set := [], ctx_subgraphs := {},
            ctx_local_subgraph := False\<rparr>)"
proof -
  have len: "length (ctx_participants c) < 2 ^ 64" by (rule distinct_u16_length [OF assms])
  let ?n = "to_string_nat (length (ctx_participants c))"
  show ?thesis
    using assms len read_participants_digits [of TxnContext_default]
    unfolding Context_Serialize_def
    by (subst shift_commas [of ?n], simp add: Context_Deserialize_def to_string_def read_field_word read_field_enum read_field_digits stoull_to_string_nat
        unat_of_nat read_participants_digits TxnContext_default_def)
qed

lemma context_text_roundtrip_witness:
  "let c = AddParticipants [7, 3, 7] (TxnContext_default\<lparr>ctx_txn_id := 42, ctx_state := 9\<rparr>)
   in Context_Deserialize (Context_Serialize c) = Some c"
proof -
  let ?c = "AddParticipants [7, 3, 7] (TxnContext_default\<lparr>ctx_txn_id := 42, ctx_state := 9\<rparr>)"
  have "distinct (ctx_participants ?c)"
    by (simp add: AddParticipants_def AddParticipant_def TxnContext_default_def)
  from context_text_roundtrip [OF this] show ?thesis
    by (simp add: AddParticipants_def AddParticipant_def TxnContext_default_def)
qed

end
