(* ===== verification/Version_Chain.thy ===== *)
theory Version_Chain
  imports Txn_Context "HOL-Library.AList"
begin

text \<open>
  Version chains and distributed validation (\<open>src/include/cedar/dtx/version_chain.h\<close>,
  \<open>src/src/dtx/protocol/version_chain.cc\<close>). A chain is the list of its nodes from the latest to
  the oldest. The index is an association list in the iteration order of the hash map, with keys
  normalised as in the conflict detection engine. Each call is one atomic step; the reader count is
  kept because garbage collection tests it. Reference counts and WAL offsets, which no operation of the
  index reads, are left out.
\<close>

subsection \<open>Chains\<close>

record version_node =
  vn_txn_id :: u64
  vn_commit_ts :: timestamp
  vn_version :: u64
  vn_data_size :: u32
  vn_visible :: bool

record version_head =
  vh_chain :: "version_node list"
  vh_reader_count :: u64
  vh_chain_length :: u32

definition VersionChainNode_new :: "u64 \<Rightarrow> timestamp \<Rightarrow> u64 \<Rightarrow> version_node" where
  "VersionChainNode_new tid ts ver =
     \<lparr>vn_txn_id = tid, vn_commit_ts = ts, vn_version = ver, vn_data_size = 0, vn_visible = False\<rparr>"

definition VersionChainHead_new :: version_head where
  "VersionChainHead_new = \<lparr>vh_chain = [], vh_reader_count = 0, vh_chain_length = 0\<rparr>"

definition GetLatestVisible :: "version_head \<Rightarrow> version_node option" where
  "GetLatestVisible h = find vn_visible (vh_chain h)"

definition GetVersion :: "u64 \<Rightarrow> version_head \<Rightarrow> version_node option" where
  "GetVersion target h = find (\<lambda>n. vn_version n = target \<and> vn_visible n) (vh_chain h)"

definition InsertVersion :: "version_node \<Rightarrow> version_head \<Rightarrow> version_head" where
  "InsertVersion n h = h\<lparr>vh_chain := n # vh_chain h, vh_chain_length := vh_chain_length h + 1\<rparr>"

subsection \<open>Index\<close>

record version_index =
  vi_index :: "(cedar_key \<times> version_head) list"
  vi_gc_versions_removed :: u64
  vi_gc_bytes_freed :: u64

definition VersionChainIndex_init :: version_index where
  "VersionChainIndex_init = \<lparr>vi_index = [], vi_gc_versions_removed = 0, vi_gc_bytes_freed = 0\<rparr>"

definition GetHead :: "cedar_key \<Rightarrow> version_index \<Rightarrow> version_head option" where
  "GetHead key ix = map_of (vi_index ix) (key_norm key)"

definition GetOrCreateHead :: "cedar_key \<Rightarrow> version_index \<Rightarrow> version_index" where
  "GetOrCreateHead key ix =
     (case GetHead key ix of
        Some _ \<Rightarrow> ix
      | None \<Rightarrow> ix\<lparr>vi_index := vi_index ix @ [(key_norm key, VersionChainHead_new)]\<rparr>)"

definition ReadVersion :: "cedar_key \<Rightarrow> u64 \<Rightarrow> version_index \<Rightarrow> Status \<times> version_node option" where
  "ReadVersion key version ix =
     (case GetHead key ix of
        None \<Rightarrow> (NotFound, None)
      | Some h \<Rightarrow> (case GetVersion version h of None \<Rightarrow> (NotFound, None) | Some n \<Rightarrow> (OK, Some n)))"

definition ReadLatestVisible :: "cedar_key \<Rightarrow> version_index \<Rightarrow> Status \<times> version_node option" where
  "ReadLatestVisible key ix =
     (case GetHead key ix of
        None \<Rightarrow> (NotFound, None)
      | Some h \<Rightarrow> (case GetLatestVisible h of None \<Rightarrow> (NotFound, None) | Some n \<Rightarrow> (OK, Some n)))"

definition update_head :: "cedar_key \<Rightarrow> (version_head \<Rightarrow> version_head) \<Rightarrow> version_index \<Rightarrow> version_index" where
  "update_head key f ix =
     ix\<lparr>vi_index := map (\<lambda>(k, h). if k = key_norm key then (k, f h) else (k, h)) (vi_index ix)\<rparr>"

text \<open>The node is inserted hidden and then marked visible through the pointer kept by the call.\<close>

definition mark_visible :: "version_head \<Rightarrow> version_head" where
  "mark_visible h =
     (case vh_chain h of [] \<Rightarrow> h | n # ns \<Rightarrow> h\<lparr>vh_chain := n\<lparr>vn_visible := True\<rparr> # ns\<rparr>)"

definition CommitVersion :: "cedar_key \<Rightarrow> u64 \<Rightarrow> timestamp \<Rightarrow> u64 \<Rightarrow> version_index \<Rightarrow> Status \<times> version_index" where
  "CommitVersion key tid commit_ts version ix =
     (OK, update_head key (mark_visible \<circ> InsertVersion (VersionChainNode_new tid commit_ts version))
            (GetOrCreateHead key ix))"

definition ValidateWithHead :: "version_head \<Rightarrow> u64 \<Rightarrow> timestamp \<Rightarrow> ValidationResult" where
  "ValidateWithHead h read_version commit_ts =
     (case vh_chain h of
        [] \<Rightarrow> kValid
      | latest # _ \<Rightarrow>
          if vn_version latest = read_version \<and> vn_visible latest then kValid
          else if commit_ts < vn_commit_ts latest then kNeedFullCheck
          else if vn_visible latest \<and> vn_version latest \<noteq> read_version then kInvalid
          else kNeedFullCheck)"

definition FastValidate :: "cedar_key \<Rightarrow> u64 \<Rightarrow> timestamp \<Rightarrow> version_index \<Rightarrow> ValidationResult" where
  "FastValidate key read_version commit_ts ix =
     (case GetHead key ix of None \<Rightarrow> kValid | Some h \<Rightarrow> ValidateWithHead h read_version commit_ts)"

fun full_validate_walk :: "version_node list \<Rightarrow> u64 \<Rightarrow> timestamp \<Rightarrow> ValidationResult" where
  "full_validate_walk [] read_version commit_ts = kInvalid"
| "full_validate_walk (n # ns) read_version commit_ts =
     (if vn_version n = read_version then kValid
      else if commit_ts < vn_commit_ts n \<and> vn_visible n then kInvalid
      else full_validate_walk ns read_version commit_ts)"

definition FullValidate :: "cedar_key \<Rightarrow> u64 \<Rightarrow> timestamp \<Rightarrow> version_index \<Rightarrow> ValidationResult" where
  "FullValidate key read_version commit_ts ix =
     (case GetHead key ix of
        None \<Rightarrow> kValid
      | Some h \<Rightarrow>
          (let result = ValidateWithHead h read_version commit_ts
           in if result \<noteq> kNeedFullCheck then result
              else full_validate_walk (vh_chain h) read_version commit_ts))"

definition BatchValidate ::
  "(cedar_key \<times> u64) list \<Rightarrow> timestamp \<Rightarrow> version_index \<Rightarrow> (cedar_key \<times> ValidationResult) list" where
  "BatchValidate read_set commit_ts ix =
     map (\<lambda>(key, version).
        (let result = FastValidate key version commit_ts ix
         in (key, if result = kNeedFullCheck then FullValidate key version commit_ts ix else result))) read_set"

definition GetKeyCount :: "version_index \<Rightarrow> nat" where
  "GetKeyCount ix = length (vi_index ix)"

definition GetTotalVersionCount :: "version_index \<Rightarrow> u64" where
  "GetTotalVersionCount ix = fold (\<lambda>(_, h) total. total + ucast (vh_chain_length h)) (vi_index ix) 0"

subsection \<open>Garbage collection\<close>

text \<open>\<open>sizeof(VersionChainNode)\<close> on a 64 bit target.\<close>

definition sizeof_VersionChainNode :: u64 where
  "sizeof_VersionChainNode = 56"

definition gc_can_delete :: "timestamp \<Rightarrow> version_node \<Rightarrow> bool" where
  "gc_can_delete safe_ts n \<longleftrightarrow> vn_visible n \<and> vn_commit_ts n < safe_ts"

text \<open>The walk over a chain: the remaining nodes, and the removed count, the freed bytes and the
  chain length carried along; \<open>has_prev\<close> is \<open>prev != nullptr\<close>.\<close>

fun gc_walk :: "timestamp \<Rightarrow> bool \<Rightarrow> version_node list \<Rightarrow> u64 \<times> u64 \<times> u32 \<Rightarrow>
    version_node list \<times> u64 \<times> u64 \<times> u32" where
  "gc_walk safe_ts has_prev [] (removed, freed, len) = ([], removed, freed, len)"
| "gc_walk safe_ts has_prev (n # ns) (removed, freed, len) =
     (if gc_can_delete safe_ts n \<and> has_prev then
        gc_walk safe_ts has_prev ns
          (removed + 1, freed + (sizeof_VersionChainNode + ucast (vn_data_size n)), len - 1)
      else
        (let (rest, counters) = gc_walk safe_ts True ns (removed, freed, len) in (n # rest, counters)))"

fun gc_chains :: "timestamp \<Rightarrow> (cedar_key \<times> version_head) list \<Rightarrow> u64 \<Rightarrow> u64 \<Rightarrow>
    (cedar_key \<times> version_head) list \<times> u64 \<times> u64" where
  "gc_chains safe_ts [] removed freed = ([], removed, freed)"
| "gc_chains safe_ts ((k, h) # hs) removed freed =
     (if 0 < vh_reader_count h then
        (let (hs', counters) = gc_chains safe_ts hs removed freed in ((k, h) # hs', counters))
      else
        (let (chain, removed', freed', len) = gc_walk safe_ts False (vh_chain h) (removed, freed, vh_chain_length h);
             (hs', counters) = gc_chains safe_ts hs removed' freed'
         in ((k, h\<lparr>vh_chain := chain, vh_chain_length := len\<rparr>) # hs', counters)))"

definition RunGC :: "timestamp \<Rightarrow> version_index \<Rightarrow> version_index" where
  "RunGC safe_ts ix =
     (let (hs, removed, freed) = gc_chains safe_ts (vi_index ix) (vi_gc_versions_removed ix) (vi_gc_bytes_freed ix)
      in ix\<lparr>vi_index := hs, vi_gc_versions_removed := removed, vi_gc_bytes_freed := freed\<rparr>)"

subsection \<open>Views across shards\<close>

record version_info =
  vinfo_key :: cedar_key
  vinfo_version :: u64
  vinfo_commit_ts :: timestamp
  vinfo_visible :: bool

type_synonym shard_views = "(partition_id \<times> version_info list) list"

definition AddShardView :: "partition_id \<Rightarrow> version_info list \<Rightarrow> shard_views \<Rightarrow> shard_views" where
  "AddShardView pid versions views = AList.update pid versions views"

definition GlobalValidate :: "(cedar_key \<times> u64) list \<Rightarrow> shard_views \<Rightarrow> bool" where
  "GlobalValidate read_set views =
     list_all (\<lambda>(key, read_version).
       list_ex (\<lambda>(_, versions). list_ex (\<lambda>info. key_norm (vinfo_key info) = key_norm key \<and>
         vinfo_version info = read_version \<and> vinfo_visible info) versions) views) read_set"

definition ComputeGlobalSafeTimestamp :: "shard_views \<Rightarrow> timestamp" where
  "ComputeGlobalSafeTimestamp views =
     fold (\<lambda>(_, versions) m. fold (\<lambda>info m. if vinfo_visible info \<and> vinfo_commit_ts info < m
        then vinfo_commit_ts info else m) versions m) views u64_max"

subsection \<open>Distributed validation\<close>

definition HandleValidationRequest ::
  "version_index option \<Rightarrow> (cedar_key \<times> u64) list \<Rightarrow> timestamp \<Rightarrow> ValidationResult" where
  "HandleValidationRequest index read_set commit_ts =
     (case index of
        None \<Rightarrow> kValid
      | Some ix \<Rightarrow>
          (case find (\<lambda>(_, result). result \<noteq> kValid) (BatchValidate read_set commit_ts ix) of
             Some (_, result) \<Rightarrow> result
           | None \<Rightarrow> kValid))"

definition ValidatePartition ::
  "(partition_id \<rightharpoonup> version_index) \<Rightarrow> txn_context \<Rightarrow> partition_id \<Rightarrow> ValidationResult" where
  "ValidatePartition indices c pid =
     (if GetPartitionLeader c pid = kInvalidNodeID then kTimeout
      else if list_ex (\<lambda>item. part_id (rsi_key item) = pid \<and> ctx_commit_ts c < rsi_read_timestamp item)
                (ctx_read_set c) then kInvalid
      else case indices pid of
             Some ix \<Rightarrow> HandleValidationRequest (Some ix)
                 (map (\<lambda>item. (rsi_key item, rsi_read_version item))
                   (filter (\<lambda>item. part_id (rsi_key item) = pid) (ctx_read_set c))) (ctx_commit_ts c)
           | None \<Rightarrow> kInvalid)"

definition CoordinateValidation :: "(partition_id \<rightharpoonup> version_index) \<Rightarrow> txn_context \<Rightarrow> ValidationResult" where
  "CoordinateValidation indices c =
     (let results = map (ValidatePartition indices c) (ctx_participants c)
      in if ctx_participants c = [] then kValid
         else if kInvalid \<in> set results then kInvalid
         else if kTimeout \<in> set results then kTimeout
         else kValid)"

subsection \<open>Interface: a store that validates read versions\<close>

datatype ('k, 'm, 'g) store_op = StoreCommit 'k 'm | StoreGC 'g

fun store_step :: "('k \<Rightarrow> 'm \<Rightarrow> 's \<Rightarrow> 's) \<Rightarrow> ('g \<Rightarrow> 's \<Rightarrow> 's) \<Rightarrow> ('k, 'm, 'g) store_op \<Rightarrow> 's \<Rightarrow> 's" where
  "store_step commit collect (StoreCommit k m) s = commit k m s"
| "store_step commit collect (StoreGC g) s = collect g s"

text \<open>The version of the last commit to a key, keys identified by \<open>nrm\<close>.\<close>

fun last_version :: "('k \<Rightarrow> 'n) \<Rightarrow> ('m \<Rightarrow> 'v) \<Rightarrow> 'k \<Rightarrow> ('k, 'm, 'g) store_op list \<Rightarrow> 'v option" where
  "last_version nrm ver k [] = None"
| "last_version nrm ver k (StoreCommit k' m # ops) =
     (case last_version nrm ver k ops of
        Some v \<Rightarrow> Some v
      | None \<Rightarrow> if nrm k' = nrm k then Some (ver m) else None)"
| "last_version nrm ver k (StoreGC g # ops) = last_version nrm ver k ops"

locale version_store =
  fixes init :: 's
    and commit :: "'k \<Rightarrow> 'm \<Rightarrow> 's \<Rightarrow> 's"
    and collect :: "'g \<Rightarrow> 's \<Rightarrow> 's"
    and current :: "'k \<Rightarrow> 'v \<Rightarrow> 's \<Rightarrow> bool"
    and ver :: "'m \<Rightarrow> 'v"
    and nrm :: "'k \<Rightarrow> 'n"
    and inv :: "'s \<Rightarrow> bool"
  assumes inv_init: "inv init"
    and inv_commit: "inv s \<Longrightarrow> inv (commit k m s)"
    and inv_collect: "inv s \<Longrightarrow> inv (collect g s)"
    and current_init: "current k v init"
    and current_commit: "inv s \<Longrightarrow> current k v (commit k' m s) \<longleftrightarrow>
          (if nrm k' = nrm k then v = ver m else current k v s)"
    and current_collect: "inv s \<Longrightarrow> current k v (collect g s) \<longleftrightarrow> current k v s"
begin

abbreviation step :: "('k, 'm, 'g) store_op \<Rightarrow> 's \<Rightarrow> 's" where
  "step \<equiv> store_step commit collect"

lemma inv_step: "inv s \<Longrightarrow> inv (step op s)"
  by (cases op) (simp_all add: inv_commit inv_collect)

lemma inv_run: "inv (fold step ops init)"
proof -
  have "inv s \<Longrightarrow> inv (fold step ops s)" for s
    by (induction ops arbitrary: s) (simp_all add: inv_step)
  then show ?thesis by (simp add: inv_init)
qed

lemma current_fold:
  "inv s \<Longrightarrow> current k v (fold step ops s) \<longleftrightarrow>
     (case last_version nrm ver k ops of Some v' \<Rightarrow> v = v' | None \<Rightarrow> current k v s)"
proof (induction ops arbitrary: s)
  case (Cons op ops)
  then show ?case
    by (cases op) (auto simp: inv_commit inv_collect current_commit current_collect split: option.splits)
qed simp

lemma current_run:
  "current k v (fold step ops init) \<longleftrightarrow>
     (case last_version nrm ver k ops of Some v' \<Rightarrow> v = v' | None \<Rightarrow> True)"
  using current_fold [OF inv_init] by (simp add: current_init split: option.split)

end

subsection \<open>Chains written by commits\<close>

definition head_ok :: "version_head \<Rightarrow> bool" where
  "head_ok h \<longleftrightarrow> vh_chain h \<noteq> [] \<and> list_all vn_visible (vh_chain h) \<and> vh_reader_count h = 0 \<and>
     vh_chain_length h = of_nat (length (vh_chain h))"

definition index_ok :: "version_index \<Rightarrow> bool" where
  "index_ok ix \<longleftrightarrow> distinct (map fst (vi_index ix)) \<and> list_all (\<lambda>(_, h). head_ok h) (vi_index ix)"

text \<open>What the garbage collector should keep of a chain: its first version, and of the others those that are hidden or were
  committed at the safe timestamp or later.\<close>

definition gc_keep :: "timestamp \<Rightarrow> version_node list \<Rightarrow> version_node list" where
  "gc_keep safe_ts ns = take 1 ns @ filter (\<lambda>m. if vn_visible m then safe_ts \<le> vn_commit_ts m else True) (drop 1 ns)"

lemma gc_keep_simps: "gc_keep ts [] = []" "gc_keep ts (n # ns) = n # filter (\<lambda>m. \<not> gc_can_delete ts m) ns"
proof -
  have "(\<lambda>m. if vn_visible m then ts \<le> vn_commit_ts m else True) = (\<lambda>m. \<not> gc_can_delete ts m)"
    by (auto simp: gc_can_delete_def fun_eq_iff)
  then show "gc_keep ts [] = []" "gc_keep ts (n # ns) = n # filter (\<lambda>m. \<not> gc_can_delete ts m) ns"
    unfolding gc_keep_def by simp_all
qed

definition gc_head :: "timestamp \<Rightarrow> version_head \<Rightarrow> version_head" where
  "gc_head safe_ts h = (if 0 < vh_reader_count h then h
     else h\<lparr>vh_chain := gc_keep safe_ts (vh_chain h),
            vh_chain_length := vh_chain_length h -
              of_nat (length (vh_chain h) - length (gc_keep safe_ts (vh_chain h)))\<rparr>)"

lemma gc_walk_prev:
  "gc_walk ts True ns (r, f, l) =
     (let kept = filter (\<lambda>m. \<not> gc_can_delete ts m) ns; gone = filter (gc_can_delete ts) ns
      in (kept, r + of_nat (length gone),
          f + sum_list (map (\<lambda>m. sizeof_VersionChainNode + ucast (vn_data_size m)) gone),
          l - of_nat (length gone)))"
  by (induction ns arbitrary: r f l) (simp_all add: Let_def algebra_simps)

lemma gc_walk_chain:
  "fst (gc_walk ts False ns (r, f, l)) = gc_keep ts ns"
  "snd (snd (snd (gc_walk ts False ns (r, f, l)))) = l - of_nat (length ns - length (gc_keep ts ns))"
  "fst (snd (gc_walk ts False ns (r, f, l))) = r + of_nat (length ns - length (gc_keep ts ns))"
proof -
  have "length ns' - length (filter (\<lambda>m. \<not> gc_can_delete ts m) ns') = length (filter (gc_can_delete ts) ns')" for ns'
    using sum_length_filter_compl [of "gc_can_delete ts" ns'] by simp
  then show "fst (gc_walk ts False ns (r, f, l)) = gc_keep ts ns"
    "snd (snd (snd (gc_walk ts False ns (r, f, l)))) = l - of_nat (length ns - length (gc_keep ts ns))"
    "fst (snd (gc_walk ts False ns (r, f, l))) = r + of_nat (length ns - length (gc_keep ts ns))"
    by (cases ns; simp add: gc_walk_prev gc_keep_simps Let_def split_beta)+
qed

lemma gc_chains_heads: "fst (gc_chains ts hs r f) = map (\<lambda>(k, h). (k, gc_head ts h)) hs"
proof (induction hs arbitrary: r f)
  case (Cons kh hs)
  obtain k h where kh: "kh = (k, h)" by force
  show ?case
    using Cons gc_walk_chain(1,2) [of ts "vh_chain h" r f "vh_chain_length h"]
    by (auto simp: kh gc_head_def Let_def split_beta)
qed simp

lemma map_of_map_heads:
  "map_of (map (\<lambda>(k, h). (k, g k h)) hs) k = map_option (g k) (map_of hs k)"
  by (induction hs) auto

lemma GetHead_RunGC: "GetHead k (RunGC ts ix) = map_option (gc_head ts) (GetHead k ix)"
  using gc_chains_heads [of ts "vi_index ix"]
  by (simp add: RunGC_def GetHead_def split_beta Let_def map_of_map_heads)

lemma map_of_update_head:
  "map_of (map (\<lambda>(k', h). if k' = c then (k', f h) else (k', h)) hs) k =
     (if k = c then map_option f (map_of hs k) else map_of hs k)"
  by (induction hs) auto

lemma GetHead_update_head:
  "GetHead k' (update_head k f ix) =
     (if key_norm k' = key_norm k then map_option f (GetHead k' ix) else GetHead k' ix)"
  by (simp add: GetHead_def update_head_def map_of_update_head)

lemma GetHead_create:
  "GetHead k' (GetOrCreateHead k ix) =
     (if key_norm k' = key_norm k \<and> GetHead k ix = None then Some VersionChainHead_new else GetHead k' ix)"
  by (auto simp: GetOrCreateHead_def GetHead_def map_add_def split: option.splits)

lemma GetHead_commit:
  "GetHead k' (snd (CommitVersion k tid ts v ix)) =
     (if key_norm k' = key_norm k then
        Some (mark_visible (InsertVersion (VersionChainNode_new tid ts v)
                (case GetHead k ix of Some h \<Rightarrow> h | None \<Rightarrow> VersionChainHead_new)))
      else GetHead k' ix)"
proof -
  have "key_norm k' = key_norm k \<Longrightarrow> GetHead k' ix = GetHead k ix" by (simp add: GetHead_def)
  then show ?thesis by (auto simp: CommitVersion_def GetHead_update_head GetHead_create split: option.split)
qed

lemma head_ok_commit:
  "head_ok h \<or> h = VersionChainHead_new \<Longrightarrow>
   head_ok (mark_visible (InsertVersion (VersionChainNode_new tid ts v) h))"
  by (auto simp: head_ok_def mark_visible_def InsertVersion_def VersionChainNode_new_def VersionChainHead_new_def)

lemma head_ok_gc: "head_ok h \<Longrightarrow> head_ok (gc_head ts h)"
proof -
  assume h: "head_ok h"
  then obtain n ns where c: "vh_chain h = n # ns" by (cases "vh_chain h") (auto simp: head_ok_def)
  let ?kept = "filter (\<lambda>m. \<not> gc_can_delete ts m) ns"
  have "length ?kept \<le> length ns" by simp
  then have "of_nat (length ns) - of_nat (length ns - length ?kept) = (of_nat (length ?kept) :: u32)"
    by (simp add: of_nat_diff)
  then show ?thesis using h c by (auto simp: head_ok_def gc_head_def gc_keep_simps list_all_iff algebra_simps)
qed

lemma fst_map_heads [simp]:
  "fst \<circ> (\<lambda>(k, h). (k, g h)) = fst"
  "fst \<circ> (\<lambda>(k', h). if k' = c then (k', f h) else (k', h)) = fst"
  by auto

lemma GetHead_ok: "index_ok ix \<Longrightarrow> GetHead k ix = Some h \<Longrightarrow> head_ok h"
  by (auto simp: index_ok_def GetHead_def list_all_iff dest!: map_of_SomeD)

lemma index_ok_gc: "index_ok ix \<Longrightarrow> index_ok (RunGC ts ix)"
proof -
  have "vi_index (RunGC ts ix) = map (\<lambda>(k, h). (k, gc_head ts h)) (vi_index ix)"
    using gc_chains_heads [of ts "vi_index ix"] by (simp add: RunGC_def split_beta Let_def)
  moreover assume "index_ok ix"
  ultimately show ?thesis by (auto simp: index_ok_def list_all_iff head_ok_gc)
qed

lemma index_ok_commit: "index_ok ix \<Longrightarrow> index_ok (snd (CommitVersion k tid ts v ix))"
proof -
  let ?f = "mark_visible \<circ> InsertVersion (VersionChainNode_new tid ts v)"
  assume ok: "index_ok ix"
  let ?jx = "GetOrCreateHead k ix"
  have dist: "distinct (map fst (vi_index ?jx))"
    using ok by (auto simp: GetOrCreateHead_def GetHead_def index_ok_def map_of_eq_None_iff split: option.split)
  have "head_ok h \<or> (k' = key_norm k \<and> h = VersionChainHead_new)" if "(k', h) \<in> set (vi_index ?jx)" for k' h
    using that ok by (auto simp: GetOrCreateHead_def index_ok_def list_all_iff split: option.splits)
  then have "head_ok (snd ((\<lambda>(k', h). if k' = key_norm k then (k', ?f h) else (k', h)) y))"
    if "y \<in> set (vi_index ?jx)" for y
    using that by (cases y) (auto intro!: head_ok_commit)
  then show ?thesis
    using dist by (force simp: CommitVersion_def update_head_def index_ok_def list_all_iff)
qed

text \<open>On such chains validation accepts exactly the latest version.\<close>

definition validates :: "timestamp \<Rightarrow> cedar_key \<Rightarrow> u64 \<Rightarrow> version_index \<Rightarrow> bool" where
  "validates commit_ts k v ix \<longleftrightarrow> BatchValidate [(k, v)] commit_ts ix = [(k, kValid)]"

lemma BatchValidate_ok:
  assumes "index_ok ix"
  shows "BatchValidate [(k, v)] ts ix =
    [(k, case GetHead k ix of None \<Rightarrow> kValid
         | Some h \<Rightarrow> if vn_version (hd (vh_chain h)) = v then kValid else kInvalid)]"
proof (cases "GetHead k ix")
  case None
  then show ?thesis by (simp add: BatchValidate_def FastValidate_def)
next
  case (Some h)
  with GetHead_ok [OF assms] have "head_ok h" by blast
  then obtain n ns where "vh_chain h = n # ns" "vn_visible n" by (cases "vh_chain h") (auto simp: head_ok_def)
  then show ?thesis
    using Some by (auto simp: BatchValidate_def FastValidate_def FullValidate_def ValidateWithHead_def Let_def)
qed

lemma hd_gc_head: "head_ok h \<Longrightarrow> hd (vh_chain (gc_head ts h)) = hd (vh_chain h)"
  by (cases "vh_chain h") (auto simp: head_ok_def gc_head_def gc_keep_simps)

lemma validates_ok:
  "index_ok ix \<Longrightarrow> validates ts k v ix \<longleftrightarrow>
     (case GetHead k ix of None \<Rightarrow> True | Some h \<Rightarrow> vn_version (hd (vh_chain h)) = v)"
  by (simp add: validates_def BatchValidate_ok split: option.split)

fun commit_step :: "cedar_key \<Rightarrow> u64 \<times> timestamp \<times> u64 \<Rightarrow> version_index \<Rightarrow> version_index" where
  "commit_step k (tid, ts, v) ix = snd (CommitVersion k tid ts v ix)"

lemma validates_gc: "index_ok ix \<Longrightarrow> validates cts k v (RunGC ts ix) = validates cts k v ix"
  using GetHead_ok [of ix k]
  by (auto simp: validates_ok index_ok_gc GetHead_RunGC hd_gc_head split: option.split)

lemma validates_commit:
  "index_ok ix \<Longrightarrow> validates cts k v (commit_step k' m ix) =
     (if key_norm k' = key_norm k then v = snd (snd m) else validates cts k v ix)"
  by (cases m) (auto simp: validates_ok index_ok_commit GetHead_commit mark_visible_def
        InsertVersion_def VersionChainNode_new_def split: option.splits list.splits)

lemma chain_init: "index_ok VersionChainIndex_init" "validates cts k v VersionChainIndex_init"
  by (simp_all add: index_ok_def VersionChainIndex_init_def validates_def BatchValidate_def FastValidate_def GetHead_def)

lemma index_ok_commit_step: "index_ok ix \<Longrightarrow> index_ok (commit_step k m ix)"
  by (cases m) (simp add: index_ok_commit)

interpretation chain_store: version_store VersionChainIndex_init commit_step RunGC "validates cts"
    "\<lambda>m. snd (snd m)" key_norm index_ok
  for cts
  by unfold_locales (simp_all add: chain_init index_ok_commit_step index_ok_gc validates_gc validates_commit)

definition chain_run :: "(cedar_key, u64 \<times> timestamp \<times> u64, timestamp) store_op list \<Rightarrow> version_index" where
  "chain_run ops = fold (store_step commit_step RunGC) ops VersionChainIndex_init"

definition latest_committed :: "cedar_key \<Rightarrow> (cedar_key, u64 \<times> timestamp \<times> u64, timestamp) store_op list \<Rightarrow> u64 option" where
  "latest_committed k ops = last_version key_norm (\<lambda>m. snd (snd m)) k ops"

lemma BatchValidate_run:
  "BatchValidate [(k, v)] cts (chain_run ops) =
     [(k, case latest_committed k ops of None \<Rightarrow> kValid | Some v' \<Rightarrow> if v = v' then kValid else kInvalid)]"
proof -
  have ok: "index_ok (chain_run ops)" using chain_store.inv_run by (simp add: chain_run_def)
  have "validates cts k v (chain_run ops) \<longleftrightarrow> (case latest_committed k ops of None \<Rightarrow> True | Some v' \<Rightarrow> v = v')"
    using chain_store.current_run [of cts k v ops] by (simp add: chain_run_def latest_committed_def split: option.splits)
  then show ?thesis
    using BatchValidate_ok [OF ok, of k v cts] by (auto simp: validates_def split: option.splits if_splits)
qed

lemma BatchValidate_run_map:
  "BatchValidate rs cts (chain_run ops) =
     map (\<lambda>(k, v). (k, case latest_committed k ops of
        None \<Rightarrow> kValid | Some v' \<Rightarrow> if v = v' then kValid else kInvalid)) rs"
proof (induction rs)
  case (Cons r rs)
  obtain k v where r: "r = (k, v)" by force
  have "BatchValidate (r # rs) cts ix = BatchValidate [r] cts ix @ BatchValidate rs cts ix" for ix
    by (simp add: BatchValidate_def)
  then show ?case by (simp add: Cons.IH BatchValidate_run r)
qed (simp add: BatchValidate_def)

lemma chain_run_commit: "chain_run (ops @ [StoreCommit k m]) = commit_step k m (chain_run ops)"
  by (simp add: chain_run_def)

lemma superseded_still_readable:
  "fst (ReadVersion k v (chain_run (ops @ [StoreCommit k (tid, ts, v), StoreCommit k (tid', ts', v')]))) = OK"
proof -
  have "ops @ [StoreCommit k (tid, ts, v), StoreCommit k (tid', ts', v')] = (ops @ [StoreCommit k (tid, ts, v)]) @ [StoreCommit k (tid', ts', v')]"
    by simp
  then show ?thesis
    by (simp only: chain_run_commit commit_step.simps)
      (simp add: ReadVersion_def GetVersion_def GetHead_commit mark_visible_def InsertVersion_def VersionChainNode_new_def split: option.splits)
qed

lemma last_version_append:
  "last_version nrm ver k (xs @ ys) = (case last_version nrm ver k ys of Some v \<Rightarrow> Some v | None \<Rightarrow> last_version nrm ver k xs)"
  by (induction nrm ver k xs rule: last_version.induct) (auto split: option.splits)

text \<open>C11. Validation accepts only the version committed last: after any sequence of commits and garbage
  collections, and for any planned commit timestamp, batch validation accepts a read of a key exactly when
  no version of the key was ever committed or the version read is the one committed last; every
  other read is reported invalid, and no read is left undecided. In particular a read that was superseded is rejected
  whatever the planned commit timestamp is, also when the newer version was committed after it and the version read is still in
  the chain and readable. The comment in \<open>ValidateWithHead\<close> says that such a read passes; the code rejects it.\<close>

theorem validation_accepts_latest:
  "BatchValidate rs cts (chain_run ops) =
     map (\<lambda>(k, v). (k, case latest_committed k ops of
        None \<Rightarrow> kValid | Some v' \<Rightarrow> if v = v' then kValid else kInvalid)) rs \<and>
   (let ix = chain_run (ops @ [StoreCommit k (tid, ts, v), StoreCommit k (tid', ts', v')])
    in fst (ReadVersion k v ix) = OK \<and> BatchValidate [(k, v)] cts ix = [(k, if v = v' then kValid else kInvalid)])"
  using superseded_still_readable [of k v ops tid ts tid' ts' v']
  by (simp add: Let_def BatchValidate_run_map latest_committed_def last_version_append)

text \<open>C28. Garbage collection of a chain that has no readers keeps the version inserted last and exactly those older
  versions that are hidden or were committed at the safe timestamp or later, in order; it counts what it removes in
  the chain length and in the statistics of the index. A chain with readers is left as it is.\<close>

theorem gc_keeps_latest:
  "GetHead k (RunGC ts ix) = map_option (gc_head ts) (GetHead k ix) \<and>
   vi_gc_versions_removed (RunGC ts ix) = vi_gc_versions_removed ix +
     sum_list (map (\<lambda>(_, h). of_nat (length (vh_chain h) - length (vh_chain (gc_head ts h)))) (vi_index ix))"
proof -
  have "fst (snd (gc_chains ts hs r f)) = r +
      sum_list (map (\<lambda>(_, h). of_nat (length (vh_chain h) - length (vh_chain (gc_head ts h)))) hs)" for hs r f
  proof (induction hs arbitrary: r f)
    case (Cons kh hs)
    obtain k h where kh: "kh = (k, h)" by force
    show ?case
      using Cons gc_walk_chain(1,3) [of ts "vh_chain h" r f "vh_chain_length h"]
      by (simp add: kh gc_head_def Let_def split_beta algebra_simps)
  qed simp
  then have "vi_gc_versions_removed (RunGC ts ix) = vi_gc_versions_removed ix +
      sum_list (map (\<lambda>(_, h). of_nat (length (vh_chain h) - length (vh_chain (gc_head ts h)))) (vi_index ix))"
    by (simp add: RunGC_def split_beta Let_def)
  then show ?thesis using GetHead_RunGC by blast
qed


text \<open>The read of an item is still current in the partition's history of commits.\<close>

definition read_current :: "txn_context \<Rightarrow> (cedar_key, u64 \<times> timestamp \<times> u64, timestamp) store_op list \<Rightarrow> read_set_item \<Rightarrow> bool" where
  "read_current c ops item \<longleftrightarrow> rsi_read_timestamp item \<le> ctx_commit_ts c \<and>
     (case latest_committed (rsi_key item) ops of None \<Rightarrow> True | Some v \<Rightarrow> v = rsi_read_version item)"

lemma Handle_run:
  "HandleValidationRequest (Some (chain_run ops)) rs cts =
     (if \<forall>(k, v) \<in> set rs. (case latest_committed k ops of None \<Rightarrow> True | Some v' \<Rightarrow> v' = v) then kValid else kInvalid)"
proof -
  have "find (\<lambda>(_, r). r \<noteq> kValid) (BatchValidate rs cts (chain_run ops)) = None \<or>
      (\<exists>k. find (\<lambda>(_, r). r \<noteq> kValid) (BatchValidate rs cts (chain_run ops)) = Some (k, kInvalid))"
    by (induction rs) (auto simp: BatchValidate_run_map split: option.splits if_splits)
  moreover have "find (\<lambda>(_, r). r \<noteq> kValid) (BatchValidate rs cts (chain_run ops)) = None \<longleftrightarrow>
      (\<forall>(k, v) \<in> set rs. (case latest_committed k ops of None \<Rightarrow> True | Some v' \<Rightarrow> v' = v))"
    by (auto simp: BatchValidate_run_map find_None_iff split: option.splits if_splits)
  ultimately show ?thesis by (auto simp: HandleValidationRequest_def)
qed

lemma ValidatePartition_run:
  "ValidatePartition (\<lambda>pid. map_option chain_run (hist pid)) c pid =
     (if GetPartitionLeader c pid = kInvalidNodeID then kTimeout
      else case hist pid of
             None \<Rightarrow> kInvalid
           | Some ops \<Rightarrow> if \<forall>item \<in> set (ctx_read_set c). part_id (rsi_key item) = pid \<longrightarrow> read_current c ops item
                         then kValid else kInvalid)"
  by (auto simp: ValidatePartition_def Handle_run list_ex_iff read_current_def not_le split: option.splits)

text \<open>Coordinated validation with the local index of every
  partition produced by a history of commits and collections: it answers valid exactly when every
  participant has a known leader and a local index, and every read of a key of that partition happened
  no later than the commit timestamp and saw the version committed last (or a key never written). As for one index, a read
  superseded by a commit after the commit timestamp is rejected, against the comment in \<open>ValidateWithHead\<close>.\<close>

lemma coordinate_validation_exact:
  "CoordinateValidation (\<lambda>pid. map_option chain_run (hist pid)) c = kValid \<longleftrightarrow>
     (\<forall>pid \<in> set (ctx_participants c). GetPartitionLeader c pid \<noteq> kInvalidNodeID \<and>
        (\<exists>ops. hist pid = Some ops \<and>
           (\<forall>item \<in> set (ctx_read_set c). part_id (rsi_key item) = pid \<longrightarrow> read_current c ops item)))"
proof -
  let ?r = "ValidatePartition (\<lambda>pid. map_option chain_run (hist pid)) c"
  have "?r pid \<in> {kValid, kInvalid, kTimeout}" for pid
    by (simp add: ValidatePartition_run split: option.split)
  then have "CoordinateValidation (\<lambda>pid. map_option chain_run (hist pid)) c = kValid \<longleftrightarrow>
      (\<forall>pid \<in> set (ctx_participants c). ?r pid = kValid)"
    by (force simp: CoordinateValidation_def Let_def)
  moreover have "?r pid = kValid \<longleftrightarrow> GetPartitionLeader c pid \<noteq> kInvalidNodeID \<and>
      (\<exists>ops. hist pid = Some ops \<and>
         (\<forall>item \<in> set (ctx_read_set c). part_id (rsi_key item) = pid \<longrightarrow> read_current c ops item))" for pid
    by (cases "hist pid") (auto simp: ValidatePartition_run)
  ultimately show ?thesis by blast
qed

text \<open>A transaction on partition 7 that read version 1 of a key whose version 2 was committed later.\<close>

definition sample_context :: txn_context where
  "sample_context = SetPartitionLeader 7 0 (AddParticipant 7 (TxnContext_default
     \<lparr>ctx_commit_ts := 50, ctx_read_set := [\<lparr>rsi_key = CedarKey_default\<lparr>part_id_f := 0x700\<rparr>,
        rsi_window = TemporalWindow_default, rsi_read_version = 1, rsi_read_timestamp = 10\<rparr>]\<rparr>))"

lemma sample_coordinate_validation:
  "let k = CedarKey_default\<lparr>part_id_f := 0x700\<rparr>; ops = [StoreCommit k (1, 5, 1), StoreCommit k (2, 20, 2)]
   in CoordinateValidation (\<lambda>pid. map_option chain_run ([7 \<mapsto> ops] pid)) sample_context \<noteq> kValid \<and>
      CoordinateValidation (\<lambda>pid. map_option chain_run ([7 \<mapsto> butlast ops] pid)) sample_context = kValid"
  unfolding Let_def coordinate_validation_exact
  by (simp add: sample_context_def SetPartitionLeader_def AddParticipant_def TxnContext_default_def
      GetPartitionLeader_def kInvalidNodeID_def read_current_def latest_committed_def part_id_def cedar_be16toh_def cedar_htobe16_def)

end
