(* ===== verification/Txn_State.thy ===== *)
theory Txn_State
  imports Txn_Context
begin

text \<open>
  Durable two-phase-commit records (\<open>src/include/cedar/dtx/transaction_state.h\<close>,
  \<open>src/src/dtx/transaction_state.cc\<close>): the binary codec of a transaction record, the length
  prefixed log, the state manager whose every change is appended to the log, and recovery by replay.
  The log is the list of bytes of its file; the outcome of a write is an argument of the operations.
  Creation and update times of the in-memory record are left out; the deadline is a reading of the
  steady clock in milliseconds. Ordered maps are association lists kept
  in key order.
\<close>

subsection \<open>Records\<close>

text \<open>The enumerations are stored as 32 bit integers and read back without a range check.\<close>

definition kTxnActive :: u32 where "kTxnActive = 0"
definition kTxnPreparing :: u32 where "kTxnPreparing = 1"
definition kTxnPrepared :: u32 where "kTxnPrepared = 2"
definition kTxnCommitting :: u32 where "kTxnCommitting = 3"
definition kTxnCommitted :: u32 where "kTxnCommitted = 4"
definition kTxnAborting :: u32 where "kTxnAborting = 5"
definition kTxnAborted :: u32 where "kTxnAborted = 6"
definition kTxnUnknown :: u32 where "kTxnUnknown = 7"

definition kPartUnknown :: u32 where "kPartUnknown = 0"
definition kPartPreparing :: u32 where "kPartPreparing = 1"
definition kPartPrepared :: u32 where "kPartPrepared = 2"
definition kPartFailed :: u32 where "kPartFailed = 3"
definition kPartCommitted :: u32 where "kPartCommitted = 4"
definition kPartAborted :: u32 where "kPartAborted = 5"

record participant_state =
  ps_partition_id :: partition_id
  ps_address :: "u8 list"
  ps_state :: u32
  ps_error_msg :: "u8 list option"

record transaction_record =
  tr_txn_id :: txn_id
  tr_state :: u32
  tr_commit_ts :: timestamp
  tr_participants :: "partition_id list"
  tr_participant_states :: "(partition_id \<times> participant_state) list"
  tr_retry_count :: u32
  tr_timeout_at :: "nat option"

subsection \<open>Codec\<close>

definition bool_byte :: "bool \<Rightarrow> u8" where
  "bool_byte b = (if b then 1 else 0)"

definition serialize_participant :: "partition_id \<times> participant_state \<Rightarrow> u8 list" where
  "serialize_participant = (\<lambda>(pid, ps).
     le_bytes 2 pid @ le_bytes 4 (ps_state ps) @
     le_bytes 4 (of_nat (length (ps_address ps)) :: u32) @ ps_address ps @
     (case ps_error_msg ps of
        None \<Rightarrow> [bool_byte False]
      | Some msg \<Rightarrow> bool_byte True # le_bytes 4 (of_nat (length msg) :: u32) @ msg))"

definition Record_Serialize :: "transaction_record \<Rightarrow> u8 list" where
  "Record_Serialize r =
     le_bytes 8 (tr_txn_id r) @ le_bytes 4 (tr_state r) @ le_bytes 8 (tr_commit_ts r) @
     le_bytes 4 (of_nat (length (tr_participants r)) :: u32) @
     concat (map (le_bytes 2) (tr_participants r)) @
     le_bytes 4 (tr_retry_count r) @
     le_bytes 4 (of_nat (length (tr_participant_states r)) :: u32) @
     concat (map serialize_participant (tr_participant_states r))"

text \<open>A bounds-checked read of \<open>n\<close> bytes from the rest of the input.\<close>

definition read_bytes :: "nat \<Rightarrow> u8 list \<Rightarrow> (u8 list \<times> u8 list) option" where
  "read_bytes n s = (if n \<le> length s then Some (take n s, drop n s) else None)"

fun read_pids :: "nat \<Rightarrow> u8 list \<Rightarrow> (partition_id list \<times> u8 list) option" where
  "read_pids 0 s = Some ([], s)"
| "read_pids (Suc n) s = do {
     (b, s1) \<leftarrow> read_bytes 2 s;
     (pids, s2) \<leftarrow> read_pids n s1;
     Some (le_word b # pids, s2) }"

definition read_participant :: "u8 list \<Rightarrow> (participant_state \<times> u8 list) option" where
  "read_participant s = do {
     (hdr, s1) \<leftarrow> read_bytes 10 s;
     (addr, s2) \<leftarrow> read_bytes (unat (le_word (drop 6 hdr) :: u32)) s1;
     (flag, s3) \<leftarrow> read_bytes 1 s2;
     (err, s4) \<leftarrow> (if flag \<noteq> [0]
        then do { (l, t1) \<leftarrow> read_bytes 4 s3;
                  (msg, t2) \<leftarrow> read_bytes (unat (le_word l :: u32)) t1;
                  Some (Some msg, t2) }
        else Some (None, s3));
     Some (\<lparr>ps_partition_id = le_word (take 2 hdr), ps_address = addr,
            ps_state = le_word (take 4 (drop 2 hdr)), ps_error_msg = err\<rparr>, s4) }"

fun read_participant_states ::
  "nat \<Rightarrow> (partition_id \<times> participant_state) list \<Rightarrow> u8 list \<Rightarrow> (partition_id \<times> participant_state) list option" where
  "read_participant_states 0 m s = Some m"
| "read_participant_states (Suc n) m s = do {
     (ps, s1) \<leftarrow> read_participant s;
     read_participant_states n (omap_put (ps_partition_id ps) ps m) s1 }"

definition ParticipantState_unknown :: "partition_id \<Rightarrow> participant_state" where
  "ParticipantState_unknown pid =
     \<lparr>ps_partition_id = pid, ps_address = [], ps_state = kPartUnknown, ps_error_msg = None\<rparr>"

definition add_missing_participants ::
  "partition_id list \<Rightarrow> (partition_id \<times> participant_state) list \<Rightarrow> (partition_id \<times> participant_state) list" where
  "add_missing_participants pids m =
     fold (\<lambda>pid m. if map_of m pid = None then omap_put pid (ParticipantState_unknown pid) m else m) pids m"

text \<open>\<open>None\<close> is the corruption status. The retry count keeps its default 0 when the input ends
  before it.\<close>

definition Record_Deserialize :: "u8 list \<Rightarrow> transaction_record option" where
  "Record_Deserialize input =
    (if length input < 24 then None
     else do {
       (pids, s) \<leftarrow> read_pids (unat (le_word (take 4 (drop 20 input)) :: u32)) (drop 24 input);
       let (retry, s1) = (if 4 \<le> length s then (le_word (take 4 s), drop 4 s) else (0, s));
       states \<leftarrow> (if 4 \<le> length s1
          then read_participant_states (unat (le_word (take 4 s1) :: u32)) [] (drop 4 s1)
          else Some []);
       Some \<lparr>tr_txn_id = le_word (take 8 input), tr_state = le_word (take 4 (drop 8 input)),
         tr_commit_ts = le_word (take 8 (drop 12 input)), tr_participants = pids,
         tr_participant_states = add_missing_participants pids states, tr_retry_count = retry,
         tr_timeout_at = None\<rparr> })"

subsection \<open>Log file\<close>

text \<open>What the operating system does with one append: everything written and synced, a short or
  failed write, or a failing sync (inside \<open>Append\<close>, or in the \<open>Sync\<close> that follows it).\<close>

datatype io_outcome = IoOk | IoShort nat | IoWriteError | IoSyncError | IoSecondSyncError

definition wal_frame :: "u8 list \<Rightarrow> u8 list" where
  "wal_frame data = le_bytes 4 (of_nat (length data) :: u32) @ data"

definition TransactionWAL_Append :: "io_outcome \<Rightarrow> u8 list \<Rightarrow> u8 list \<Rightarrow> Status \<times> u8 list" where
  "TransactionWAL_Append io data file =
     (case io of
        IoShort n \<Rightarrow> (if n < length (wal_frame data) then IOError else OK, file @ take n (wal_frame data))
      | IoWriteError \<Rightarrow> (IOError, file)
      | IoSyncError \<Rightarrow> (IOError, file @ wal_frame data)
      | _ \<Rightarrow> (OK, file @ wal_frame data))"

definition TransactionWAL_Sync :: "io_outcome \<Rightarrow> Status" where
  "TransactionWAL_Sync io = (if io = IoSecondSyncError then IOError else OK)"

type_synonym txn_map = "(txn_id \<times> transaction_record) list"

text \<open>Replay with the callback of \<open>RecoverFromWAL\<close>; reads of an open file are taken to succeed.\<close>

function RecoverFromWAL :: "u8 list \<Rightarrow> txn_map \<Rightarrow> Status \<times> txn_map" where
  "RecoverFromWAL file m =
     (if file = [] then (OK, m)
      else if length file < 4 then (Corruption, m)
      else
        (let len = unat (le_word (take 4 file) :: u32); rest = drop 4 file in
         if length rest < len then (Corruption, m)
         else case Record_Deserialize (take len rest) of
                None \<Rightarrow> (Corruption, m)
              | Some r \<Rightarrow> RecoverFromWAL (drop len rest) (omap_put (tr_txn_id r) r m)))"
  by pat_completeness auto
termination
  by (relation "measure (\<lambda>(file, _). length file)") auto

declare RecoverFromWAL.simps [simp del]

subsection \<open>State manager\<close>

record state_manager =
  sm_transactions :: txn_map
  sm_initialized :: bool
  sm_shutdown :: bool
  sm_wal :: bool
  sm_file :: "u8 list"

definition StateManager_new :: "u8 list \<Rightarrow> state_manager" where
  "StateManager_new file = \<lparr>sm_transactions = [], sm_initialized = False, sm_shutdown = False,
     sm_wal = False, sm_file = file\<rparr>"

definition SM_Initialize :: "bool \<Rightarrow> state_manager \<Rightarrow> Status \<times> state_manager" where
  "SM_Initialize can_open s =
    (if sm_initialized s then (OK, s)
     else
       (let s1 = s\<lparr>sm_initialized := True, sm_wal := can_open\<rparr> in
        if \<not> can_open then (IOError, s1\<lparr>sm_initialized := False\<rparr>)
        else
          (let (st, m) = RecoverFromWAL (sm_file s1) (sm_transactions s1)
           in if st \<noteq> OK then (st, s1\<lparr>sm_transactions := m, sm_initialized := False\<rparr>)
              else (OK, s1\<lparr>sm_transactions := m\<rparr>))))"

definition SM_Shutdown :: "state_manager \<Rightarrow> state_manager" where
  "SM_Shutdown s = (if sm_shutdown s then s
     else s\<lparr>sm_shutdown := True, sm_wal := False, sm_transactions := []\<rparr>)"

definition PersistStateUnlocked :: "io_outcome \<Rightarrow> transaction_record \<Rightarrow> state_manager \<Rightarrow> Status \<times> state_manager" where
  "PersistStateUnlocked io r s =
    (if sm_shutdown s \<or> \<not> sm_wal s then (IOError, s)
     else
       (let (st, file) = TransactionWAL_Append io (Record_Serialize r) (sm_file s);
            s1 = s\<lparr>sm_file := file\<rparr>
        in if st \<noteq> OK then (st, s1) else (TransactionWAL_Sync io, s1)))"

definition new_record :: "txn_id \<Rightarrow> partition_id list \<Rightarrow> transaction_record" where
  "new_record txn pids = \<lparr>tr_txn_id = txn, tr_state = kTxnActive, tr_commit_ts = 0, tr_participants = pids,
     tr_participant_states = fold (\<lambda>pid m. omap_put pid (ParticipantState_unknown pid) m) pids [],
     tr_retry_count = 0, tr_timeout_at = None\<rparr>"

definition CreateTransaction :: "io_outcome \<Rightarrow> txn_id \<Rightarrow> partition_id list \<Rightarrow> state_manager \<Rightarrow> Status \<times> state_manager" where
  "CreateTransaction io txn pids s =
    (if map_of (sm_transactions s) txn \<noteq> None then (InvalidArgument, s)
     else
       (let r = new_record txn pids; (st, s1) = PersistStateUnlocked io r s
        in if st \<noteq> OK then (st, s1)
           else (OK, s1\<lparr>sm_transactions := omap_put txn r (sm_transactions s1)\<rparr>)))"

text \<open>Both updates change the record in memory before it is written.\<close>

definition UpdateState :: "io_outcome \<Rightarrow> txn_id \<Rightarrow> u32 \<Rightarrow> state_manager \<Rightarrow> Status \<times> state_manager" where
  "UpdateState io txn new_state s =
    (case map_of (sm_transactions s) txn of
       None \<Rightarrow> (NotFound, s)
     | Some r \<Rightarrow>
         (let r' = r\<lparr>tr_state := new_state\<rparr>
          in PersistStateUnlocked io r' (s\<lparr>sm_transactions := omap_put txn r' (sm_transactions s)\<rparr>)))"

definition UpdateParticipantState ::
  "io_outcome \<Rightarrow> txn_id \<Rightarrow> partition_id \<Rightarrow> u32 \<Rightarrow> u8 list option \<Rightarrow> state_manager \<Rightarrow> Status \<times> state_manager" where
  "UpdateParticipantState io txn pid st err s =
    (case map_of (sm_transactions s) txn of
       None \<Rightarrow> (NotFound, s)
     | Some r \<Rightarrow>
         (case map_of (tr_participant_states r) pid of
            None \<Rightarrow> (NotFound, s)
          | Some ps \<Rightarrow>
              (let ps' = ps\<lparr>ps_state := st, ps_error_msg := (case err of None \<Rightarrow> ps_error_msg ps | Some _ \<Rightarrow> err)\<rparr>;
                   r' = r\<lparr>tr_participant_states := omap_put pid ps' (tr_participant_states r)\<rparr>
               in PersistStateUnlocked io r' (s\<lparr>sm_transactions := omap_put txn r' (sm_transactions s)\<rparr>))))"

definition SetTransactionTimeout :: "nat \<Rightarrow> txn_id \<Rightarrow> nat \<Rightarrow> state_manager \<Rightarrow> state_manager" where
  "SetTransactionTimeout now txn timeout s =
    (case map_of (sm_transactions s) txn of
       None \<Rightarrow> s
     | Some r \<Rightarrow> s\<lparr>sm_transactions := omap_put txn (r\<lparr>tr_timeout_at := Some (now + timeout)\<rparr>) (sm_transactions s)\<rparr>)"

definition GetTransaction :: "txn_id \<Rightarrow> state_manager \<Rightarrow> transaction_record option" where
  "GetTransaction txn s = map_of (sm_transactions s) txn"

definition GetPendingTransactions :: "state_manager \<Rightarrow> transaction_record list" where
  "GetPendingTransactions s =
     filter (\<lambda>r. tr_state r \<noteq> kTxnCommitted \<and> tr_state r \<noteq> kTxnAborted) (map snd (sm_transactions s))"

definition GetTransactionsByState :: "u32 \<Rightarrow> state_manager \<Rightarrow> transaction_record list" where
  "GetTransactionsByState st s = filter (\<lambda>r. tr_state r = st) (map snd (sm_transactions s))"

definition GetTimedOutTransactions :: "nat \<Rightarrow> state_manager \<Rightarrow> txn_id list" where
  "GetTimedOutTransactions now s =
     map fst (filter (\<lambda>(_, r). case tr_timeout_at r of None \<Rightarrow> False | Some t \<Rightarrow> t < now) (sm_transactions s))"

subsection \<open>The record codec\<close>

lemma read_bytes_append [simp]: "length xs = n \<Longrightarrow> read_bytes n (xs @ ys) = Some (xs, ys)"
  by (simp add: read_bytes_def)

lemma read_bytes_1_Cons [simp]: "read_bytes (Suc 0) (x # ys) = Some ([x], ys)"
  by (simp add: read_bytes_def)

lemma read_pids_bytes: "read_pids (length ps) (concat (map (le_bytes 2) ps) @ rest) = Some (ps, rest)"
  by (induction ps) simp_all

definition participant_ok :: "partition_id \<times> participant_state \<Rightarrow> bool" where
  "participant_ok = (\<lambda>(pid, ps). ps_partition_id ps = pid \<and> length (ps_address ps) < 2 ^ 32 \<and>
     (case ps_error_msg ps of None \<Rightarrow> True | Some msg \<Rightarrow> length msg < 2 ^ 32))"

lemma read_participant_bytes:
  assumes "participant_ok (pid, ps)"
  shows "read_participant (serialize_participant (pid, ps) @ rest) = Some (ps, rest)"
proof -
  let ?hdr = "le_bytes 2 pid @ le_bytes 4 (ps_state ps) @ le_bytes 4 (of_nat (length (ps_address ps)) :: u32)"
  have hdr: "read_bytes 10 (?hdr @ s) = Some (?hdr, s)" for s by (rule read_bytes_append) simp
  have parts: "take 2 ?hdr = le_bytes 2 pid" "take 4 (drop 2 ?hdr) = le_bytes 4 (ps_state ps)"
    "drop 6 ?hdr = le_bytes 4 (of_nat (length (ps_address ps)) :: u32)"
    by simp_all
  show ?thesis
  proof (cases "ps_error_msg ps")
    case None
    have "serialize_participant (pid, ps) @ rest = ?hdr @ ps_address ps @ 0 # rest"
      by (simp add: serialize_participant_def None bool_byte_def)
    then show ?thesis
      using assms None unfolding read_participant_def
      by (simp only: hdr parts bind.bind_lunit split_conv le_word_le_bytes_32 le_word_le_bytes_16)
        (simp add: participant_ok_def unat_of_nat_u32)
  next
    case (Some msg)
    have "serialize_participant (pid, ps) @ rest =
        ?hdr @ ps_address ps @ 1 # le_bytes 4 (of_nat (length msg) :: u32) @ msg @ rest"
      by (simp add: serialize_participant_def Some bool_byte_def)
    then show ?thesis
      using assms Some unfolding read_participant_def
      by (simp only: hdr parts bind.bind_lunit split_conv le_word_le_bytes_32 le_word_le_bytes_16)
        (simp add: participant_ok_def unat_of_nat_u32)
  qed
qed

lemma read_participant_states_bytes:
  "list_all participant_ok m \<Longrightarrow>
   read_participant_states (length m) acc (concat (map serialize_participant m)) =
     Some (fold (\<lambda>(pid, ps). omap_put pid ps) m acc)"
proof (induction m arbitrary: acc)
  case (Cons x m)
  obtain pid ps where x: "x = (pid, ps)" by force
  have "ps_partition_id ps = pid" "participant_ok (pid, ps)" using Cons.prems x by (auto simp: participant_ok_def)
  then show ?case using Cons by (simp add: x read_participant_bytes)
qed simp

lemma fold_omap_put_sorted:
  "omap_ok (acc @ m) \<Longrightarrow> fold (\<lambda>(k, v). omap_put k v) m acc = acc @ m"
proof (induction m arbitrary: acc)
  case (Cons x m)
  obtain k v where x: "x = (k, v)" by force
  have "\<forall>k' \<in> fst ` set acc. k' < k" using Cons.prems x by (auto simp: omap_ok_def sorted_wrt_append)
  then have "omap_put k v acc = acc @ [(k, v)]" by (rule omap_put_last)
  then show ?case using Cons.IH [of "acc @ [(k, v)]"] Cons.prems x by simp
qed simp

lemma add_missing_id: "\<forall>pid \<in> set pids. map_of m pid \<noteq> None \<Longrightarrow> add_missing_participants pids m = m"
  unfolding add_missing_participants_def by (induction pids) auto

definition record_ok :: "transaction_record \<Rightarrow> bool" where
  "record_ok r \<longleftrightarrow> length (tr_participants r) < 2 ^ 32 \<and> omap_ok (tr_participant_states r) \<and>
     list_all participant_ok (tr_participant_states r) \<and>
     list_all (\<lambda>pid. map_of (tr_participant_states r) pid \<noteq> None) (tr_participants r)"

lemma omap_u16_length: "omap_ok (m :: (u16 \<times> 'a) list) \<Longrightarrow> length m \<le> 65536"
proof -
  assume "omap_ok m"
  then have "length m = card (set (map fst m))" by (metis omap_ok_distinct distinct_card length_map)
  also have "\<dots> \<le> CARD(u16)" by (rule card_mono) simp_all
  also have "\<dots> = 65536" by (simp add: card_word)
  finally show ?thesis .
qed

lemma Record_roundtrip:
  assumes "record_ok r"
  shows "Record_Deserialize (Record_Serialize r) = Some (r\<lparr>tr_timeout_at := None\<rparr>)"
proof -
  let ?ps = "tr_participants r" and ?m = "tr_participant_states r"
  let ?hdr = "le_bytes 8 (tr_txn_id r) @ le_bytes 4 (tr_state r) @ le_bytes 8 (tr_commit_ts r) @
    le_bytes 4 (of_nat (length ?ps) :: u32)"
  let ?tail = "le_bytes 4 (of_nat (length ?m) :: u32) @ concat (map serialize_participant ?m)"
  let ?rest = "concat (map (le_bytes 2) ?ps) @ le_bytes 4 (tr_retry_count r) @ ?tail"
  have ser: "Record_Serialize r = ?hdr @ ?rest" by (simp add: Record_Serialize_def)
  have parts: "take 8 (?hdr @ ?rest) = le_bytes 8 (tr_txn_id r)"
    "take 4 (drop 8 (?hdr @ ?rest)) = le_bytes 4 (tr_state r)"
    "take 8 (drop 12 (?hdr @ ?rest)) = le_bytes 8 (tr_commit_ts r)"
    "take 4 (drop 20 (?hdr @ ?rest)) = le_bytes 4 (of_nat (length ?ps) :: u32)"
    "drop 24 (?hdr @ ?rest) = ?rest"
    by simp_all
  have len: "length ?ps < 2 ^ 32" "length ?m < 2 ^ 32"
    using assms omap_u16_length [of ?m] by (auto simp: record_ok_def)
  have pids: "read_pids (length ?ps) ?rest = Some (?ps, le_bytes 4 (tr_retry_count r) @ ?tail)"
    by (rule read_pids_bytes)
  have states: "read_participant_states (length ?m) [] (concat (map serialize_participant ?m)) = Some ?m"
    using assms read_participant_states_bytes [of ?m "[]"] fold_omap_put_sorted [of "[]" ?m] by (simp add: record_ok_def)
  have "add_missing_participants ?ps ?m = ?m"
    using assms by (intro add_missing_id) (simp add: record_ok_def list_all_iff)
  then show ?thesis
    unfolding ser Record_Deserialize_def parts le_word_le_bytes_32 unat_of_nat_u32 [OF len(1)] pids
    by (simp add: states unat_of_nat_u32 [OF len(2)])
qed

subsection \<open>Replay of the log\<close>

lemma Recover_Nil [simp]: "RecoverFromWAL [] m = (OK, m)"
  by (simp add: RecoverFromWAL.simps)

lemma Recover_frame:
  assumes "record_ok r" "length (Record_Serialize r) < 2 ^ 32"
  shows "RecoverFromWAL (wal_frame (Record_Serialize r) @ rest) m =
    RecoverFromWAL rest (omap_put (tr_txn_id r) (r\<lparr>tr_timeout_at := None\<rparr>) m)"
  using unat_of_nat_u32 [OF assms(2)]
  by (subst RecoverFromWAL.simps) (simp add: wal_frame_def Record_roundtrip [OF assms(1)])

lemma Recover_torn:
  assumes "length data < 2 ^ 32" "0 < n" "n < length (wal_frame data)"
  shows "RecoverFromWAL (take n (wal_frame data)) m = (Corruption, m)"
proof (cases "n < 4")
  case True
  then show ?thesis using assms(2) by (subst RecoverFromWAL.simps) (auto simp: wal_frame_def)
next
  case False
  then have "take n (wal_frame data) = le_bytes 4 (of_nat (length data) :: u32) @ take (n - 4) data"
    by (simp add: wal_frame_def)
  then show ?thesis
    using False assms(3) unat_of_nat_u32 [OF assms(1)]
    by (subst RecoverFromWAL.simps) (auto simp: wal_frame_def Let_def)
qed

subsection \<open>Memory and log agree\<close>

text \<open>Sizes for which every record fits its length prefix: at most \<open>2^20\<close> participants and error
  messages of at most \<open>2^15\<close> bytes.\<close>

definition participant_small :: "partition_id \<times> participant_state \<Rightarrow> bool" where
  "participant_small = (\<lambda>(pid, ps). ps_partition_id ps = pid \<and> ps_address ps = [] \<and>
     (case ps_error_msg ps of None \<Rightarrow> True | Some msg \<Rightarrow> length msg \<le> 2 ^ 15))"

definition record_small :: "transaction_record \<Rightarrow> bool" where
  "record_small r \<longleftrightarrow> length (tr_participants r) \<le> 2 ^ 20 \<and> omap_ok (tr_participant_states r) \<and>
     list_all participant_small (tr_participant_states r) \<and>
     list_all (\<lambda>pid. map_of (tr_participant_states r) pid \<noteq> None) (tr_participants r)"

lemma record_small_ok: "record_small r \<Longrightarrow> record_ok r"
  by (fastforce simp: record_small_def record_ok_def list_all_iff participant_small_def participant_ok_def
      split: option.splits)

lemma length_serialize_participant: "participant_small x \<Longrightarrow> length (serialize_participant x) \<le> 2 ^ 15 + 15"
  by (cases x) (auto simp: participant_small_def serialize_participant_def split: option.splits)

lemma length_concat_le: "list_all (\<lambda>x. length (f x) \<le> b) xs \<Longrightarrow> length (concat (map f xs)) \<le> length xs * b"
  by (induction xs) auto

lemma record_small_length:
  assumes "record_small r"
  shows "length (Record_Serialize r) < 2 ^ 32"
proof -
  let ?m = "tr_participant_states r"
  have "list_all (\<lambda>x. length (serialize_participant x) \<le> 2 ^ 15 + 15) ?m"
    using assms length_serialize_participant by (auto simp: record_small_def list_all_iff)
  then have "length (concat (map serialize_participant ?m)) \<le> length ?m * (2 ^ 15 + 15)"
    by (rule length_concat_le)
  also have "\<dots> \<le> 65536 * (2 ^ 15 + 15)"
    using assms omap_u16_length [of ?m] by (intro mult_le_mono) (auto simp: record_small_def)
  finally have "length (concat (map serialize_participant ?m)) \<le> 65536 * (2 ^ 15 + 15)" .
  moreover have "length (concat (map (le_bytes 2) (tr_participants r))) = 2 * length (tr_participants r)"
    by (simp add: length_concat comp_def sum_list_triv)
  ultimately show ?thesis using assms by (simp add: Record_Serialize_def record_small_def)
qed

definition strip_timeouts :: "txn_map \<Rightarrow> txn_map" where
  "strip_timeouts m = map (\<lambda>(t, r). (t, r\<lparr>tr_timeout_at := None\<rparr>)) m"

lemma strip_timeouts_put:
  "strip_timeouts (omap_put t r m) = omap_put t (r\<lparr>tr_timeout_at := None\<rparr>) (strip_timeouts m)"
  unfolding strip_timeouts_def by (induction t r m rule: omap_put.induct) auto

definition sm_inv :: "state_manager \<Rightarrow> bool" where
  "sm_inv s \<longleftrightarrow> sm_wal s \<and> \<not> sm_shutdown s \<and> omap_ok (sm_transactions s) \<and>
     list_all (\<lambda>(t, r). tr_txn_id r = t \<and> record_small r) (sm_transactions s) \<and>
     (\<forall>tail. RecoverFromWAL (sm_file s @ tail) [] = RecoverFromWAL tail (strip_timeouts (sm_transactions s)))"

lemma sm_inv_get: "sm_inv s \<Longrightarrow> map_of (sm_transactions s) t = Some r \<Longrightarrow> tr_txn_id r = t \<and> record_small r"
  by (auto simp: sm_inv_def list_all_iff dest!: map_of_SomeD)

text \<open>Writing a record and putting it into the map, in either order.\<close>

lemma sm_inv_persist:
  assumes "sm_inv s" "record_small r"
  shows "PersistStateUnlocked IoOk r s = (OK, s\<lparr>sm_file := sm_file s @ wal_frame (Record_Serialize r)\<rparr>)"
    "sm_inv (s\<lparr>sm_transactions := omap_put (tr_txn_id r) r (sm_transactions s),
               sm_file := sm_file s @ wal_frame (Record_Serialize r)\<rparr>)"
proof -
  show "PersistStateUnlocked IoOk r s = (OK, s\<lparr>sm_file := sm_file s @ wal_frame (Record_Serialize r)\<rparr>)"
    using assms by (simp add: PersistStateUnlocked_def sm_inv_def TransactionWAL_Append_def TransactionWAL_Sync_def)
  have "omap_ok (sm_transactions s)" using assms by (simp add: sm_inv_def)
  from set_omap_put [OF this] assms
  show "sm_inv (s\<lparr>sm_transactions := omap_put (tr_txn_id r) r (sm_transactions s),
      sm_file := sm_file s @ wal_frame (Record_Serialize r)\<rparr>)"
    by (auto simp: sm_inv_def list_all_iff strip_timeouts_put
        Recover_frame [OF record_small_ok record_small_length])
qed

lemma PersistStateUnlocked_transactions:
  "sm_inv s \<Longrightarrow> record_small r \<Longrightarrow> PersistStateUnlocked IoOk r (s\<lparr>sm_transactions := m\<rparr>) =
     (OK, s\<lparr>sm_transactions := m, sm_file := sm_file s @ wal_frame (Record_Serialize r)\<rparr>)"
  by (simp add: PersistStateUnlocked_def sm_inv_def TransactionWAL_Append_def TransactionWAL_Sync_def)

text \<open>Operations of a running manager whose writes succeed.\<close>

datatype sm_op = OpCreate txn_id "partition_id list" | OpState txn_id u32
  | OpParticipant txn_id partition_id u32 "u8 list option" | OpTimeout nat txn_id nat

fun sm_step :: "sm_op \<Rightarrow> state_manager \<Rightarrow> state_manager" where
  "sm_step (OpCreate t pids) s = snd (CreateTransaction IoOk t pids s)"
| "sm_step (OpState t st) s = snd (UpdateState IoOk t st s)"
| "sm_step (OpParticipant t pid st err) s = snd (UpdateParticipantState IoOk t pid st err s)"
| "sm_step (OpTimeout now t d) s = SetTransactionTimeout now t d s"

fun sm_op_small :: "sm_op \<Rightarrow> bool" where
  "sm_op_small (OpCreate t pids) \<longleftrightarrow> length pids \<le> 2 ^ 20"
| "sm_op_small (OpParticipant t pid st (Some msg)) \<longleftrightarrow> length msg \<le> 2 ^ 15"
| "sm_op_small _ \<longleftrightarrow> True"

lemma new_record_small: "length pids \<le> 2 ^ 20 \<Longrightarrow> record_small (new_record t pids)"
proof -
  have "omap_ok m \<Longrightarrow> list_all participant_small m \<Longrightarrow>
      omap_ok (fold (\<lambda>pid. omap_put pid (ParticipantState_unknown pid)) pids m) \<and>
      list_all participant_small (fold (\<lambda>pid. omap_put pid (ParticipantState_unknown pid)) pids m) \<and>
      dom (map_of (fold (\<lambda>pid. omap_put pid (ParticipantState_unknown pid)) pids m)) = dom (map_of m) \<union> set pids" for m
  proof (induction pids arbitrary: m)
    case (Cons p pids)
    have "list_all participant_small (omap_put p (ParticipantState_unknown p) m)"
      using Cons.prems by (auto simp: list_all_iff set_omap_put participant_small_def ParticipantState_unknown_def)
    then show ?case using Cons.prems Cons.IH [of "omap_put p (ParticipantState_unknown p) m"] by auto
  qed simp
  from this [of "[]"] show "length pids \<le> 2 ^ 20 \<Longrightarrow> ?thesis"
    by (auto simp: record_small_def new_record_def list_all_iff)
qed

lemma sm_update_swap: "s\<lparr>sm_file := f, sm_transactions := m\<rparr> = s\<lparr>sm_transactions := m, sm_file := f\<rparr>"
  by simp

lemma sm_inv_create: "sm_inv s \<Longrightarrow> length pids \<le> 2 ^ 20 \<Longrightarrow> sm_inv (snd (CreateTransaction IoOk t pids s))"
proof -
  assume inv: "sm_inv s" and "length pids \<le> 2 ^ 20"
  then have small: "record_small (new_record t pids)" by (intro new_record_small)
  have "tr_txn_id (new_record t pids) = t" by (simp add: new_record_def)
  then show ?thesis
    using sm_inv_persist [OF inv small] inv by (auto simp: CreateTransaction_def Let_def sm_update_swap)
qed

lemma sm_inv_put:
  "sm_inv s \<Longrightarrow> record_small r \<Longrightarrow> tr_txn_id r = t \<Longrightarrow>
   sm_inv (snd (PersistStateUnlocked IoOk r (s\<lparr>sm_transactions := omap_put t r (sm_transactions s)\<rparr>)))"
  using sm_inv_persist(2) [of s r] by (simp add: PersistStateUnlocked_transactions)

lemma sm_inv_update: "sm_inv s \<Longrightarrow> sm_inv (snd (UpdateState IoOk t st s))"
  using sm_inv_get [of s t]
  by (auto simp: UpdateState_def Let_def record_small_def split: option.split intro!: sm_inv_put)

lemma sm_inv_participant:
  assumes "sm_inv s" "sm_op_small (OpParticipant t pid st err)"
  shows "sm_inv (snd (UpdateParticipantState IoOk t pid st err s))"
proof (cases "map_of (sm_transactions s) t")
  case (Some r)
  note small = sm_inv_get [OF assms(1) Some]
  show ?thesis
  proof (cases "map_of (tr_participant_states r) pid")
    case ps: (Some ps)
    let ?ps = "ps\<lparr>ps_state := st, ps_error_msg := (case err of None \<Rightarrow> ps_error_msg ps | Some _ \<Rightarrow> err)\<rparr>"
    let ?r = "r\<lparr>tr_participant_states := omap_put pid ?ps (tr_participant_states r)\<rparr>"
    have ok: "omap_ok (tr_participant_states r)" using small by (simp add: record_small_def)
    have "participant_small (pid, ps)"
      using small map_of_SomeD [OF ps] by (auto simp: record_small_def list_all_iff)
    then have "participant_small (pid, ?ps)"
      using assms(2) by (cases err) (auto simp: participant_small_def)
    then have "record_small ?r"
      using small by (auto simp: record_small_def list_all_iff set_omap_put [OF ok])
    then show ?thesis
      using sm_inv_put [OF assms(1), of ?r t] small by (simp add: UpdateParticipantState_def Some ps Let_def)
  qed (use assms Some in \<open>simp add: UpdateParticipantState_def\<close>)
qed (use assms in \<open>simp add: UpdateParticipantState_def\<close>)

lemma sm_inv_timeout: "sm_inv s \<Longrightarrow> sm_inv (SetTransactionTimeout now t d s)"
proof (cases "map_of (sm_transactions s) t")
  case (Some r)
  assume inv: "sm_inv s"
  let ?m = "sm_transactions s" and ?r = "r\<lparr>tr_timeout_at := Some (now + d)\<rparr>"
  have ok: "omap_ok ?m" using inv by (simp add: sm_inv_def)
  have strip: "strip_timeouts (omap_put t ?r ?m) = strip_timeouts ?m"
    using strip_timeouts_put [of t ?r ?m] strip_timeouts_put [of t r ?m] omap_put_idem [OF ok Some] by simp
  have "tr_txn_id ?r = t \<and> record_small ?r" using sm_inv_get [OF inv Some] by (simp add: record_small_def)
  then show ?thesis
    using inv set_omap_put [OF ok, of t ?r]
    by (auto simp: SetTransactionTimeout_def Some sm_inv_def strip list_all_iff)
qed (simp add: SetTransactionTimeout_def)

lemma sm_inv_step: "sm_inv s \<Longrightarrow> sm_op_small op \<Longrightarrow> sm_inv (sm_step op s)"
  by (cases op) (simp_all add: sm_inv_create sm_inv_update sm_inv_participant sm_inv_timeout)

definition sm_run :: "sm_op list \<Rightarrow> state_manager" where
  "sm_run ops = fold sm_step ops (snd (SM_Initialize True (StateManager_new [])))"

lemma sm_inv_run: "list_all sm_op_small ops \<Longrightarrow> sm_inv (sm_run ops)"
proof -
  have "sm_inv s \<Longrightarrow> list_all sm_op_small ops \<Longrightarrow> sm_inv (fold sm_step ops s)" for s
    by (induction ops arbitrary: s) (auto simp: sm_inv_step)
  moreover have "sm_inv (snd (SM_Initialize True (StateManager_new [])))"
    by (simp add: sm_inv_def SM_Initialize_def StateManager_new_def strip_timeouts_def)
  ultimately show "list_all sm_op_small ops \<Longrightarrow> ?thesis" by (simp add: sm_run_def)
qed

text \<open>C6. Two-phase-commit records survive a crash: after any sequence of creations, state changes and
  participant updates whose writes succeed, a manager started on the log the first one left
  behind recovers without error and holds exactly the same transactions (deadlines, which are not
  logged, are gone).\<close>

theorem txn_state_recovery:
  assumes "list_all sm_op_small ops"
  shows "fst (SM_Initialize True (StateManager_new (sm_file (sm_run ops)))) = OK \<and>
    sm_transactions (snd (SM_Initialize True (StateManager_new (sm_file (sm_run ops))))) =
      strip_timeouts (sm_transactions (sm_run ops))"
proof -
  have "RecoverFromWAL (sm_file (sm_run ops)) [] = (OK, strip_timeouts (sm_transactions (sm_run ops)))"
    using sm_inv_run [OF assms] unfolding sm_inv_def by (metis Recover_Nil append_Nil2)
  then show ?thesis by (simp add: SM_Initialize_def StateManager_new_def)
qed

text \<open>C38. A torn write blocks recovery: when the last append of a record reached the file only in
  part, a manager started on that file reports corruption and stays uninitialised, although it has
  read every record before the torn one.\<close>

theorem torn_write_blocks_recovery:
  assumes "list_all sm_op_small ops" "record_small r" "0 < n" "n < length (wal_frame (Record_Serialize r))"
  shows "let file = snd (TransactionWAL_Append (IoShort n) (Record_Serialize r) (sm_file (sm_run ops)));
             (st, s) = SM_Initialize True (StateManager_new file)
         in st = Corruption \<and> \<not> sm_initialized s \<and>
            sm_transactions s = strip_timeouts (sm_transactions (sm_run ops))"
proof -
  have "RecoverFromWAL (sm_file (sm_run ops) @ take n (wal_frame (Record_Serialize r))) [] =
      (Corruption, strip_timeouts (sm_transactions (sm_run ops)))"
    using sm_inv_run [OF assms(1)] Recover_torn [OF record_small_length [OF assms(2)] assms(3,4)]
    by (simp add: sm_inv_def)
  then show ?thesis
    by (simp add: TransactionWAL_Append_def SM_Initialize_def StateManager_new_def Let_def)
qed


definition sample_txn_ops :: "sm_op list" where
  "sample_txn_ops = [OpCreate 5 [1, 2], OpState 5 kTxnPreparing, OpParticipant 5 2 kPartFailed (Some [82, 80]),
     OpTimeout 100 5 30]"

lemma txn_state_recovery_witness:
  "let s = snd (SM_Initialize True (StateManager_new (sm_file (sm_run sample_txn_ops))))
   in map_option tr_state (GetTransaction 5 s) = Some kTxnPreparing \<and>
      map_option tr_timeout_at (GetTransaction 5 s) = Some None"
proof -
  have "list_all sm_op_small sample_txn_ops" by (simp add: sample_txn_ops_def)
  note * = txn_state_recovery [OF this]
  have "sm_transactions (sm_run sample_txn_ops) = [(5, (new_record 5 [1, 2])\<lparr>tr_state := kTxnPreparing,
      tr_participant_states := [(1, ParticipantState_unknown 1),
        (2, (ParticipantState_unknown 2)\<lparr>ps_state := kPartFailed, ps_error_msg := Some [82, 80]\<rparr>)],
      tr_timeout_at := Some 130\<rparr>)]"
    by (simp add: sample_txn_ops_def sm_run_def SM_Initialize_def StateManager_new_def CreateTransaction_def
        UpdateState_def UpdateParticipantState_def SetTransactionTimeout_def PersistStateUnlocked_def
        TransactionWAL_Append_def TransactionWAL_Sync_def new_record_def Let_def)
  then show ?thesis using * by (simp add: GetTransaction_def strip_timeouts_def Let_def)
qed

lemma torn_write_blocks_recovery_witness:
  "let file = snd (TransactionWAL_Append (IoShort 10) (Record_Serialize (new_record 6 [3])) (sm_file (sm_run sample_txn_ops)))
   in fst (SM_Initialize True (StateManager_new file)) = Corruption"
proof -
  have "list_all sm_op_small sample_txn_ops" by (simp add: sample_txn_ops_def)
  moreover have "record_small (new_record 6 [3])" by (rule new_record_small) simp
  moreover have "10 < length (wal_frame (Record_Serialize (new_record 6 [3])))"
    by (simp add: wal_frame_def Record_Serialize_def)
  ultimately show ?thesis
    using torn_write_blocks_recovery [of sample_txn_ops "new_record 6 [3]" 10] by (simp add: Let_def split_beta)
qed

end
