(* ===== verification/Vsl_Memtable.thy ===== *)
theory Vsl_Memtable
  imports Descriptor "HOL-Library.Monad_Syntax"
begin

text \<open>
  The memtable (\<open>src/include/cedar/storage/vsl_memtable.h\<close>, \<open>src/src/storage/vsl_memtable.cc\<close>)
  over the versioned skip list (\<open>versioned_skiplist_lockfree.h\<close> and \<open>.cc\<close>). Nodes live in a store
  that only grows; an address is a position in it. The linked list of each level, from the head
  to the tail sentinel, is the list of its addresses, and \<open>None\<close> as a predecessor is the head. The
  older-version links are kept as pointers, because reads follow them; following them may not end in an
  arbitrary store, so that loop is a partial function. All operations run under the lock of the list.
  The hint byte and the deletion mark of a node, which no operation here reads, are left out.
\<close>

subsection \<open>Nodes\<close>

record lf_node =
  n_entity_id :: u64
  n_timestamp :: u64
  n_txn_version :: u64
  n_target_id :: u64
  n_descriptor :: descriptor
  n_column_id :: u16
  n_part_id :: u16
  n_sequence :: u32
  n_entity_type :: u8
  n_flags :: u8
  n_height :: nat
  n_older :: "nat option"

definition LFNode_new :: "cedar_key \<Rightarrow> descriptor \<Rightarrow> nat \<Rightarrow> timestamp \<Rightarrow> lf_node" where
  "LFNode_new key desc height txn_version =
     \<lparr>n_entity_id = entity_id key, n_timestamp = timestamp_of key, n_txn_version = txn_version,
      n_target_id = target_id key, n_descriptor = desc, n_column_id = column_id key, n_part_id = part_id key,
      n_sequence = ucast (sequence_id key), n_entity_type = entity_type_f key, n_flags = flags_f key,
      n_height = height, n_older = None\<rparr>"

definition LFNode_GetKey :: "lf_node \<Rightarrow> cedar_key" where
  "LFNode_GetKey n =
    (if n_entity_type n = entity_type_code EdgeOut then
       CedarKey_EdgeOut (n_entity_id n) (n_target_id n) (n_column_id n) (n_timestamp n) (ucast (n_sequence n))
         (n_part_id n) (n_flags n)
     else if n_entity_type n = entity_type_code EdgeIn then
       CedarKey_EdgeIn (n_entity_id n) (n_target_id n) (n_column_id n) (n_timestamp n) (ucast (n_sequence n))
         (n_part_id n) (n_flags n)
     else
       CedarKey_Vertex (n_entity_id n) (n_column_id n) (n_timestamp n) (ucast (n_sequence n)) (n_part_id n)
         (n_target_id n) (n_flags n))"

subsection \<open>Skip list\<close>

record locked_vsl =
  vsl_nodes :: "lf_node list"
  vsl_levels :: "nat list list"
  vsl_max_height :: nat
  vsl_size :: nat
  vsl_rnd :: u32

definition kMaxHeight :: nat where
  "kMaxHeight = 16"

definition LockedVSL_new :: locked_vsl where
  "LockedVSL_new = \<lparr>vsl_nodes = [], vsl_levels = replicate kMaxHeight [], vsl_max_height = 1, vsl_size = 0, vsl_rnd = 0\<rparr>"

function random_height_loop :: "nat \<Rightarrow> u32 \<Rightarrow> nat" where
  "random_height_loop height rnd =
     (if height < kMaxHeight \<and> rnd AND 3 = 0 then random_height_loop (height + 1) (drop_bit 2 rnd) else height)"
  by pat_completeness auto
termination
  by (relation "measure (\<lambda>(h, _). kMaxHeight - h)") (auto simp: kMaxHeight_def)

declare random_height_loop.simps [simp del]

definition RandomHeight :: "locked_vsl \<Rightarrow> nat \<times> locked_vsl" where
  "RandomHeight s = (random_height_loop 1 (vsl_rnd s), s\<lparr>vsl_rnd := vsl_rnd s + 1\<rparr>)"

text \<open>The order of the list: entity, column and target ascending, timestamp descending.\<close>

definition node_less :: "lf_node \<Rightarrow> cedar_key \<Rightarrow> bool" where
  "node_less n key \<longleftrightarrow>
     n_entity_id n < entity_id key \<or>
     (n_entity_id n = entity_id key \<and> n_column_id n < column_id key) \<or>
     (n_entity_id n = entity_id key \<and> n_column_id n = column_id key \<and> n_target_id n < target_id key) \<or>
     (n_entity_id n = entity_id key \<and> n_column_id n = column_id key \<and> n_target_id n = target_id key \<and>
       timestamp_of key < n_timestamp n)"

text \<open>The rest of a level behind a predecessor (\<open>pred->Next(level)\<close> onwards), and the part up to it.\<close>

definition chain_after :: "nat option \<Rightarrow> nat list \<Rightarrow> nat list" where
  "chain_after pred chain = (case pred of None \<Rightarrow> chain | Some p \<Rightarrow> tl (dropWhile (\<lambda>a. a \<noteq> p) chain))"

definition chain_upto :: "nat option \<Rightarrow> nat list \<Rightarrow> nat list" where
  "chain_upto pred chain = (case pred of None \<Rightarrow> [] | Some p \<Rightarrow> takeWhile (\<lambda>a. a \<noteq> p) chain @ [p])"

text \<open>The walk along one level, and the descent through the levels: \<open>(preds[l], succs[l] and behind)\<close>
  for each level \<open>l\<close>.\<close>

definition walk_level :: "(nat \<Rightarrow> bool) \<Rightarrow> nat option \<Rightarrow> nat list \<Rightarrow> nat option \<times> nat list" where
  "walk_level lt pred chain =
     (let cs = chain_after pred chain; passed = takeWhile lt cs
      in (if passed = [] then pred else Some (last passed), dropWhile lt cs))"

fun descend :: "(nat \<Rightarrow> bool) \<Rightarrow> nat list list \<Rightarrow> nat \<Rightarrow> nat option \<Rightarrow> (nat option \<times> nat list) list" where
  "descend lt levels 0 pred = []"
| "descend lt levels (Suc l) pred =
     (let r = walk_level lt pred (levels ! l) in descend lt levels l (fst r) @ [r])"

definition same_version_key :: "lf_node \<Rightarrow> cedar_key \<Rightarrow> bool" where
  "same_version_key n key \<longleftrightarrow> n_entity_id n = entity_id key \<and> n_column_id n = column_id key \<and>
     n_target_id n = target_id key \<and> n_entity_type n = entity_type_f key"

definition vsl_Insert :: "cedar_key \<Rightarrow> descriptor \<Rightarrow> timestamp \<Rightarrow> locked_vsl \<Rightarrow> bool \<times> locked_vsl" where
  "vsl_Insert key value txn_version s0 =
    (let (height, s) = RandomHeight s0;
         curr_max = vsl_max_height s;
         found = descend (\<lambda>a. node_less (vsl_nodes s ! a) key) (vsl_levels s) curr_max None @
                 replicate (height - curr_max) (None, []);
         new = length (vsl_nodes s);
         levels = map (\<lambda>i. if i < height
             then chain_upto (fst (found ! i)) (vsl_levels s ! i) @ new # snd (found ! i)
             else vsl_levels s ! i) [0..<kMaxHeight];
         older = (case snd (found ! 0) of
             [] \<Rightarrow> None
           | succ # _ \<Rightarrow> if same_version_key (vsl_nodes s ! succ) key then Some succ else None)
     in (True, s\<lparr>vsl_nodes := vsl_nodes s @ [(LFNode_new key value height txn_version)\<lparr>n_older := older\<rparr>],
                 vsl_levels := levels, vsl_size := vsl_size s + 1,
                 vsl_max_height := (if curr_max < height then height else curr_max)\<rparr>))"

text \<open>Positioning at the first node of an entity: \<open>pred->Next(0)\<close> after the descent.\<close>

definition entity_start :: "u64 \<Rightarrow> locked_vsl \<Rightarrow> nat list" where
  "entity_start eid s =
     (case descend (\<lambda>a. n_entity_id (vsl_nodes s ! a) < eid) (vsl_levels s) (vsl_max_height s) None of
        [] \<Rightarrow> vsl_levels s ! 0
      | r # _ \<Rightarrow> chain_after (fst r) (vsl_levels s ! 0))"

definition entity_nodes :: "u64 \<Rightarrow> locked_vsl \<Rightarrow> nat list" where
  "entity_nodes eid s = takeWhile (\<lambda>a. n_entity_id (vsl_nodes s ! a) = eid) (entity_start eid s)"

definition FindLatestVersion :: "u64 \<Rightarrow> u8 \<Rightarrow> u16 \<Rightarrow> locked_vsl \<Rightarrow> nat option" where
  "FindLatestVersion eid etype col s =
     find (\<lambda>a. n_column_id (vsl_nodes s ! a) = col \<and> n_entity_type (vsl_nodes s ! a) = etype) (entity_nodes eid s)"

definition FindLatestVersion_target :: "u64 \<Rightarrow> u8 \<Rightarrow> u16 \<Rightarrow> u64 \<Rightarrow> locked_vsl \<Rightarrow> nat option" where
  "FindLatestVersion_target eid etype col target s =
     find (\<lambda>a. n_column_id (vsl_nodes s ! a) = col \<and> n_target_id (vsl_nodes s ! a) = target \<and>
       n_entity_type (vsl_nodes s ! a) = etype) (entity_nodes eid s)"

text \<open>Following the older-version links past the versions newer than a timestamp.\<close>

partial_function (option) skip_newer :: "lf_node list \<Rightarrow> u64 \<Rightarrow> nat option \<Rightarrow> nat option option" where
  [code]: "skip_newer nodes ts p =
     (case p of
        None \<Rightarrow> Some None
      | Some a \<Rightarrow> if ts < n_timestamp (nodes ! a) then skip_newer nodes ts (n_older (nodes ! a)) else Some (Some a))"

definition node_value :: "locked_vsl \<Rightarrow> nat option \<Rightarrow> descriptor option" where
  "node_value s p = map_option (\<lambda>a. n_descriptor (vsl_nodes s ! a)) p"

definition vsl_GetAtTime :: "u64 \<Rightarrow> u8 \<Rightarrow> u16 \<Rightarrow> timestamp \<Rightarrow> locked_vsl \<Rightarrow> descriptor option option" where
  "vsl_GetAtTime eid etype col ts s =
     map_option (node_value s) (skip_newer (vsl_nodes s) ts (FindLatestVersion eid etype col s))"

definition vsl_GetAtTime_target :: "u64 \<Rightarrow> u8 \<Rightarrow> u16 \<Rightarrow> u64 \<Rightarrow> timestamp \<Rightarrow> locked_vsl \<Rightarrow> descriptor option option" where
  "vsl_GetAtTime_target eid etype col target ts s =
     map_option (node_value s) (skip_newer (vsl_nodes s) ts (FindLatestVersion_target eid etype col target s))"

definition vsl_GetLatest :: "u64 \<Rightarrow> u8 \<Rightarrow> u16 \<Rightarrow> locked_vsl \<Rightarrow> descriptor option" where
  "vsl_GetLatest eid etype col s = node_value s (FindLatestVersion eid etype col s)"

definition vsl_GetLatest_target :: "u64 \<Rightarrow> u8 \<Rightarrow> u16 \<Rightarrow> u64 \<Rightarrow> locked_vsl \<Rightarrow> descriptor option" where
  "vsl_GetLatest_target eid etype col target s = node_value s (FindLatestVersion_target eid etype col target s)"

record version_entry =
  ve_timestamp :: timestamp
  ve_txn_version :: timestamp
  ve_descriptor :: descriptor
  ve_target_id :: u64
  ve_sequence :: u16
  ve_flags :: u8
  ve_part_id :: u16

definition version_entry_of :: "lf_node \<Rightarrow> version_entry" where
  "version_entry_of n = \<lparr>ve_timestamp = n_timestamp n, ve_txn_version = n_txn_version n,
     ve_descriptor = n_descriptor n, ve_target_id = n_target_id n, ve_sequence = ucast (n_sequence n),
     ve_flags = n_flags n, ve_part_id = n_part_id n\<rparr>"

partial_function (option) collect_from :: "lf_node list \<Rightarrow> u64 \<Rightarrow> nat option \<Rightarrow> version_entry list option" where
  [code]: "collect_from nodes start p =
     (case p of
        None \<Rightarrow> Some []
      | Some a \<Rightarrow>
          if start \<le> n_timestamp (nodes ! a) then
            do { rest \<leftarrow> collect_from nodes start (n_older (nodes ! a)); Some (version_entry_of (nodes ! a) # rest) }
          else Some [])"

fun scan_loop ::
  "lf_node list \<Rightarrow> u8 \<Rightarrow> u16 \<Rightarrow> timestamp \<Rightarrow> timestamp \<Rightarrow> nat list \<Rightarrow> u64 \<Rightarrow> version_entry list option" where
  "scan_loop nodes etype col start stop [] last_target = Some []"
| "scan_loop nodes etype col start stop (a # as) last_target =
     (let n = nodes ! a in
      if n_column_id n = col \<and> n_entity_type n = etype \<and> n_target_id n \<noteq> last_target then
        (case skip_newer nodes stop (Some a) of
           None \<Rightarrow> None
         | Some p \<Rightarrow>
             (case collect_from nodes start p of
                None \<Rightarrow> None
              | Some found \<Rightarrow> map_option ((@) found) (scan_loop nodes etype col start stop as (n_target_id n))))
      else scan_loop nodes etype col start stop as last_target)"

definition vsl_ScanRange ::
  "u64 \<Rightarrow> u8 \<Rightarrow> u16 \<Rightarrow> timestamp \<Rightarrow> timestamp \<Rightarrow> locked_vsl \<Rightarrow> version_entry list option" where
  "vsl_ScanRange eid etype col start stop s =
     scan_loop (vsl_nodes s) etype col start stop (entity_nodes eid s) u64_max"

text \<open>The callback of \<open>Traverse\<close> folds a state and stops the walk by returning \<open>False\<close>.\<close>

fun traverse_loop ::
  "lf_node list \<Rightarrow> (cedar_key \<Rightarrow> descriptor \<Rightarrow> timestamp \<Rightarrow> 'x \<Rightarrow> bool \<times> 'x) \<Rightarrow> nat list \<Rightarrow> 'x \<Rightarrow> 'x" where
  "traverse_loop nodes callback [] x = x"
| "traverse_loop nodes callback (a # as) x =
     (let n = nodes ! a; (go_on, x') = callback (LFNode_GetKey n) (n_descriptor n) (n_txn_version n) x
      in if go_on then traverse_loop nodes callback as x' else x')"

definition vsl_Traverse ::
  "(cedar_key \<Rightarrow> descriptor \<Rightarrow> timestamp \<Rightarrow> 'x \<Rightarrow> bool \<times> 'x) \<Rightarrow> locked_vsl \<Rightarrow> 'x \<Rightarrow> 'x" where
  "vsl_Traverse callback s x = traverse_loop (vsl_nodes s) callback (vsl_levels s ! 0) x"

subsection \<open>Memtable\<close>

record vsl_memtable =
  mt_skiplist :: locked_vsl
  mt_size :: nat
  mt_bulk_import_mode :: bool

record memtable_entry =
  me_timestamp :: timestamp
  me_txn_version :: timestamp
  me_descriptor :: descriptor
  me_dst_id :: "u64 option"
  me_sequence :: u16
  me_flags :: u8
  me_part_id :: u16

definition VSLMemTable_new :: vsl_memtable where
  "VSLMemTable_new = \<lparr>mt_skiplist = LockedVSL_new, mt_size = 0, mt_bulk_import_mode = False\<rparr>"

definition mt_Put :: "cedar_key \<Rightarrow> descriptor \<Rightarrow> timestamp \<Rightarrow> vsl_memtable \<Rightarrow> Status \<times> vsl_memtable" where
  "mt_Put key desc txn_version m =
    (let (inserted, sl) = vsl_Insert key desc txn_version (mt_skiplist m)
     in (OK, m\<lparr>mt_skiplist := sl, mt_size := (if inserted then mt_size m + 1 else mt_size m)\<rparr>))"

definition mt_GetAtTime :: "u64 \<Rightarrow> u8 \<Rightarrow> u16 \<Rightarrow> timestamp \<Rightarrow> vsl_memtable \<Rightarrow> descriptor option option" where
  "mt_GetAtTime eid etype col ts m = vsl_GetAtTime eid etype col ts (mt_skiplist m)"

definition mt_Get :: "u64 \<Rightarrow> u8 \<Rightarrow> u16 \<Rightarrow> timestamp \<Rightarrow> vsl_memtable \<Rightarrow> (Status \<times> descriptor option) option" where
  "mt_Get eid etype col ts m =
     map_option (\<lambda>r. case r of Some d \<Rightarrow> (OK, Some d) | None \<Rightarrow> (NotFound, None))
       (vsl_GetAtTime eid etype col ts (mt_skiplist m))"

definition mt_GetRange ::
  "u64 \<Rightarrow> u8 \<Rightarrow> u16 \<Rightarrow> timestamp \<Rightarrow> timestamp \<Rightarrow> vsl_memtable \<Rightarrow> memtable_entry list option" where
  "mt_GetRange eid etype col start stop m =
     map_option (map (\<lambda>v. \<lparr>me_timestamp = ve_timestamp v, me_txn_version = ve_txn_version v,
         me_descriptor = ve_descriptor v, me_dst_id = (if ve_target_id v \<noteq> 0 then Some (ve_target_id v) else None),
         me_sequence = ve_sequence v, me_flags = ve_flags v, me_part_id = ve_part_id v\<rparr>))
       (vsl_ScanRange eid etype col start stop (mt_skiplist m))"

definition mt_GetLatest :: "u64 \<Rightarrow> u8 \<Rightarrow> u16 \<Rightarrow> vsl_memtable \<Rightarrow> descriptor option" where
  "mt_GetLatest eid etype col m = vsl_GetLatest eid etype col (mt_skiplist m)"

definition mt_GetAll :: "u64 \<Rightarrow> u8 \<Rightarrow> u16 \<Rightarrow> vsl_memtable \<Rightarrow> memtable_entry list option" where
  "mt_GetAll eid etype col m = mt_GetRange eid etype col 0 u64_max m"

definition mt_GetVersionChain :: "u64 \<Rightarrow> u8 \<Rightarrow> u16 \<Rightarrow> vsl_memtable \<Rightarrow> memtable_entry list option" where
  "mt_GetVersionChain eid etype col m = mt_GetAll eid etype col m"

definition mt_IsEmpty :: "vsl_memtable \<Rightarrow> bool" where
  "mt_IsEmpty m \<longleftrightarrow> mt_size m = 0"

definition mt_Traverse ::
  "(cedar_key \<Rightarrow> descriptor \<Rightarrow> timestamp \<Rightarrow> 'x \<Rightarrow> bool \<times> 'x) \<Rightarrow> vsl_memtable \<Rightarrow> 'x \<Rightarrow> 'x" where
  "mt_Traverse callback m x = vsl_Traverse callback (mt_skiplist m) x"

definition SetBulkImportMode :: "bool \<Rightarrow> vsl_memtable \<Rightarrow> vsl_memtable" where
  "SetBulkImportMode enabled m = m\<lparr>mt_bulk_import_mode := enabled\<rparr>"

subsection \<open>The descent finds the position in the bottom list\<close>

type_synonym order_key = "u64 \<times> u16 \<times> u64 \<times> u64"

definition node_key :: "lf_node \<Rightarrow> order_key" where
  "node_key n = (n_entity_id n, n_column_id n, n_target_id n, u64_max - n_timestamp n)"

definition search_key :: "cedar_key \<Rightarrow> order_key" where
  "search_key k = (entity_id k, column_id k, target_id k, u64_max - timestamp_of k)"

lemma node_less_key: "node_less n k \<longleftrightarrow> node_key n < search_key k"
  by (auto simp: node_less_def node_key_def search_key_def less_prod_def' u64_max_diff_less)

text \<open>\<open>lt\<close> holds on a prefix of the chain.\<close>

definition prefix_closed :: "(nat \<Rightarrow> bool) \<Rightarrow> nat list \<Rightarrow> bool" where
  "prefix_closed lt chain \<longleftrightarrow> sorted_wrt (\<lambda>a b. lt b \<longrightarrow> lt a) chain"

definition last_opt :: "nat list \<Rightarrow> nat option" where
  "last_opt xs = (if xs = [] then None else Some (last xs))"

lemma chain_after_split: "p \<notin> set xs \<Longrightarrow> chain_after (Some p) (xs @ p # ys) = ys"
  by (induction xs) (auto simp: chain_after_def)

lemma chain_upto_split: "p \<notin> set xs \<Longrightarrow> chain_upto (Some p) (xs @ p # ys) = xs @ [p]"
  by (induction xs) (auto simp: chain_upto_def)

lemma walk_level_result:
  assumes "distinct chain" "prefix_closed lt chain" "pred = None \<or> (\<exists>p. pred = Some p \<and> p \<in> set chain \<and> lt p)"
  shows "walk_level lt pred chain = (last_opt (takeWhile lt chain), dropWhile lt chain)"
proof (cases pred)
  case None
  then show ?thesis by (simp add: walk_level_def chain_after_def last_opt_def Let_def)
next
  case (Some p)
  with assms(3) have p: "p \<in> set chain" "lt p" by auto
  from p(1) obtain xs ys where chain: "chain = xs @ p # ys" by (metis split_list)
  have "p \<notin> set xs" using assms(1) chain by auto
  then have after: "chain_after pred chain = ys" unfolding Some chain by (rule chain_after_split)
  have xs: "\<forall>x \<in> set xs. lt x" using assms(2) p(2) unfolding chain by (simp add: prefix_closed_def sorted_wrt_append)
  then have "takeWhile lt chain = xs @ p # takeWhile lt ys" "dropWhile lt chain = dropWhile lt ys"
    unfolding chain using p(2) by simp_all
  then show ?thesis unfolding walk_level_def after Let_def by (simp add: Some last_opt_def)
qed

lemma descend_nth:
  assumes "\<forall>i < n. distinct (levels ! i) \<and> prefix_closed lt (levels ! i)"
    "\<forall>i. Suc i < n \<longrightarrow> set (levels ! Suc i) \<subseteq> set (levels ! i)"
    "pred = None \<or> (\<exists>p. pred = Some p \<and> lt p \<and> (0 < n \<longrightarrow> p \<in> set (levels ! (n - 1))))"
  shows "length (descend lt levels n pred) = n \<and>
    (\<forall>l < n. descend lt levels n pred ! l = (last_opt (takeWhile lt (levels ! l)), dropWhile lt (levels ! l)))"
  using assms
proof (induction n arbitrary: pred)
  case (Suc n)
  let ?p = "last_opt (takeWhile lt (levels ! n))" and ?r = "(last_opt (takeWhile lt (levels ! n)), dropWhile lt (levels ! n))"
  have walk: "walk_level lt pred (levels ! n) = ?r"
    using Suc.prems(1,3) by (intro walk_level_result) auto
  have sub: "set (levels ! n) \<subseteq> set (levels ! (n - 1))"
    using Suc.prems(2) [rule_format, of "n - 1"] by (cases n) simp_all
  have "length (descend lt levels n ?p) = n \<and>
    (\<forall>l < n. descend lt levels n ?p ! l = (last_opt (takeWhile lt (levels ! l)), dropWhile lt (levels ! l)))"
  proof (rule Suc.IH)
    show "?p = None \<or> (\<exists>p. ?p = Some p \<and> lt p \<and> (0 < n \<longrightarrow> p \<in> set (levels ! (n - 1))))"
    proof (cases "takeWhile lt (levels ! n) = []")
      case False
      then have "last (takeWhile lt (levels ! n)) \<in> set (takeWhile lt (levels ! n))" by (rule last_in_set)
      then show ?thesis using False sub set_takeWhileD by (fastforce simp: last_opt_def)
    qed (simp add: last_opt_def)
  qed (use Suc.prems(1,2) in simp_all)
  moreover have "descend lt levels (Suc n) pred = descend lt levels n ?p @ [?r]"
    by (simp add: walk)
  ultimately show ?case by (simp add: nth_append less_Suc_eq)
qed simp

lemma last_opt_split:
  assumes "distinct chain"
  obtains "takeWhile lt chain = []" "last_opt (takeWhile lt chain) = None" "dropWhile lt chain = chain"
  | xs p ys where "takeWhile lt chain = xs @ [p]" "last_opt (takeWhile lt chain) = Some p" "dropWhile lt chain = ys"
      "chain = xs @ p # ys" "p \<notin> set xs"
proof (cases "takeWhile lt chain" rule: rev_cases)
  case Nil
  then show thesis using that(1) takeWhile_dropWhile_id [of lt chain] by (simp add: last_opt_def)
next
  case (snoc xs p)
  have "chain = (xs @ [p]) @ dropWhile lt chain" using takeWhile_dropWhile_id [of lt chain] snoc by simp
  then obtain ys where ys: "chain = xs @ p # ys" "dropWhile lt chain = ys" by simp
  show thesis
  proof (rule that(2) [OF snoc _ ys(2,1)])
    show "last_opt (takeWhile lt chain) = Some p" unfolding snoc by (simp add: last_opt_def)
    show "p \<notin> set xs" using assms ys(1) by simp
  qed
qed

lemma chain_at_last_opt:
  assumes "distinct chain"
  shows "chain_upto (last_opt (takeWhile lt chain)) chain = takeWhile lt chain \<and>
    chain_after (last_opt (takeWhile lt chain)) chain = dropWhile lt chain"
proof (rule last_opt_split [OF assms, of lt])
  assume "takeWhile lt chain = []" "last_opt (takeWhile lt chain) = None" "dropWhile lt chain = chain"
  then show ?thesis by (simp add: chain_upto_def chain_after_def)
next
  fix xs p ys
  assume *: "takeWhile lt chain = xs @ [p]" "last_opt (takeWhile lt chain) = Some p" "dropWhile lt chain = ys"
    and chain: "chain = xs @ p # ys" "p \<notin> set xs"
  show ?thesis unfolding * unfolding chain(1) using chain(2) by (simp add: last_opt_def chain_upto_split chain_after_split)
qed

subsection \<open>Invariant of the skip list\<close>

abbreviation node_at :: "locked_vsl \<Rightarrow> nat \<Rightarrow> lf_node" where
  "node_at s a \<equiv> vsl_nodes s ! a"

abbreviation bottom :: "locked_vsl \<Rightarrow> nat list" where
  "bottom s \<equiv> vsl_levels s ! 0"

definition vsl_ok :: "locked_vsl \<Rightarrow> bool" where
  "vsl_ok s \<longleftrightarrow> length (vsl_levels s) = kMaxHeight \<and> 1 \<le> vsl_max_height s \<and> vsl_max_height s \<le> kMaxHeight \<and>
     distinct (bottom s) \<and> set (bottom s) = {..<length (vsl_nodes s)} \<and>
     sorted (map (\<lambda>a. node_key (node_at s a)) (bottom s)) \<and>
     (\<forall>i. Suc i < kMaxHeight \<longrightarrow> vsl_levels s ! Suc i = filter (\<lambda>a. Suc i < n_height (node_at s a)) (bottom s)) \<and>
     (\<forall>a < length (vsl_nodes s). 1 \<le> n_height (node_at s a) \<and> n_height (node_at s a) \<le> vsl_max_height s)"

lemma level_filter:
  assumes "vsl_ok s" "i < kMaxHeight"
  shows "vsl_levels s ! i = filter (\<lambda>a. i < n_height (node_at s a)) (bottom s)"
proof (cases i)
  case 0
  have "\<forall>a \<in> set (bottom s). 0 < n_height (node_at s a)" using assms(1) by (fastforce simp: vsl_ok_def)
  then show ?thesis unfolding 0 by (simp add: filter_id_conv)
next
  case (Suc j)
  then show ?thesis using assms by (simp add: vsl_ok_def)
qed

lemma random_height_bounds: "h \<le> kMaxHeight \<Longrightarrow> h \<le> random_height_loop h rnd \<and> random_height_loop h rnd \<le> kMaxHeight"
proof (induction h rnd rule: random_height_loop.induct)
  case (1 h rnd)
  then show ?case by (subst (1 2) random_height_loop.simps) auto
qed

lemma vsl_ok_new: "vsl_ok LockedVSL_new"
  by (simp add: vsl_ok_def LockedVSL_new_def kMaxHeight_def)

text \<open>A test that is monotone in the order key holds on a prefix of each level.\<close>

definition key_mono :: "locked_vsl \<Rightarrow> (nat \<Rightarrow> bool) \<Rightarrow> bool" where
  "key_mono s lt \<longleftrightarrow> (\<forall>a b. node_key (node_at s a) \<le> node_key (node_at s b) \<longrightarrow> lt b \<longrightarrow> lt a)"

lemma key_mono_node_less: "key_mono s (\<lambda>a. node_less (node_at s a) k)"
  by (auto simp: key_mono_def node_less_key)

lemma key_mono_entity: "key_mono s (\<lambda>a. n_entity_id (node_at s a) < eid)"
  by (auto simp: key_mono_def node_key_def)

lemma prefix_closed_level:
  assumes "vsl_ok s" "i < kMaxHeight" "key_mono s lt"
  shows "distinct (vsl_levels s ! i)" "prefix_closed lt (vsl_levels s ! i)"
proof -
  have lvl: "vsl_levels s ! i = filter (\<lambda>a. i < n_height (node_at s a)) (bottom s)"
    by (rule level_filter [OF assms(1,2)])
  show "distinct (vsl_levels s ! i)" unfolding lvl using assms(1) by (simp add: vsl_ok_def)
  have "sorted_wrt (\<lambda>a b. node_key (node_at s a) \<le> node_key (node_at s b)) (bottom s)"
    using assms(1) by (simp add: vsl_ok_def sorted_map)
  then have "sorted_wrt (\<lambda>a b. node_key (node_at s a) \<le> node_key (node_at s b)) (vsl_levels s ! i)"
    unfolding lvl by (rule sorted_wrt_filter)
  then show "prefix_closed lt (vsl_levels s ! i)"
    unfolding prefix_closed_def by (rule sorted_wrt_mono_rel [rotated]) (use assms(3) in \<open>auto simp: key_mono_def\<close>)
qed

lemma vsl_descend:
  assumes "vsl_ok s" "key_mono s lt"
  shows "length (descend lt (vsl_levels s) (vsl_max_height s) None) = vsl_max_height s \<and>
    (\<forall>l < vsl_max_height s. descend lt (vsl_levels s) (vsl_max_height s) None ! l =
       (last_opt (takeWhile lt (vsl_levels s ! l)), dropWhile lt (vsl_levels s ! l)))"
proof (rule descend_nth)
  have le: "vsl_max_height s \<le> kMaxHeight" using assms(1) by (simp add: vsl_ok_def)
  show "\<forall>i < vsl_max_height s. distinct (vsl_levels s ! i) \<and> prefix_closed lt (vsl_levels s ! i)"
    using le prefix_closed_level [OF assms(1) _ assms(2)] by auto
  show "\<forall>i. Suc i < vsl_max_height s \<longrightarrow> set (vsl_levels s ! Suc i) \<subseteq> set (vsl_levels s ! i)"
  proof (intro allI impI)
    fix i assume "Suc i < vsl_max_height s"
    then have "Suc i < kMaxHeight" "i < kMaxHeight" using le by simp_all
    from this [THEN level_filter [OF assms(1)]] show "set (vsl_levels s ! Suc i) \<subseteq> set (vsl_levels s ! i)" by auto
  qed
qed simp

lemma entity_start_eq:
  assumes "vsl_ok s"
  shows "entity_start eid s = dropWhile (\<lambda>a. n_entity_id (node_at s a) < eid) (bottom s)"
proof -
  let ?lt = "\<lambda>a. n_entity_id (node_at s a) < eid"
  note D = vsl_descend [OF assms key_mono_entity [of s eid]]
  have "0 < vsl_max_height s" using assms by (simp add: vsl_ok_def)
  with D obtain r rs where "descend ?lt (vsl_levels s) (vsl_max_height s) None = r # rs"
    by (cases "descend ?lt (vsl_levels s) (vsl_max_height s) None") auto
  moreover have "descend ?lt (vsl_levels s) (vsl_max_height s) None ! 0 = (last_opt (takeWhile ?lt (bottom s)), dropWhile ?lt (bottom s))"
    using D \<open>0 < vsl_max_height s\<close> by blast
  ultimately have r: "descend ?lt (vsl_levels s) (vsl_max_height s) None = r # rs"
      "fst r = last_opt (takeWhile ?lt (bottom s))" by simp_all
  have "distinct (bottom s)" using assms by (simp add: vsl_ok_def)
  then show ?thesis unfolding entity_start_def r(1) list.case r(2) using chain_at_last_opt by blast
qed

subsection \<open>Insertion\<close>

lemma prefix_closed_filter:
  "prefix_closed lt xs \<Longrightarrow> takeWhile lt xs = filter lt xs \<and> dropWhile lt xs = filter (\<lambda>a. \<not> lt a) xs"
proof (induction xs)
  case (Cons x xs)
  have "lt x \<or> (\<forall>y \<in> set xs. \<not> lt y)" using Cons.prems by (auto simp: prefix_closed_def)
  then show ?case using Cons by (auto simp: prefix_closed_def filter_empty_conv filter_id_conv)
qed simp

lemma level_walk:
  assumes "vsl_ok s" "i < kMaxHeight" "key_mono s lt"
  shows "takeWhile lt (vsl_levels s ! i) = filter lt (vsl_levels s ! i)"
    "dropWhile lt (vsl_levels s ! i) = filter (\<lambda>a. \<not> lt a) (vsl_levels s ! i)"
  using prefix_closed_filter [OF prefix_closed_level(2) [OF assms]] by blast+

lemma level_above_max: "vsl_ok s \<Longrightarrow> vsl_max_height s \<le> i \<Longrightarrow> i < kMaxHeight \<Longrightarrow> vsl_levels s ! i = []"
proof -
  assume ok: "vsl_ok s" and i: "vsl_max_height s \<le> i" "i < kMaxHeight"
  have "\<forall>a \<in> set (bottom s). \<not> i < n_height (node_at s a)"
    using ok i(1) by (fastforce simp: vsl_ok_def)
  then show ?thesis by (subst level_filter [OF ok i(2)]) (simp add: filter_empty_conv)
qed

definition insert_at :: "(nat \<Rightarrow> bool) \<Rightarrow> nat \<Rightarrow> nat list \<Rightarrow> nat list" where
  "insert_at lt new chain = filter lt chain @ new # filter (\<lambda>a. \<not> lt a) chain"

definition older_link :: "locked_vsl \<Rightarrow> cedar_key \<Rightarrow> nat option" where
  "older_link s key = (case filter (\<lambda>a. \<not> node_less (node_at s a) key) (bottom s) of
     [] \<Rightarrow> None | succ # _ \<Rightarrow> if same_version_key (node_at s succ) key then Some succ else None)"

text \<open>What the search through the levels amounts to: a split of every level at the key.\<close>

lemma vsl_Insert_eq:
  fixes key :: cedar_key
  assumes "vsl_ok s"
  defines "lt \<equiv> \<lambda>a. node_less (node_at s a) key" and "h \<equiv> random_height_loop 1 (vsl_rnd s)"
  shows "vsl_Insert key v txn s = (True, s\<lparr>vsl_rnd := vsl_rnd s + 1,
      vsl_nodes := vsl_nodes s @ [(LFNode_new key v h txn)\<lparr>n_older := older_link s key\<rparr>],
      vsl_levels := map (\<lambda>i. if i < h then insert_at lt (length (vsl_nodes s)) (vsl_levels s ! i)
                              else vsl_levels s ! i) [0..<kMaxHeight],
      vsl_size := vsl_size s + 1, vsl_max_height := max h (vsl_max_height s)\<rparr>)"
proof -
  let ?m = "vsl_max_height s"
  have mono: "key_mono s lt" unfolding lt_def by (rule key_mono_node_less)
  note D = vsl_descend [OF assms(1) mono]
  have m: "0 < ?m" "?m \<le> kMaxHeight" using assms(1) by (simp_all add: vsl_ok_def)
  have h: "1 \<le> h" "h \<le> kMaxHeight" using random_height_bounds [of 1] by (simp_all add: h_def kMaxHeight_def)
  define found where "found = descend lt (vsl_levels s) ?m None @ replicate (h - ?m) (None, [])"
  have low: "found ! i = (last_opt (takeWhile lt (vsl_levels s ! i)), dropWhile lt (vsl_levels s ! i))" if "i < ?m" for i
    using D that by (simp add: found_def nth_append)
  have high: "found ! i = (None, [])" if "\<not> i < ?m" "i < h" for i
    using D that by (simp add: found_def nth_append)
  have lvl: "chain_upto (fst (found ! i)) (vsl_levels s ! i) @ length (vsl_nodes s) # snd (found ! i) =
      insert_at lt (length (vsl_nodes s)) (vsl_levels s ! i)" if "i < h" for i
  proof (cases "i < ?m")
    case True
    then have i: "i < kMaxHeight" using m by simp
    have "distinct (vsl_levels s ! i)" by (rule prefix_closed_level(1) [OF assms(1) i mono])
    from chain_at_last_opt [OF this, of lt] show ?thesis
      unfolding low [OF True] insert_at_def by (simp add: level_walk [OF assms(1) i mono])
  next
    case False
    then have "vsl_levels s ! i = []" using that h by (intro level_above_max [OF assms(1)]) simp_all
    then show ?thesis using high [OF False that] by (simp add: insert_at_def chain_upto_def)
  qed
  have older: "(case snd (found ! 0) of [] \<Rightarrow> None
      | succ # _ \<Rightarrow> if same_version_key (node_at s succ) key then Some succ else None) = older_link s key"
    unfolding low [OF m(1)] using level_walk(2) [OF assms(1) _ mono, of 0]
    by (simp add: older_link_def lt_def kMaxHeight_def)
  have levels: "map (\<lambda>i. if i < h then chain_upto (fst (found ! i)) (vsl_levels s ! i) @ length (vsl_nodes s) # snd (found ! i)
        else vsl_levels s ! i) [0..<kMaxHeight] =
      map (\<lambda>i. if i < h then insert_at lt (length (vsl_nodes s)) (vsl_levels s ! i) else vsl_levels s ! i) [0..<kMaxHeight]"
    using lvl by simp
  have "vsl_Insert key v txn s = (True, s\<lparr>vsl_rnd := vsl_rnd s + 1,
      vsl_nodes := vsl_nodes s @ [(LFNode_new key v h txn)\<lparr>n_older := (case snd (found ! 0) of [] \<Rightarrow> None
        | succ # _ \<Rightarrow> if same_version_key (node_at s succ) key then Some succ else None)\<rparr>],
      vsl_levels := map (\<lambda>i. if i < h then chain_upto (fst (found ! i)) (vsl_levels s ! i) @
        length (vsl_nodes s) # snd (found ! i) else vsl_levels s ! i) [0..<kMaxHeight],
      vsl_size := vsl_size s + 1, vsl_max_height := (if ?m < h then h else ?m)\<rparr>)"
    unfolding vsl_Insert_def RandomHeight_def found_def h_def lt_def
    by (simp add: Let_def cong: if_cong list.case_cong)
  then show ?thesis unfolding older levels by (simp add: max_def)
qed

lemma vsl_Insert_fields:
  assumes "vsl_ok s" and s'_def: "s' = snd (vsl_Insert key v txn s)"
  shows "vsl_nodes s' = vsl_nodes s @ [(LFNode_new key v (random_height_loop 1 (vsl_rnd s)) txn)\<lparr>n_older := older_link s key\<rparr>]"
    "bottom s' = insert_at (\<lambda>a. node_less (node_at s a) key) (length (vsl_nodes s)) (bottom s)"
    "vsl_size s' = vsl_size s + 1"
    "Suc i < kMaxHeight \<Longrightarrow> vsl_levels s' ! Suc i = (if Suc i < random_height_loop 1 (vsl_rnd s)
       then insert_at (\<lambda>a. node_less (node_at s a) key) (length (vsl_nodes s)) (vsl_levels s ! Suc i)
       else vsl_levels s ! Suc i)"
    "length (vsl_levels s') = kMaxHeight"
    "vsl_max_height s' = max (random_height_loop 1 (vsl_rnd s)) (vsl_max_height s)"
proof -
  have "0 < kMaxHeight" "0 < random_height_loop 1 (vsl_rnd s)"
    using random_height_bounds [of 1 "vsl_rnd s"] by (simp_all add: kMaxHeight_def)
  then show "vsl_nodes s' = vsl_nodes s @ [(LFNode_new key v (random_height_loop 1 (vsl_rnd s)) txn)\<lparr>n_older := older_link s key\<rparr>]"
    "bottom s' = insert_at (\<lambda>a. node_less (node_at s a) key) (length (vsl_nodes s)) (bottom s)"
    "vsl_size s' = vsl_size s + 1"
    "Suc i < kMaxHeight \<Longrightarrow> vsl_levels s' ! Suc i = (if Suc i < random_height_loop 1 (vsl_rnd s)
       then insert_at (\<lambda>a. node_less (node_at s a) key) (length (vsl_nodes s)) (vsl_levels s ! Suc i)
       else vsl_levels s ! Suc i)"
    "length (vsl_levels s') = kMaxHeight"
    "vsl_max_height s' = max (random_height_loop 1 (vsl_rnd s)) (vsl_max_height s)"
    by (simp_all add: s'_def vsl_Insert_eq [OF assms(1)])
qed

lemma insert_at_filter:
  "filter P (insert_at lt new chain) =
     (if P new then insert_at lt new (filter P chain) else filter P chain)"
  if "prefix_closed lt chain"
proof -
  have "filter P chain = filter lt (filter P chain) @ filter (\<lambda>a. \<not> lt a) (filter P chain)"
  proof -
    have "prefix_closed lt (filter P chain)"
      using that unfolding prefix_closed_def by (rule sorted_wrt_filter)
    from prefix_closed_filter [OF this] show ?thesis by (metis takeWhile_dropWhile_id)
  qed
  moreover have "filter P (filter lt chain) = filter lt (filter P chain)"
    "filter P (filter (\<lambda>a. \<not> lt a) chain) = filter (\<lambda>a. \<not> lt a) (filter P chain)"
    unfolding filter_filter by (simp_all add: conj_commute)
  ultimately show ?thesis by (simp only: insert_at_def filter_append filter.simps split: if_split) simp
qed

lemma set_insert_at: "set (insert_at lt new chain) = insert new (set chain)"
  by (auto simp: insert_at_def)

lemma distinct_insert_at: "distinct chain \<Longrightarrow> new \<notin> set chain \<Longrightarrow> distinct (insert_at lt new chain)"
  unfolding insert_at_def by (simp add: disjoint_iff)

lemma Insert_nodes:
  assumes "vsl_ok s" "s' = snd (vsl_Insert key v txn s)"
  shows "length (vsl_nodes s') = Suc (length (vsl_nodes s))"
    "a < length (vsl_nodes s) \<Longrightarrow> node_at s' a = node_at s a"
    "node_key (node_at s' (length (vsl_nodes s))) = search_key key"
    "n_height (node_at s' (length (vsl_nodes s))) = random_height_loop 1 (vsl_rnd s)"
  by (simp_all add: vsl_Insert_fields(1) [OF assms] nth_append LFNode_new_def node_key_def search_key_def)

lemma Insert_sorted:
  assumes ok: "vsl_ok s" and s': "s' = snd (vsl_Insert key v txn s)"
  shows "sorted (map (\<lambda>a. node_key (node_at s' a)) (bottom s'))"
proof -
  let ?lt = "\<lambda>a. node_less (node_at s a) key" and ?n = "length (vsl_nodes s)"
  have B: "set (bottom s) = {..<?n}" "sorted (map (\<lambda>a. node_key (node_at s a)) (bottom s))"
    using ok by (simp_all add: vsl_ok_def)
  have eq: "map (\<lambda>a. node_key (node_at s' a)) (filter P (bottom s)) = map (\<lambda>a. node_key (node_at s a)) (filter P (bottom s))" for P
    using B(1) Insert_nodes(2) [OF ok s'] by simp
  have "sorted (map (\<lambda>a. node_key (node_at s a)) (filter P (bottom s)))" for P using B(2) by (rule sorted_filter)
  moreover have lo: "?lt a \<Longrightarrow> node_key (node_at s a) \<le> search_key key" for a by (simp add: node_less_key)
  moreover have hi: "\<not> ?lt a \<Longrightarrow> search_key key \<le> node_key (node_at s a)" for a by (simp add: node_less_key)
  moreover have "?lt a \<Longrightarrow> \<not> ?lt b \<Longrightarrow> node_key (node_at s a) \<le> node_key (node_at s b)" for a b
    using lo hi order_trans by blast
  ultimately show ?thesis
    unfolding vsl_Insert_fields(2) [OF ok s'] insert_at_def map_append list.map eq Insert_nodes(3) [OF ok s']
    by (auto simp: sorted_append)
qed

lemma Insert_levels:
  assumes ok: "vsl_ok s" and s': "s' = snd (vsl_Insert key v txn s)" and i: "Suc i < kMaxHeight"
  shows "vsl_levels s' ! Suc i = filter (\<lambda>a. Suc i < n_height (node_at s' a)) (bottom s')"
proof -
  let ?lt = "\<lambda>a. node_less (node_at s a) key"
  have set: "set (bottom s) = {..<length (vsl_nodes s)}" using ok by (simp add: vsl_ok_def)
  have pc: "prefix_closed ?lt (bottom s)"
    by (rule prefix_closed_level(2) [OF ok _ key_mono_node_less]) (simp add: kMaxHeight_def)
  have "filter (\<lambda>a. Suc i < n_height (node_at s' a)) (bottom s) = filter (\<lambda>a. Suc i < n_height (node_at s a)) (bottom s)"
    using set Insert_nodes(2) [OF ok s'] by (intro filter_cong) auto
  also have "\<dots> = vsl_levels s ! Suc i" by (rule level_filter [OF ok i, symmetric])
  finally show ?thesis
    unfolding vsl_Insert_fields(2) [OF ok s'] vsl_Insert_fields(4) [OF ok s' i] insert_at_filter [OF pc]
    by (simp add: Insert_nodes(4) [OF ok s'])
qed

lemma vsl_ok_Insert:
  assumes ok: "vsl_ok s"
  shows "vsl_ok (snd (vsl_Insert key v txn s))"
proof -
  define s' where s': "s' = snd (vsl_Insert key v txn s)"
  let ?n = "length (vsl_nodes s)"
  note N = Insert_nodes [OF ok s'] and F = vsl_Insert_fields [OF ok s']
  have B: "distinct (bottom s)" "set (bottom s) = {..<?n}" and m: "vsl_max_height s \<le> kMaxHeight"
    and H: "\<And>a. a < ?n \<Longrightarrow> 1 \<le> n_height (node_at s a) \<and> n_height (node_at s a) \<le> vsl_max_height s"
    using ok by (simp_all add: vsl_ok_def)
  have h: "1 \<le> random_height_loop 1 (vsl_rnd s)" "random_height_loop 1 (vsl_rnd s) \<le> kMaxHeight"
    using random_height_bounds [of 1] by (simp_all add: kMaxHeight_def)
  have hts: "1 \<le> n_height (node_at s' a) \<and> n_height (node_at s' a) \<le> vsl_max_height s'" if "a < length (vsl_nodes s')" for a
  proof (cases "a = ?n")
    case True
    then show ?thesis using N(4) h(1) F(6) by simp
  next
    case False
    then have "a < ?n" using that N(1) by simp
    with H [OF this] N(2) [OF this] F(6) show ?thesis by (simp add: le_max_iff_disj)
  qed
  show ?thesis
    unfolding s' [symmetric] vsl_ok_def
  proof (intro conjI allI impI)
    show "1 \<le> vsl_max_height s'" "vsl_max_height s' \<le> kMaxHeight" using F(6) h m by simp_all
    show "distinct (bottom s')" "set (bottom s') = {..<length (vsl_nodes s')}"
      unfolding F(2) N(1) using B by (simp_all add: distinct_insert_at set_insert_at lessThan_Suc)
    show "length (vsl_levels s') = kMaxHeight" by (rule F(5))
    show "sorted (map (\<lambda>a. node_key (node_at s' a)) (bottom s'))" by (rule Insert_sorted [OF ok s'])
    show "vsl_levels s' ! Suc i = filter (\<lambda>a. Suc i < n_height (node_at s' a)) (bottom s')" if "Suc i < kMaxHeight" for i
      by (rule Insert_levels [OF ok s' that])
    show "1 \<le> n_height (node_at s' a)" "n_height (node_at s' a) \<le> vsl_max_height s'" if "a < length (vsl_nodes s')" for a
      using hts [OF that] by simp_all
  qed
qed

subsection \<open>Reads\<close>

lemma takeWhile_eq_filter_sorted:
  "sorted (map f xs) \<Longrightarrow> takeWhile (\<lambda>a. f a = e) (dropWhile (\<lambda>a. f a < e) xs) = filter (\<lambda>a. f a = e) xs"
  for f :: "'a \<Rightarrow> 'b::linorder"
proof (induction xs)
  case (Cons x xs)
  consider "f x < e" | "f x = e" | "e < f x" by fastforce
  then show ?case
  proof cases
    case 2
    then have "dropWhile (\<lambda>a. f a < e) xs = xs" using Cons.prems by (cases xs) auto
    then show ?thesis using Cons 2 by simp
  next
    case 3
    then have "filter (\<lambda>a. f a = e) xs = []" using Cons.prems by (auto simp: filter_empty_conv)
    then show ?thesis using 3 by auto
  qed (use Cons in simp)
qed simp

lemma sorted_entity: "vsl_ok s \<Longrightarrow> sorted (map (\<lambda>a. n_entity_id (node_at s a)) (bottom s))"
proof -
  assume "vsl_ok s"
  then have "sorted_wrt (\<lambda>a b. node_key (node_at s a) \<le> node_key (node_at s b)) (bottom s)"
    by (simp add: vsl_ok_def sorted_map)
  then show ?thesis unfolding sorted_map by (rule sorted_wrt_mono_rel [rotated]) (auto simp: node_key_def)
qed

lemma entity_nodes_eq:
  "vsl_ok s \<Longrightarrow> entity_nodes eid s = filter (\<lambda>a. n_entity_id (node_at s a) = eid) (bottom s)"
  using takeWhile_eq_filter_sorted [OF sorted_entity] by (simp add: entity_nodes_def entity_start_eq)

lemma find_filter: "find P (filter Q xs) = find (\<lambda>x. Q x \<and> P x) xs"
  by (induction xs) auto

lemma find_append: "find P (xs @ ys) = (case find P xs of Some x \<Rightarrow> Some x | None \<Rightarrow> find P ys)"
  by (induction xs) auto

text \<open>The versions of one user key: entity, column, target and type.\<close>

definition key_match :: "u64 \<Rightarrow> u8 \<Rightarrow> u16 \<Rightarrow> u64 \<Rightarrow> lf_node \<Rightarrow> bool" where
  "key_match eid etype col target n \<longleftrightarrow> n_entity_id n = eid \<and> n_column_id n = col \<and> n_target_id n = target \<and>
     n_entity_type n = etype"

lemma FindLatestVersion_target_eq:
  "vsl_ok s \<Longrightarrow> FindLatestVersion_target eid etype col target s =
     find (\<lambda>a. key_match eid etype col target (node_at s a)) (bottom s)"
  by (simp add: FindLatestVersion_target_def entity_nodes_eq find_filter key_match_def)

subsection \<open>Histories\<close>

type_synonym put_history = "(cedar_key \<times> descriptor \<times> timestamp) list"

definition vsl_run :: "put_history \<Rightarrow> locked_vsl" where
  "vsl_run hs = foldl (\<lambda>s (k, d, x). snd (vsl_Insert k d x s)) LockedVSL_new hs"

lemma vsl_run_snoc: "vsl_run (hs @ [(k, d, x)]) = snd (vsl_Insert k d x (vsl_run hs))"
  by (simp add: vsl_run_def)

lemma vsl_ok_run: "vsl_ok (vsl_run hs)"
proof (induction hs rule: rev_induct)
  case Nil
  then show ?case by (simp add: vsl_run_def vsl_ok_new)
next
  case (snoc h hs)
  then show ?case by (cases h) (simp add: vsl_run_snoc vsl_ok_Insert)
qed


lemma insert_at_split:
  "prefix_closed lt chain \<Longrightarrow> filter lt chain @ filter (\<lambda>a. \<not> lt a) chain = chain"
  using prefix_closed_filter by (metis takeWhile_dropWhile_id)

lemma bottom_prefix_closed: "vsl_ok s \<Longrightarrow> prefix_closed (\<lambda>a. node_less (node_at s a) key) (bottom s)"
  by (rule prefix_closed_level(2) [OF _ _ key_mono_node_less]) (simp_all add: kMaxHeight_def)

lemma bottom_less: "vsl_ok s \<Longrightarrow> a \<in> set (bottom s) \<Longrightarrow> a < length (vsl_nodes s)"
  by (simp add: vsl_ok_def)

lemma find_cong_set: "(\<And>x. x \<in> set xs \<Longrightarrow> P x = Q x) \<Longrightarrow> find P xs = find Q xs"
  by (induction xs) auto

lemma Insert_find_old:
  assumes ok: "vsl_ok s" and s': "s' = snd (vsl_Insert key v txn s)"
  shows "find (\<lambda>a. P (node_at s' a)) (filter Q (bottom s)) = find (\<lambda>a. P (node_at s a)) (filter Q (bottom s))"
  using Insert_nodes(2) [OF ok s'] bottom_less [OF ok] by (intro find_cong_set) simp

lemma find_SomeD: "find P xs = Some x \<Longrightarrow> P x \<and> x \<in> set xs"
  by (auto simp: find_Some_iff)

text \<open>The first node of a user key after an insertion.\<close>

lemma Insert_find:
  assumes ok: "vsl_ok s" and s': "s' = snd (vsl_Insert key v txn s)" and P_def: "P = key_match eid etype col target"
  shows "find (\<lambda>a. P (node_at s' a)) (bottom s') =
    (if P (LFNode_new key v 0 txn) \<and> (case find (\<lambda>a. P (node_at s a)) (bottom s) of
          None \<Rightarrow> True | Some a \<Rightarrow> n_timestamp (node_at s a) \<le> timestamp_of key)
     then Some (length (vsl_nodes s)) else find (\<lambda>a. P (node_at s a)) (bottom s))"
proof -
  let ?lt = "\<lambda>a. node_less (node_at s a) key" and ?n = "length (vsl_nodes s)"
  let ?lo = "find (\<lambda>a. P (node_at s a)) (filter ?lt (bottom s))"
    and ?hi = "find (\<lambda>a. P (node_at s a)) (filter (\<lambda>a. \<not> ?lt a) (bottom s))"
  have old: "find (\<lambda>a. P (node_at s a)) (bottom s) = (case ?lo of Some x \<Rightarrow> Some x | None \<Rightarrow> ?hi)"
    by (subst insert_at_split [OF bottom_prefix_closed [OF ok, of key], symmetric]) (simp only: find_append)
  have new: "P (node_at s' ?n) \<longleftrightarrow> P (LFNode_new key v 0 txn)"
    by (simp add: vsl_Insert_fields(1) [OF ok s'] P_def key_match_def LFNode_new_def)
  have res: "find (\<lambda>a. P (node_at s' a)) (bottom s') =
      (case ?lo of Some x \<Rightarrow> Some x | None \<Rightarrow> if P (LFNode_new key v 0 txn) then Some ?n else ?hi)"
    unfolding vsl_Insert_fields(2) [OF ok s'] insert_at_def
    by (simp add: find_append Insert_find_old [OF ok s'] new split: option.split)
  have lo: "timestamp_of key < n_timestamp (node_at s a)" if "?lo = Some a" "P (LFNode_new key v 0 txn)" for a
    using find_SomeD [OF that(1)] that(2) by (auto simp: P_def key_match_def LFNode_new_def node_less_def)
  have hi: "n_timestamp (node_at s a) \<le> timestamp_of key" if "?hi = Some a" "P (LFNode_new key v 0 txn)" for a
    using find_SomeD [OF that(1)] that(2) by (auto simp: P_def key_match_def LFNode_new_def node_less_def)
  show ?thesis
  proof (cases ?lo)
    case None
    then show ?thesis unfolding res old using hi by (auto split: option.split)
  next
    case (Some a)
    then show ?thesis unfolding res old using lo [OF Some] by auto
  qed
qed

subsection \<open>The newest version\<close>

text \<open>The entry with the greatest timestamp among those of a user key; the later one of equal ones.\<close>

definition newest_put :: "(lf_node \<Rightarrow> bool) \<Rightarrow> put_history \<Rightarrow> (timestamp \<times> descriptor) option" where
  "newest_put P hs = foldl (\<lambda>acc (k, d, x).
     if P (LFNode_new k d 0 x) \<and> (case acc of None \<Rightarrow> True | Some (t, _) \<Rightarrow> t \<le> timestamp_of k)
     then Some (timestamp_of k, d) else acc) None hs"

lemma newest_put_snoc:
  "newest_put P (hs @ [(k, d, x)]) =
     (if P (LFNode_new k d 0 x) \<and> (case newest_put P hs of None \<Rightarrow> True | Some (t, _) \<Rightarrow> t \<le> timestamp_of k)
      then Some (timestamp_of k, d) else newest_put P hs)"
  by (simp add: newest_put_def)

lemma newest_run:
  "map_option (\<lambda>a. (n_timestamp (node_at (vsl_run hs) a), n_descriptor (node_at (vsl_run hs) a)))
     (find (\<lambda>a. key_match eid etype col target (node_at (vsl_run hs) a)) (bottom (vsl_run hs))) =
   newest_put (key_match eid etype col target) hs"
proof (induction hs rule: rev_induct)
  case Nil
  then show ?case by (simp add: vsl_run_def newest_put_def LockedVSL_new_def kMaxHeight_def)
next
  case (snoc h hs)
  obtain k d x where h: "h = (k, d, x)" by (metis prod.exhaust)
  let ?P = "key_match eid etype col target" and ?s = "vsl_run hs"
  define s' where s': "s' = snd (vsl_Insert k d x ?s)"
  note ok = vsl_ok_run [of hs]
  let ?f = "find (\<lambda>a. ?P (node_at ?s a)) (bottom ?s)"
  have old: "node_at s' a = node_at ?s a" if "?f = Some a" for a
    using find_SomeD [OF that] bottom_less [OF ok] Insert_nodes(2) [OF ok s'] by blast
  have new: "n_timestamp (node_at s' (length (vsl_nodes ?s))) = timestamp_of k"
    "n_descriptor (node_at s' (length (vsl_nodes ?s))) = d"
    by (simp_all add: vsl_Insert_fields(1) [OF ok s'] LFNode_new_def)
  have "newest_put ?P (hs @ [h]) = (if ?P (LFNode_new k d 0 x) \<and>
      (case newest_put ?P hs of None \<Rightarrow> True | Some (t, _) \<Rightarrow> t \<le> timestamp_of k)
      then Some (timestamp_of k, d) else newest_put ?P hs)"
    unfolding h by (rule newest_put_snoc)
  then show ?case
    unfolding h vsl_run_snoc s' [symmetric] Insert_find [OF ok s' refl] snoc [symmetric]
    using old new by (auto split: option.splits)
qed

lemma newest_put_bound:
  "newest_put P hs = Some (t, d) \<Longrightarrow> \<exists>k x. (k, d, x) \<in> set hs \<and> P (LFNode_new k d 0 x) \<and> timestamp_of k = t"
  by (induction hs arbitrary: t d rule: rev_induct)
    (auto simp: newest_put_snoc split: if_splits option.splits, auto simp: newest_put_def)

text \<open>When the puts of one value \<open>d\<close> end the history and one of them is as new as everything before, the newest
  version has this value.\<close>

lemma newest_put_tail:
  assumes "\<forall>(k', d', x') \<in> set hs. P (LFNode_new k' d' 0 x') \<longrightarrow> timestamp_of k' \<le> timestamp_of k"
    "k \<in> set ks" "P (LFNode_new k d 0 x)"
  shows "\<exists>t. newest_put P (hs @ map (\<lambda>k. (k, d, x)) ks) = Some (t, d)"
proof -
  let ?h = "\<lambda>ks. hs @ map (\<lambda>k. (k, d, x)) ks"
  have "(case newest_put P (?h ks) of None \<Rightarrow> True | Some (t', d') \<Rightarrow> d' = d \<or> t' \<le> timestamp_of k)
      \<and> (k \<in> set ks \<longrightarrow> map_option snd (newest_put P (?h ks)) = Some d)"
  proof (induction ks rule: rev_induct)
    case Nil
    then show ?case using assms(1) newest_put_bound [of P hs] by (fastforce split: option.splits)
  next
    case (snoc k' ks)
    have "?h (ks @ [k']) = ?h ks @ [(k', d, x)]" by simp
    note eq = this newest_put_snoc
    show ?case using snoc assms(3) unfolding eq by (auto split: option.splits)
  qed
  then show ?thesis using assms(2) by auto
qed

lemma GetLatest_run:
  "vsl_GetLatest_target eid etype col target (vsl_run hs) =
     map_option snd (newest_put (key_match eid etype col target) hs)"
  unfolding vsl_GetLatest_target_def FindLatestVersion_target_eq [OF vsl_ok_run] newest_run [symmetric]
  by (simp add: node_value_def option.map_comp comp_def)

text \<open>C10. The skip list always finds the newest version: after any sequence of insertions, in any order
  of timestamps and with any tower heights, the latest read of a user key returns the value with
  the greatest timestamp inserted for that entity, column, target and type, the last one among equal
  timestamps, and nothing exactly when there is none.\<close>

theorem vsl_latest_is_newest:
  "vsl_GetLatest_target eid etype col target (vsl_run hs) =
     map_option snd (newest_put (key_match eid etype col target) hs)"
  by (rule GetLatest_run)

lemma vsl_run_length: "length (vsl_nodes (vsl_run hs)) = length hs"
proof (induction hs rule: rev_induct)
  case Nil
  then show ?case by (simp add: vsl_run_def LockedVSL_new_def)
next
  case (snoc h hs)
  then show ?case by (cases h) (simp add: vsl_run_snoc Insert_nodes(1) [OF vsl_ok_run])
qed

lemma vsl_okD:
  assumes "vsl_ok s"
  shows "length (vsl_levels s) = kMaxHeight" "vsl_max_height s \<le> kMaxHeight" "distinct (bottom s)"
    "set (bottom s) = {..<length (vsl_nodes s)}" "sorted (map (\<lambda>a. node_key (node_at s a)) (bottom s))"
  using assms by (simp_all only: vsl_ok_def)

text \<open>C21. The skip list stays well formed: after any sequence of insertions, with any tower heights, there is one node per
  insertion, the bottom level holds each of them once and in key order, and every level above holds, in the same order, the
  nodes whose towers reach it, up to the current height and no further.\<close>

theorem vsl_towers_well_formed:
  "length (vsl_nodes (vsl_run hs)) = length hs \<and> distinct (bottom (vsl_run hs)) \<and> set (bottom (vsl_run hs)) = {..<length hs} \<and>
   sorted (map (\<lambda>a. node_key (node_at (vsl_run hs) a)) (bottom (vsl_run hs))) \<and>
   vsl_levels (vsl_run hs) =
     map (\<lambda>i. filter (\<lambda>a. i < n_height (node_at (vsl_run hs) a)) (bottom (vsl_run hs))) [0..<kMaxHeight] \<and>
   drop (vsl_max_height (vsl_run hs)) (vsl_levels (vsl_run hs)) = replicate (kMaxHeight - vsl_max_height (vsl_run hs)) []"
proof -
  let ?s = "vsl_run hs"
  note ok = vsl_ok_run [of hs]
  note l = vsl_okD(1,2) [OF ok]
  have "vsl_levels ?s = map (\<lambda>i. filter (\<lambda>a. i < n_height (node_at ?s a)) (bottom ?s)) [0..<kMaxHeight]"
  proof (rule nth_equalityI)
    fix i assume "i < length (vsl_levels ?s)"
    then have i: "i < kMaxHeight" by (simp only: l)
    show "vsl_levels ?s ! i = map (\<lambda>i. filter (\<lambda>a. i < n_height (node_at ?s a)) (bottom ?s)) [0..<kMaxHeight] ! i"
      unfolding level_filter [OF ok i] using i by simp
  qed (simp add: l)
  moreover have "drop (vsl_max_height ?s) (vsl_levels ?s) = replicate (kMaxHeight - vsl_max_height ?s) []"
    by (rule nth_equalityI) (use level_above_max [OF ok] in \<open>simp_all add: l\<close>)
  ultimately show ?thesis using vsl_okD(3-5) [OF ok] unfolding vsl_run_length by (intro conjI refl)
qed

subsection \<open>Version chains\<close>

fun linked :: "lf_node list \<Rightarrow> nat list \<Rightarrow> bool" where
  "linked nodes [] = True"
| "linked nodes [a] \<longleftrightarrow> n_older (nodes ! a) = None"
| "linked nodes (a # b # as) \<longleftrightarrow> n_older (nodes ! a) = Some b \<and> linked nodes (b # as)"

lemma skip_newer_linked:
  "linked nodes as \<Longrightarrow> skip_newer nodes ts (case as of [] \<Rightarrow> None | a # _ \<Rightarrow> Some a) =
     Some (find (\<lambda>a. n_timestamp (nodes ! a) \<le> ts) as)"
proof (induction nodes as rule: linked.induct)
  case (2 nodes a)
  then show ?case by (auto simp: skip_newer.simps [of _ _ "Some a"] skip_newer.simps [of _ _ None] not_le)
next
  case (3 nodes a b as)
  then show ?case by (auto simp: skip_newer.simps [of _ _ "Some a"] not_le)
qed (simp add: skip_newer.simps)

text \<open>The nodes of one entity, column and target, newest first.\<close>

definition place_match :: "u64 \<Rightarrow> u16 \<Rightarrow> u64 \<Rightarrow> lf_node \<Rightarrow> bool" where
  "place_match eid col target n \<longleftrightarrow> n_entity_id n = eid \<and> n_column_id n = col \<and> n_target_id n = target"

definition place_group :: "locked_vsl \<Rightarrow> u64 \<Rightarrow> u16 \<Rightarrow> u64 \<Rightarrow> nat list" where
  "place_group s eid col target = filter (\<lambda>a. place_match eid col target (node_at s a)) (bottom s)"

text \<open>The key is not older than any version at its place, and of their type.\<close>

definition in_order :: "locked_vsl \<Rightarrow> cedar_key \<Rightarrow> bool" where
  "in_order s key \<longleftrightarrow> (\<forall>a \<in> set (place_group s (entity_id key) (column_id key) (target_id key)).
     n_timestamp (node_at s a) \<le> timestamp_of key \<and> n_entity_type (node_at s a) = entity_type_f key)"

lemma filter_place_old:
  assumes ok: "vsl_ok s" and s': "s' = snd (vsl_Insert key v txn s)"
  shows "filter (\<lambda>a. place_match e c t (node_at s' a)) (bottom s) = place_group s e c t"
  unfolding place_group_def using Insert_nodes(2) [OF ok s'] bottom_less [OF ok] by (intro filter_cong) simp_all

lemma Insert_group:
  assumes ok: "vsl_ok s" and s': "s' = snd (vsl_Insert key v txn s)" and ord: "in_order s key"
  shows "place_group s' e c t =
    (if place_match e c t (LFNode_new key v 0 txn) then length (vsl_nodes s) # place_group s e c t else place_group s e c t)"
proof -
  let ?lt = "\<lambda>a. node_less (node_at s a) key" and ?n = "length (vsl_nodes s)"
  let ?P = "\<lambda>a. place_match e c t (node_at s' a)"
  have new: "?P ?n \<longleftrightarrow> place_match e c t (LFNode_new key v 0 txn)"
    by (simp add: vsl_Insert_fields(1) [OF ok s'] place_match_def LFNode_new_def)
  have g: "place_group s' e c t = (if ?P ?n then insert_at ?lt ?n (place_group s e c t) else place_group s e c t)"
    unfolding place_group_def [of s'] vsl_Insert_fields(2) [OF ok s'] insert_at_filter [OF bottom_prefix_closed [OF ok]]
      filter_place_old [OF ok s'] by (rule refl)
  have "\<not> ?lt a" if "?P ?n" "a \<in> set (place_group s e c t)" for a
    using that ord unfolding new in_order_def
    by (auto simp: place_match_def LFNode_new_def node_less_def place_group_def)
  then have "?P ?n \<Longrightarrow> insert_at ?lt ?n (place_group s e c t) = ?n # place_group s e c t"
    by (auto simp: insert_at_def filter_empty_conv filter_id_conv)
  then show ?thesis unfolding g using new by simp
qed

lemma older_link_group:
  assumes ok: "vsl_ok s" and ord: "in_order s key"
  shows "older_link s key = (case place_group s (entity_id key) (column_id key) (target_id key) of [] \<Rightarrow> None | a # _ \<Rightarrow> Some a)"
proof -
  let ?ge = "\<lambda>a. \<not> node_less (node_at s a) key"
  let ?P = "\<lambda>a. place_match (entity_id key) (column_id key) (target_id key) (node_at s a)"
  have all: "?P a \<Longrightarrow> a \<in> set (bottom s) \<Longrightarrow> ?ge a \<and> n_entity_type (node_at s a) = entity_type_f key" for a
  proof -
    assume P: "?P a" and "a \<in> set (bottom s)"
    then have "a \<in> set (place_group s (entity_id key) (column_id key) (target_id key))" by (simp add: place_group_def)
    then have "n_timestamp (node_at s a) \<le> timestamp_of key" "n_entity_type (node_at s a) = entity_type_f key"
      using ord unfolding in_order_def by blast+
    then show "?ge a \<and> n_entity_type (node_at s a) = entity_type_f key"
      using P by (simp add: place_match_def node_less_def)
  qed
  have g: "place_group s (entity_id key) (column_id key) (target_id key) = filter ?P (filter ?ge (bottom s))"
    unfolding place_group_def filter_filter by (intro filter_cong refl) (use all in blast)
  have srt: "sorted (map (\<lambda>a. node_key (node_at s a)) (filter ?ge (bottom s)))"
    by (rule sorted_filter) (use ok in \<open>simp add: vsl_ok_def\<close>)
  have mem: "a \<in> set (filter ?ge (bottom s)) \<Longrightarrow> ?ge a \<and> a \<in> set (bottom s)" for a by simp
  show ?thesis
  proof (cases "filter ?ge (bottom s)")
    case (Cons b bs)
    have first: "?P b" if ex: "\<exists>a \<in> set (b # bs). ?P a"
    proof -
      obtain a where a: "a \<in> set (b # bs)" "?P a" using ex by blast
      have "node_key (node_at s b) \<le> node_key (node_at s a)"
        using a(1) srt unfolding Cons by auto
      moreover have "search_key key \<le> node_key (node_at s b)"
        using mem [of b] unfolding Cons by (simp add: node_less_key not_less)
      ultimately show ?thesis using a(2) by (auto simp: place_match_def node_key_def search_key_def)
    qed
    have same: "same_version_key (node_at s b) key \<longleftrightarrow> ?P b"
      using all [of b] mem [of b] unfolding Cons by (auto simp: same_version_key_def place_match_def)
    show ?thesis
    proof (cases "?P b")
      case True
      then show ?thesis unfolding older_link_def g Cons using same by simp
    next
      case False
      then have "filter ?P (b # bs) = []" using first by (auto simp: filter_empty_conv)
      then show ?thesis unfolding older_link_def g Cons using same False by simp
    qed
  qed (simp add: older_link_def g)
qed

lemma linked_cong: "(\<And>a. a \<in> set as \<Longrightarrow> nodes' ! a = nodes ! a) \<Longrightarrow> linked nodes' as = linked nodes as"
  by (induction nodes as rule: linked.induct) simp_all

lemma Insert_linked:
  assumes ok: "vsl_ok s" and s': "s' = snd (vsl_Insert key v txn s)" and ord: "in_order s key"
    and lnk: "linked (vsl_nodes s) (place_group s e c t)"
  shows "linked (vsl_nodes s') (place_group s' e c t)"
proof -
  let ?n = "length (vsl_nodes s)"
  have old: "linked (vsl_nodes s') (place_group s e c t)"
    using lnk linked_cong [of "place_group s e c t" "vsl_nodes s'" "vsl_nodes s"] Insert_nodes(2) [OF ok s'] bottom_less [OF ok]
    by (simp add: place_group_def)
  show ?thesis
  proof (cases "place_match e c t (LFNode_new key v 0 txn)")
    case True
    then have "e = entity_id key" "c = column_id key" "t = target_id key"
      by (auto simp: place_match_def LFNode_new_def)
    then have "n_older (vsl_nodes s' ! ?n) = (case place_group s e c t of [] \<Rightarrow> None | a # _ \<Rightarrow> Some a)"
      using older_link_group [OF ok ord] by (simp add: vsl_Insert_fields(1) [OF ok s'])
    then show ?thesis using old True by (cases "place_group s e c t") (simp_all add: Insert_group [OF ok s' ord])
  qed (use old in \<open>simp add: Insert_group [OF ok s' ord]\<close>)
qed

text \<open>Histories in which the versions of each place arrive in timestamp order and with one type.\<close>

definition ordered_history :: "put_history \<Rightarrow> bool" where
  "ordered_history hs \<longleftrightarrow> sorted_wrt (\<lambda>(k, _) (k', _). entity_id k = entity_id k' \<and> column_id k = column_id k' \<and>
     target_id k = target_id k' \<longrightarrow> timestamp_of k \<le> timestamp_of k' \<and> entity_type_f k = entity_type_f k') hs"

lemma run_node:
  "length (vsl_nodes (vsl_run hs)) = length hs \<and>
   (\<forall>i < length hs. \<exists>h p. node_at (vsl_run hs) i =
      (LFNode_new (fst (hs ! i)) (fst (snd (hs ! i))) h (snd (snd (hs ! i))))\<lparr>n_older := p\<rparr>)"
proof (induction hs rule: rev_induct)
  case Nil
  then show ?case by (simp add: vsl_run_def LockedVSL_new_def)
next
  case (snoc x hs)
  obtain k d t where x: "x = (k, d, t)" by (metis prod.exhaust)
  note F = vsl_Insert_fields(1) [OF vsl_ok_run [of hs] refl, of k d t]
  show ?case unfolding x vsl_run_snoc F using snoc by (auto simp: nth_append less_Suc_eq)
qed

lemma run_in_order: "ordered_history (hs @ [(k, d, x)]) \<Longrightarrow> in_order (vsl_run hs) k"
  unfolding in_order_def
proof
  fix a assume ord: "ordered_history (hs @ [(k, d, x)])"
    and a: "a \<in> set (place_group (vsl_run hs) (entity_id k) (column_id k) (target_id k))"
  have less: "a < length hs" using a bottom_less [OF vsl_ok_run [of hs]] run_node [of hs] by (auto simp: place_group_def)
  obtain k' d' x' where h: "hs ! a = (k', d', x')" by (metis prod.exhaust)
  then obtain ht p where n: "node_at (vsl_run hs) a = (LFNode_new k' d' ht x')\<lparr>n_older := p\<rparr>"
    using run_node [of hs] less by fastforce
  have "(k', d', x') \<in> set hs" using less h nth_mem by force
  then show "n_timestamp (node_at (vsl_run hs) a) \<le> timestamp_of k \<and> n_entity_type (node_at (vsl_run hs) a) = entity_type_f k"
    using ord a unfolding n ordered_history_def
    by (auto simp: sorted_wrt_append place_group_def n place_match_def LFNode_new_def)
qed

lemma ordered_historyD:
  assumes "ordered_history (hs @ [(k, d, x)])"
  shows "ordered_history hs"
  using assms by (simp add: ordered_history_def sorted_wrt_append)

lemma run_group_types:
  assumes "ordered_history hs" "a \<in> set (place_group (vsl_run hs) e c t)" "b \<in> set (place_group (vsl_run hs) e c t)"
  shows "n_entity_type (node_at (vsl_run hs) a) = n_entity_type (node_at (vsl_run hs) b)"
  using assms
proof (induction hs arbitrary: a b rule: rev_induct)
  case Nil
  then show ?case by (simp add: place_group_def vsl_run_def LockedVSL_new_def kMaxHeight_def)
next
  case (snoc x hs)
  obtain k d v where x: "x = (k, d, v)" by (metis prod.exhaust)
  note ok = vsl_ok_run [of hs] and ord = run_in_order [OF snoc.prems(1) [unfolded x]]
  let ?s = "vsl_run hs" and ?n = "length (vsl_nodes (vsl_run hs))"
  define s' where s': "s' = snd (vsl_Insert k d v ?s)"
  have g: "place_group s' e c t = (if place_match e c t (LFNode_new k d 0 v) then ?n # place_group ?s e c t else place_group ?s e c t)"
    by (rule Insert_group [OF ok s' ord])
  have old: "n_entity_type (node_at s' a) = n_entity_type (node_at ?s a)" if "a \<in> set (place_group ?s e c t)" for a
    using that Insert_nodes(2) [OF ok s'] bottom_less [OF ok] by (simp add: place_group_def)
  have ty: "n_entity_type (node_at ?s a) = entity_type_f k"
    if "a \<in> set (place_group ?s e c t)" "place_match e c t (LFNode_new k d 0 v)" for a
    using that ord by (auto simp: in_order_def place_match_def LFNode_new_def)
  have new: "n_entity_type (node_at s' ?n) = entity_type_f k"
    by (simp add: vsl_Insert_fields(1) [OF ok s'] LFNode_new_def)
  have IH: "n_entity_type (node_at ?s a) = n_entity_type (node_at ?s b)"
    if "a \<in> set (place_group ?s e c t)" "b \<in> set (place_group ?s e c t)" for a b
    by (rule snoc.IH [OF ordered_historyD [OF snoc.prems(1) [unfolded x]] that])
  have ab: "a \<in> set (place_group s' e c t)" "b \<in> set (place_group s' e c t)"
    using snoc.prems(2,3) unfolding x vsl_run_snoc s' .
  have "n_entity_type (node_at s' a) = n_entity_type (node_at s' b)"
  proof (cases "place_match e c t (LFNode_new k d 0 v)")
    case True
    have "n_entity_type (node_at s' z) = entity_type_f k" if z: "z \<in> set (place_group s' e c t)" for z
    proof (cases "z = ?n")
      case False
      then have "z \<in> set (place_group ?s e c t)" using z True by (simp add: g)
      then show ?thesis using old [of z] ty [of z] True by simp
    qed (simp add: new)
    then show ?thesis using ab by simp
  next
    case False
    then have old_ab: "a \<in> set (place_group ?s e c t)" "b \<in> set (place_group ?s e c t)" using ab by (simp_all add: g)
    show ?thesis unfolding old [OF old_ab(1)] old [OF old_ab(2)] by (rule IH [OF old_ab])
  qed
  then show ?case unfolding x vsl_run_snoc s' .
qed

lemma run_linked: "ordered_history hs \<Longrightarrow> linked (vsl_nodes (vsl_run hs)) (place_group (vsl_run hs) e c t)"
proof (induction hs rule: rev_induct)
  case Nil
  then show ?case by (simp add: place_group_def vsl_run_def LockedVSL_new_def kMaxHeight_def)
next
  case (snoc x hs)
  obtain k d v where x: "x = (k, d, v)" by (metis prod.exhaust)
  show ?case
    unfolding x vsl_run_snoc
    by (rule Insert_linked [OF vsl_ok_run refl run_in_order [OF snoc.prems [unfolded x]]
          snoc.IH [OF ordered_historyD [OF snoc.prems [unfolded x]]]])
qed

lemma key_match_place: "key_match e ty c t n \<longleftrightarrow> place_match e c t n \<and> n_entity_type n = ty"
  by (auto simp: key_match_def place_match_def)

lemma GetAtTime_group:
  assumes "ordered_history hs"
  shows "vsl_GetAtTime_target e ty c t ts (vsl_run hs) = Some (node_value (vsl_run hs)
    (find (\<lambda>a. n_entity_type (node_at (vsl_run hs) a) = ty \<and> n_timestamp (node_at (vsl_run hs) a) \<le> ts)
       (place_group (vsl_run hs) e c t)))"
proof -
  let ?s = "vsl_run hs" and ?g = "place_group (vsl_run hs) e c t"
  have start: "FindLatestVersion_target e ty c t ?s = find (\<lambda>a. n_entity_type (node_at ?s a) = ty) ?g"
    by (simp add: FindLatestVersion_target_eq [OF vsl_ok_run] key_match_place place_group_def find_filter)
  show ?thesis
  proof (cases ?g)
    case Nil
    then show ?thesis by (simp add: vsl_GetAtTime_target_def start skip_newer.simps)
  next
    case (Cons a as)
    have same: "n_entity_type (node_at ?s b) = n_entity_type (node_at ?s a)" if "b \<in> set ?g" for b
      using run_group_types [OF assms that, of a] Cons by simp
    show ?thesis
    proof (cases "n_entity_type (node_at ?s a) = ty")
      case True
      have "find (\<lambda>a. n_entity_type (node_at ?s a) = ty \<and> n_timestamp (node_at ?s a) \<le> ts) ?g =
          find (\<lambda>a. n_timestamp (node_at ?s a) \<le> ts) ?g"
        using same True by (intro find_cong_set) simp
      then show ?thesis
        using skip_newer_linked [OF run_linked [OF assms, of e c t], of ts] True
        by (simp add: vsl_GetAtTime_target_def start Cons)
    next
      case False
      then have "find (\<lambda>a. n_entity_type (node_at ?s a) = ty \<and> n_timestamp (node_at ?s a) \<le> ts) ?g = None"
        "find (\<lambda>a. n_entity_type (node_at ?s a) = ty) ?g = None"
        using same by (auto simp: find_None_iff)
      then show ?thesis by (simp add: vsl_GetAtTime_target_def start skip_newer.simps)
    qed
  qed
qed

text \<open>The last inserted version of a user key that is not newer than a timestamp.\<close>

definition put_at_time :: "(lf_node \<Rightarrow> bool) \<Rightarrow> timestamp \<Rightarrow> put_history \<Rightarrow> descriptor option" where
  "put_at_time P ts hs =
     map_option (\<lambda>(k, d, x). d) (find (\<lambda>(k, d, x). P (LFNode_new k d 0 x) \<and> timestamp_of k \<le> ts) (rev hs))"

lemma group_put_at_time:
  "ordered_history hs \<Longrightarrow> node_value (vsl_run hs)
    (find (\<lambda>a. n_entity_type (node_at (vsl_run hs) a) = ty \<and> n_timestamp (node_at (vsl_run hs) a) \<le> ts)
       (place_group (vsl_run hs) e c t)) = put_at_time (key_match e ty c t) ts hs"
proof (induction hs rule: rev_induct)
  case Nil
  then show ?case by (simp add: place_group_def vsl_run_def LockedVSL_new_def kMaxHeight_def node_value_def put_at_time_def)
next
  case (snoc x hs)
  obtain k d v where x: "x = (k, d, v)" by (metis prod.exhaust)
  note ok = vsl_ok_run [of hs] and ord = run_in_order [OF snoc.prems [unfolded x]]
  let ?s = "vsl_run hs" and ?n = "length (vsl_nodes (vsl_run hs))"
  define s' where s': "s' = snd (vsl_Insert k d v ?s)"
  let ?Q = "\<lambda>s a. n_entity_type (node_at s a) = ty \<and> n_timestamp (node_at s a) \<le> ts"
  have old: "node_at s' a = node_at ?s a" if "a \<in> set (place_group ?s e c t)" for a
    using that Insert_nodes(2) [OF ok s'] bottom_less [OF ok] by (simp add: place_group_def)
  have "find (?Q s') (place_group ?s e c t) = find (?Q ?s) (place_group ?s e c t)"
    using old by (intro find_cong_set) simp
  moreover have "node_value s' (find (?Q ?s) (place_group ?s e c t)) = node_value ?s (find (?Q ?s) (place_group ?s e c t))"
  proof (cases "find (?Q ?s) (place_group ?s e c t)")
    case (Some a)
    then show ?thesis using old [of a] find_SomeD [OF Some] by (simp add: node_value_def)
  qed (simp add: node_value_def)
  moreover have "node_value ?s (find (?Q ?s) (place_group ?s e c t)) = put_at_time (key_match e ty c t) ts hs"
    by (rule snoc.IH [OF ordered_historyD [OF snoc.prems [unfolded x]]])
  ultimately show ?case
    unfolding x vsl_run_snoc s' [symmetric] Insert_group [OF ok s' ord]
    by (auto simp: put_at_time_def key_match_place vsl_Insert_fields(1) [OF ok s'] LFNode_new_def node_value_def)
qed


text \<open>A version that arrives after a newer one of its place.\<close>

lemma run_first_of_group:
  assumes ord: "ordered_history hs"
    and a: "find (\<lambda>a. key_match e ty c t (node_at (vsl_run hs) a)) (bottom (vsl_run hs)) = Some a"
  shows "\<exists>as. place_group (vsl_run hs) e c t = a # as"
proof (cases "place_group (vsl_run hs) e c t")
  case Nil
  then show ?thesis using find_SomeD [OF a] by (auto simp: place_group_def filter_empty_conv key_match_place)
next
  case (Cons b bs)
  let ?ty = "\<lambda>a. n_entity_type (node_at (vsl_run hs) a)"
  have f: "find (\<lambda>a. ?ty a = ty) (b # bs) = Some a"
    using a by (simp add: key_match_place place_group_def find_filter flip: Cons)
  have "?ty a = ty" "a \<in> set (b # bs)" using find_SomeD [OF f] by blast+
  then have "?ty b = ty" using run_group_types [OF ord, of b e c t a] Cons by simp
  then show ?thesis using f Cons by simp
qed

lemma GetAtTime_late:
  assumes ord: "ordered_history hs" and new: "newest_put (key_match e ty c t) hs = Some (ts', d')"
    and late: "timestamp_of k < ts'" and s': "s' = snd (vsl_Insert k d x (vsl_run hs))"
  shows "vsl_GetAtTime_target e ty c t ts s' = vsl_GetAtTime_target e ty c t ts (vsl_run hs)"
proof -
  let ?s = "vsl_run hs" and ?g = "place_group (vsl_run hs) e c t"
  note ok = vsl_ok_run [of hs]
  obtain a where a: "find (\<lambda>a. key_match e ty c t (node_at ?s a)) (bottom ?s) = Some a"
    and ts: "n_timestamp (node_at ?s a) = ts'"
    using new unfolding newest_run [symmetric] by auto
  have a': "find (\<lambda>a. key_match e ty c t (node_at s' a)) (bottom s') = Some a"
    using late [folded not_le] by (simp add: Insert_find [OF ok s' refl] a ts)
  obtain as where g: "?g = a # as" using run_first_of_group [OF ord a] by blast
  have same: "node_at s' b = node_at ?s b" if "b \<in> set ?g" for b
    using that Insert_nodes(2) [OF ok s'] bottom_less [OF ok] by (simp add: place_group_def)
  have lnk: "linked (vsl_nodes ?s) ?g" by (rule run_linked [OF ord])
  then have lnk': "linked (vsl_nodes s') ?g" using linked_cong [of ?g "vsl_nodes s'" "vsl_nodes ?s"] same by simp
  have "find (\<lambda>b. n_timestamp (node_at s' b) \<le> ts) ?g = find (\<lambda>b. n_timestamp (node_at ?s b) \<le> ts) ?g"
    using same by (intro find_cong_set) simp
  then have skip: "skip_newer (vsl_nodes s') ts (Some a) = skip_newer (vsl_nodes ?s) ts (Some a)"
    "skip_newer (vsl_nodes ?s) ts (Some a) = Some (find (\<lambda>b. n_timestamp (node_at ?s b) \<le> ts) ?g)"
    using skip_newer_linked [OF lnk, of ts] skip_newer_linked [OF lnk', of ts] by (simp_all add: g)
  have "node_value s' p = node_value ?s p" if p: "find (\<lambda>b. n_timestamp (node_at ?s b) \<le> ts) ?g = p" for p
  proof (cases p)
    case (Some b)
    then show ?thesis using same [of b] find_SomeD [OF p [unfolded Some]] by (simp add: node_value_def)
  qed (simp add: node_value_def)
  then show ?thesis
    using FindLatestVersion_target_eq [OF ok] FindLatestVersion_target_eq [OF vsl_ok_Insert [OF ok, of k d x, folded s']] a a' skip
    by (simp add: vsl_GetAtTime_target_def)
qed

text \<open>With two types at one place the older-version links break: each version is linked to its neighbour in the bottom list only
  when the types agree, so the outgoing edge of time 20 hides the one of time 10 once an incoming edge of time 15 lies between.\<close>

lemma mixed_types_hide_versions:
  "vsl_GetAtTime_target 1 1 2 3 12 (vsl_run [(CedarKey_EdgeOut 1 3 2 10 0 0 0, 5, 10),
     (CedarKey_EdgeIn 1 3 2 15 0 0 0, 6, 15), (CedarKey_EdgeOut 1 3 2 20 0 0 0, 7, 20)]) = Some None"
proof -
  let ?h1 = "[(CedarKey_EdgeOut 1 3 2 10 0 0 0, 5, 10)] :: put_history"
  let ?h2 = "?h1 @ [(CedarKey_EdgeIn 1 3 2 15 0 0 0, 6, 15)]"
  let ?h3 = "?h2 @ [(CedarKey_EdgeOut 1 3 2 20 0 0 0, 7, 20)]"
  have F0: "bottom (vsl_run []) = []" "vsl_nodes (vsl_run []) = []" by (simp_all add: vsl_run_def LockedVSL_new_def kMaxHeight_def)
  note F = vsl_Insert_fields(1,2) [OF vsl_ok_run refl, folded vsl_run_snoc]
  have F1: "bottom (vsl_run ?h1) = [0]" "\<exists>h p. vsl_nodes (vsl_run ?h1) = [(LFNode_new (CedarKey_EdgeOut 1 3 2 10 0 0 0) 5 h 10)\<lparr>n_older := p\<rparr>]"
    using F [of "[]" "CedarKey_EdgeOut 1 3 2 10 0 0 0" 5 10] by (auto simp: F0 insert_at_def)
  have F2: "bottom (vsl_run ?h2) = [1, 0]" "\<exists>h p. node_at (vsl_run ?h2) 1 = (LFNode_new (CedarKey_EdgeIn 1 3 2 15 0 0 0) 6 h 15)\<lparr>n_older := p\<rparr>"
    "length (vsl_nodes (vsl_run ?h2)) = 2" "node_at (vsl_run ?h2) 0 = node_at (vsl_run ?h1) 0"
    using F1 F [of "?h1" "CedarKey_EdgeIn 1 3 2 15 0 0 0" 6 15]
    by (auto simp: insert_at_def node_less_def LFNode_new_def factory_make nth_append)
  have less: "\<not> node_less (node_at (vsl_run ?h2) a) (CedarKey_EdgeOut 1 3 2 20 0 0 0)" if "a \<in> {0, 1}" for a
    using F2(2,4) F1(2) that by (auto simp: node_less_def LFNode_new_def factory_make)
  have "\<not> same_version_key (node_at (vsl_run ?h2) 1) (CedarKey_EdgeOut 1 3 2 20 0 0 0)"
    using F2(2) by (auto simp: same_version_key_def LFNode_new_def factory_make)
  then have "older_link (vsl_run ?h2) (CedarKey_EdgeOut 1 3 2 20 0 0 0) = None"
    using less F2(1) by (simp add: older_link_def)
  then obtain h where F3: "bottom (vsl_run ?h3) = [2, 1, 0]"
      "node_at (vsl_run ?h3) 2 = (LFNode_new (CedarKey_EdgeOut 1 3 2 20 0 0 0) 7 h 20)\<lparr>n_older := None\<rparr>"
    using F [of "?h2" "CedarKey_EdgeOut 1 3 2 20 0 0 0" 7 20] F2(1,3) less by (auto simp: insert_at_def nth_append)
  have "FindLatestVersion_target 1 1 2 3 (vsl_run ?h3) = Some 2"
    using F3 by (simp add: FindLatestVersion_target_eq [OF vsl_ok_run] key_match_def LFNode_new_def factory_make)
  then have "vsl_GetAtTime_target 1 1 2 3 12 (vsl_run ?h3) = Some None"
    using F3(2) by (simp add: vsl_GetAtTime_target_def skip_newer.simps LFNode_new_def factory_make node_value_def)
  then show ?thesis by simp
qed

text \<open>C4. Reads in the past: suppose that the versions stored under each entity, column and target arrive in timestamp order
  and all have the same entity type (any tower heights, any interleaving with other places). Then a read at a time follows the
  older-version links, always ends, and returns the value of the last inserted version of that user
  key that is not newer than the requested time, or nothing when there is none. Both conditions are needed: a late
  version is lost, and outgoing and incoming edges that share a place hide each other's older versions.\<close>

theorem vsl_read_at_time:
  assumes "ordered_history hs"
  shows "vsl_GetAtTime_target eid etype col target ts (vsl_run hs) =
    Some (put_at_time (key_match eid etype col target) ts hs)"
  by (simp only: GetAtTime_group [OF assms] group_put_at_time [OF assms])

lemma vsl_read_at_time_witness:
  "vsl_GetAtTime_target 1 0 2 0 25 (vsl_run
     [(CedarKey_Vertex 1 2 10 0 0 0 0, 5, 10), (CedarKey_Vertex 1 2 20 0 0 0 0, 6, 20),
      (CedarKey_Vertex 1 2 30 0 0 0 0, 7, 30)]) = Some (Some 6)"
proof -
  let ?h = "[(CedarKey_Vertex 1 2 10 0 0 0 0, 5, 10), (CedarKey_Vertex 1 2 20 0 0 0 0, 6, 20),
      (CedarKey_Vertex 1 2 30 0 0 0 0, 7, 30)] :: put_history"
  have o: "ordered_history ?h" by (simp add: ordered_history_def factory_make)
  have p: "put_at_time (key_match 1 0 2 0) 25 ?h = Some 6"
    by (simp add: put_at_time_def key_match_def factory_make LFNode_new_def)
  show ?thesis using vsl_read_at_time [OF o, of 1 0 2 0 25] unfolding p .
qed

text \<open>C39. A version that arrives late is lost to reads in the past: the insertion links the new
  version to its older neighbour but no newer version to it, so once a newer version of the same user key
  is stored, a read at any time returns what it returned before the insertion. After versions 10,
  30 and 20, for instance, the read at time 25 gives the value of version 10.\<close>

theorem vsl_late_version_lost:
  assumes "ordered_history hs"
    and "newest_put (key_match (entity_id k) (entity_type_f k) (column_id k) (target_id k)) hs = Some (newest, v)"
    and "timestamp_of k < newest"
  shows "vsl_GetAtTime_target (entity_id k) (entity_type_f k) (column_id k) (target_id k) ts (vsl_run (hs @ [(k, d, x)])) =
    vsl_GetAtTime_target (entity_id k) (entity_type_f k) (column_id k) (target_id k) ts (vsl_run hs)"
  unfolding vsl_run_snoc by (rule GetAtTime_late [OF assms refl])

lemma vsl_late_version_lost_witness:
  "vsl_GetAtTime_target 1 0 2 0 25 (vsl_run [(CedarKey_Vertex 1 2 10 0 0 0 0, 5, 10),
      (CedarKey_Vertex 1 2 30 0 0 0 0, 7, 30), (CedarKey_Vertex 1 2 20 0 0 0 0, 6, 20)]) =
   vsl_GetAtTime_target 1 0 2 0 25 (vsl_run [(CedarKey_Vertex 1 2 10 0 0 0 0, 5, 10),
      (CedarKey_Vertex 1 2 30 0 0 0 0, 7, 30)])"
proof -
  let ?h = "[(CedarKey_Vertex 1 2 10 0 0 0 0, 5, 10), (CedarKey_Vertex 1 2 30 0 0 0 0, 7, 30)] :: put_history"
  let ?k = "CedarKey_Vertex 1 2 20 0 0 0 0"
  have o: "ordered_history ?h" by (simp add: ordered_history_def factory_make)
  have n: "newest_put (key_match (entity_id ?k) (entity_type_f ?k) (column_id ?k) (target_id ?k)) ?h = Some (30, 7)"
    by (simp add: newest_put_def key_match_def factory_make LFNode_new_def)
  have l: "timestamp_of ?k < 30" by (simp add: factory_make)
  show ?thesis using vsl_late_version_lost [OF o n l, of 25 6 20] by (simp add: factory_make)
qed

end
