(* ===== verification/Crc32c.thy ===== *)
theory Crc32c
  imports Prelude
begin

text \<open>
  CRC-32C checksums (\<open>src/src/core/crc32c.cc\<close>, \<open>src/include/cedar/core/crc32c.h\<close>): the
  table driven routine, the routine over the CRC instructions of the processor, and the masked form. The
  instructions are parameters; what they compute is stated by bits, as division by the polynomial,
  and is also the specification of the table.
\<close>

subsection \<open>Table driven routine\<close>

definition kByteExtensionTable :: "u32 list" where
  "kByteExtensionTable =
    [0x00000000, 0xf26b8303, 0xe13b70f7, 0x1350f3f4, 0xc79a971f, 0x35f1141c, 0x26a1e7e8, 0xd4ca64eb,
     0x8ad958cf, 0x78b2dbcc, 0x6be22838, 0x9989ab3b, 0x4d43cfd0, 0xbf284cd3, 0xac78bf27, 0x5e133c24,
     0x105ec76f, 0xe235446c, 0xf165b798, 0x030e349b, 0xd7c45070, 0x25afd373, 0x36ff2087, 0xc494a384,
     0x9a879fa0, 0x68ec1ca3, 0x7bbcef57, 0x89d76c54, 0x5d1d08bf, 0xaf768bbc, 0xbc267848, 0x4e4dfb4b,
     0x20bd8ede, 0xd2d60ddd, 0xc186fe29, 0x33ed7d2a, 0xe72719c1, 0x154c9ac2, 0x061c6936, 0xf477ea35,
     0xaa64d611, 0x580f5512, 0x4b5fa6e6, 0xb93425e5, 0x6dfe410e, 0x9f95c20d, 0x8cc531f9, 0x7eaeb2fa,
     0x30e349b1, 0xc288cab2, 0xd1d83946, 0x23b3ba45, 0xf779deae, 0x05125dad, 0x1642ae59, 0xe4292d5a,
     0xba3a117e, 0x4851927d, 0x5b016189, 0xa96ae28a, 0x7da08661, 0x8fcb0562, 0x9c9bf696, 0x6ef07595,
     0x417b1dbc, 0xb3109ebf, 0xa0406d4b, 0x522bee48, 0x86e18aa3, 0x748a09a0, 0x67dafa54, 0x95b17957,
     0xcba24573, 0x39c9c670, 0x2a993584, 0xd8f2b687, 0x0c38d26c, 0xfe53516f, 0xed03a29b, 0x1f682198,
     0x5125dad3, 0xa34e59d0, 0xb01eaa24, 0x42752927, 0x96bf4dcc, 0x64d4cecf, 0x77843d3b, 0x85efbe38,
     0xdbfc821c, 0x2997011f, 0x3ac7f2eb, 0xc8ac71e8, 0x1c661503, 0xee0d9600, 0xfd5d65f4, 0x0f36e6f7,
     0x61c69362, 0x93ad1061, 0x80fde395, 0x72966096, 0xa65c047d, 0x5437877e, 0x4767748a, 0xb50cf789,
     0xeb1fcbad, 0x197448ae, 0x0a24bb5a, 0xf84f3859, 0x2c855cb2, 0xdeeedfb1, 0xcdbe2c45, 0x3fd5af46,
     0x7198540d, 0x83f3d70e, 0x90a324fa, 0x62c8a7f9, 0xb602c312, 0x44694011, 0x5739b3e5, 0xa55230e6,
     0xfb410cc2, 0x092a8fc1, 0x1a7a7c35, 0xe811ff36, 0x3cdb9bdd, 0xceb018de, 0xdde0eb2a, 0x2f8b6829,
     0x82f63b78, 0x709db87b, 0x63cd4b8f, 0x91a6c88c, 0x456cac67, 0xb7072f64, 0xa457dc90, 0x563c5f93,
     0x082f63b7, 0xfa44e0b4, 0xe9141340, 0x1b7f9043, 0xcfb5f4a8, 0x3dde77ab, 0x2e8e845f, 0xdce5075c,
     0x92a8fc17, 0x60c37f14, 0x73938ce0, 0x81f80fe3, 0x55326b08, 0xa759e80b, 0xb4091bff, 0x466298fc,
     0x1871a4d8, 0xea1a27db, 0xf94ad42f, 0x0b21572c, 0xdfeb33c7, 0x2d80b0c4, 0x3ed04330, 0xccbbc033,
     0xa24bb5a6, 0x502036a5, 0x4370c551, 0xb11b4652, 0x65d122b9, 0x97baa1ba, 0x84ea524e, 0x7681d14d,
     0x2892ed69, 0xdaf96e6a, 0xc9a99d9e, 0x3bc21e9d, 0xef087a76, 0x1d63f975, 0x0e330a81, 0xfc588982,
     0xb21572c9, 0x407ef1ca, 0x532e023e, 0xa145813d, 0x758fe5d6, 0x87e466d5, 0x94b49521, 0x66df1622,
     0x38cc2a06, 0xcaa7a905, 0xd9f75af1, 0x2b9cd9f2, 0xff56bd19, 0x0d3d3e1a, 0x1e6dcdee, 0xec064eed,
     0xc38d26c4, 0x31e6a5c7, 0x22b65633, 0xd0ddd530, 0x0417b1db, 0xf67c32d8, 0xe52cc12c, 0x1747422f,
     0x49547e0b, 0xbb3ffd08, 0xa86f0efc, 0x5a048dff, 0x8ecee914, 0x7ca56a17, 0x6ff599e3, 0x9d9e1ae0,
     0xd3d3e1ab, 0x21b862a8, 0x32e8915c, 0xc083125f, 0x144976b4, 0xe622f5b7, 0xf5720643, 0x07198540,
     0x590ab964, 0xab613a67, 0xb831c993, 0x4a5a4a90, 0x9e902e7b, 0x6cfbad78, 0x7fab5e8c, 0x8dc0dd8f,
     0xe330a81a, 0x115b2b19, 0x020bd8ed, 0xf0605bee, 0x24aa3f05, 0xd6c1bc06, 0xc5914ff2, 0x37faccf1,
     0x69e9f0d5, 0x9b8273d6, 0x88d28022, 0x7ab90321, 0xae7367ca, 0x5c18e4c9, 0x4f48173d, 0xbd23943e,
     0xf36e6f75, 0x0105ec76, 0x12551f82, 0xe03e9c81, 0x34f4f86a, 0xc69f7b69, 0xd5cf889d, 0x27a40b9e,
     0x79b737ba, 0x8bdcb4b9, 0x988c474d, 0x6ae7c44e, 0xbe2da0a5, 0x4c4623a6, 0x5f16d052, 0xad7d5351]"

definition kCRC32Xor :: u32 where
  "kCRC32Xor = 0xFFFFFFFF"

definition crc_table_step :: "u32 \<Rightarrow> u8 \<Rightarrow> u32" where
  "crc_table_step l p = (let c = (l AND 0xFF) XOR ucast p in (kByteExtensionTable ! unat c) XOR drop_bit 8 l)"

definition ExtendSW :: "u32 \<Rightarrow> u8 list \<Rightarrow> u32" where
  "ExtendSW crc data = foldl crc_table_step (crc XOR kCRC32Xor) data XOR kCRC32Xor"

subsection \<open>Routine over CRC instructions\<close>

record crc_hw =
  mm_crc32_u64 :: "u32 \<Rightarrow> u64 \<Rightarrow> u64"
  mm_crc32_u32 :: "u32 \<Rightarrow> u32 \<Rightarrow> u32"
  mm_crc32_u16 :: "u32 \<Rightarrow> u16 \<Rightarrow> u32"
  mm_crc32_u8 :: "u32 \<Rightarrow> u8 \<Rightarrow> u32"

fun hw_words :: "crc_hw \<Rightarrow> u32 \<Rightarrow> u8 list \<Rightarrow> u32 \<times> u8 list" where
  "hw_words hw l (b0 # b1 # b2 # b3 # b4 # b5 # b6 # b7 # rest) =
     hw_words hw (ucast (mm_crc32_u64 hw l (le_word [b0, b1, b2, b3, b4, b5, b6, b7]))) rest"
| "hw_words hw l p = (l, p)"

definition hw_dword :: "crc_hw \<Rightarrow> u32 \<times> u8 list \<Rightarrow> u32 \<times> u8 list" where
  "hw_dword hw = (\<lambda>(l, p). if 4 \<le> length p then (mm_crc32_u32 hw l (le_word (take 4 p)), drop 4 p) else (l, p))"

definition hw_half :: "crc_hw \<Rightarrow> u32 \<times> u8 list \<Rightarrow> u32 \<times> u8 list" where
  "hw_half hw = (\<lambda>(l, p). if 2 \<le> length p then (mm_crc32_u16 hw l (le_word (take 2 p)), drop 2 p) else (l, p))"

definition hw_byte :: "crc_hw \<Rightarrow> u32 \<times> u8 list \<Rightarrow> u32" where
  "hw_byte hw = (\<lambda>(l, p). case p of [] \<Rightarrow> l | b # _ \<Rightarrow> mm_crc32_u8 hw l b)"

definition ExtendHW :: "crc_hw \<Rightarrow> u32 \<Rightarrow> u8 list \<Rightarrow> u32" where
  "ExtendHW hw crc data =
     hw_byte hw (hw_half hw (hw_dword hw (hw_words hw (crc XOR kCRC32Xor) data))) XOR kCRC32Xor"

text \<open>\<open>hw = None\<close> is a build without the instructions.\<close>

definition Extend :: "crc_hw option \<Rightarrow> u32 \<Rightarrow> u8 list \<Rightarrow> u32" where
  "Extend hw init_crc data = (case hw of Some h \<Rightarrow> ExtendHW h init_crc data | None \<Rightarrow> ExtendSW init_crc data)"

definition crc_Value :: "crc_hw option \<Rightarrow> u8 list \<Rightarrow> u32" where
  "crc_Value hw data = Extend hw 0 data"

definition kMaskDelta :: u32 where
  "kMaskDelta = 0xA282EAD8"

definition crc_Mask :: "u32 \<Rightarrow> u32" where
  "crc_Mask crc = (drop_bit 15 crc OR push_bit 17 crc) + kMaskDelta"

definition crc_Unmask :: "u32 \<Rightarrow> u32" where
  "crc_Unmask masked = (let rot = masked - kMaskDelta in drop_bit 17 rot OR push_bit 15 rot)"

subsection \<open>Specification by polynomial division\<close>

text \<open>One bit of the reflected division by the Castagnoli polynomial, and one byte.\<close>

definition crc_bit :: "u32 \<Rightarrow> u32" where
  "crc_bit l = (if bit l 0 then drop_bit 1 l XOR 0x82F63B78 else drop_bit 1 l)"

definition crc_byte :: "u32 \<Rightarrow> u8 \<Rightarrow> u32" where
  "crc_byte l b = (crc_bit ^^ 8) (l XOR ucast b)"

lemma xor_zero_iff: "x XOR y = 0 \<longleftrightarrow> x = (y :: 'a::len word)"
  by (auto simp: bit_eq_iff bit_xor_iff)

lemma xor_cancel_left: "l XOR x = l XOR y \<longleftrightarrow> x = (y :: 'a::len word)"
  by (auto simp: bit_eq_iff bit_xor_iff)

lemma bit_polynomial: "bit (0x82F63B78 :: u32) 31"
  by simp

lemma crc_bit_xor: "crc_bit (x XOR y) = crc_bit x XOR crc_bit y"
  by (auto simp: crc_bit_def bit_xor_iff bit_eq_iff bit_drop_bit_eq)

lemma crc_bits_xor: "(crc_bit ^^ n) (x XOR y) = (crc_bit ^^ n) x XOR (crc_bit ^^ n) y"
  by (induction n) (simp_all add: crc_bit_xor)

lemma crc_bit_0 [simp]: "crc_bit 0 = 0"
  by (simp add: crc_bit_def)

lemma crc_bit_eq_0: "crc_bit x = 0 \<longleftrightarrow> x = 0"
proof
  assume z: "crc_bit x = 0"
  have "\<not> bit x 0"
  proof
    assume "bit x 0"
    then have "drop_bit 1 x XOR 0x82F63B78 = 0" using z by (simp add: crc_bit_def)
    then have "bit (drop_bit 1 x XOR (0x82F63B78 :: u32)) 31 = bit (0 :: u32) 31" by (rule arg_cong)
    then show False using bit_imp_le_length [of x 32] by (auto simp: bit_xor_iff bit_drop_bit_eq bit_polynomial)
  qed
  then have d: "drop_bit 1 x = 0" "\<not> bit x 0" using z by (simp_all add: crc_bit_def)
  show "x = 0"
  proof (rule bit_word_eqI)
    fix n assume "n < LENGTH(32)"
    show "bit x n = bit 0 n"
      using d(2) arg_cong [OF d(1), of "\<lambda>w. bit w (n - 1)"] by (cases n) (simp_all add: bit_drop_bit_eq del: bit_0)
  qed
qed simp

lemma inj_crc_bit: "crc_bit x = crc_bit y \<longleftrightarrow> x = y"
proof -
  have "crc_bit x = crc_bit y \<longleftrightarrow> crc_bit x XOR crc_bit y = 0" by (simp add: xor_zero_iff)
  also have "\<dots> \<longleftrightarrow> x XOR y = 0" by (simp add: crc_bit_eq_0 flip: crc_bit_xor)
  finally show ?thesis by (simp add: xor_zero_iff)
qed

lemma inj_crc_bits: "(crc_bit ^^ n) x = (crc_bit ^^ n) y \<longleftrightarrow> x = y"
  by (induction n) (simp_all add: inj_crc_bit)


lemma crc_bits_shift: "\<forall>i < n. \<not> bit x i \<Longrightarrow> (crc_bit ^^ n) x = drop_bit n x"
proof (induction n)
  case (Suc n)
  then have "(crc_bit ^^ n) x = drop_bit n x" by simp
  moreover have "\<not> bit x n" using Suc.prems by simp
  ultimately show ?case by (simp add: crc_bit_def [of "drop_bit n x"] bit_drop_bit_eq drop_bit_drop_bit)
qed simp

text \<open>The same division on integers, for evaluating the table.\<close>

definition crc_bit_int :: "int \<Rightarrow> int" where
  "crc_bit_int l = (if odd l then (l div 2) XOR 0x82F63B78 else l div 2)"

lemma uint_crc_bit: "uint (crc_bit l) = crc_bit_int (uint l)"
proof -
  have d: "uint (drop_bit (Suc 0) l) = uint l div 2" by (simp add: drop_bit_Suc uint_div)
  have "odd (uint l) = bit l 0" by (simp add: bit_uint_iff flip: bit_0)
  then show ?thesis by (simp add: crc_bit_def crc_bit_int_def unsigned_xor_eq d)
qed

lemma uint_crc_bits: "uint ((crc_bit ^^ n) l) = (crc_bit_int ^^ n) (uint l)"
  by (induction n) (simp_all add: uint_crc_bit)

lemma crc_bit_int_simps [simp]:
  "crc_bit_int 0 = 0" "crc_bit_int 1 = 0x82F63B78"
  "crc_bit_int (numeral (Num.Bit0 n)) = numeral n"
  "crc_bit_int (numeral (Num.Bit1 n)) = numeral n XOR 0x82F63B78"
  by (simp_all add: crc_bit_int_def)

lemma crc_bits_int_8: "(crc_bit_int ^^ 8) x = crc_bit_int (crc_bit_int (crc_bit_int (crc_bit_int
    (crc_bit_int (crc_bit_int (crc_bit_int (crc_bit_int x)))))))"
  by (simp add: eval_nat_numeral)

lemma upto_Cons: "i \<le> j \<Longrightarrow> [i..j] = i # [i + 1..j]" for i j :: int
  by (simp add: upto_rec1)

lemma table_int: "map (crc_bit_int ^^ 8) [0..255] = map uint kByteExtensionTable"
  unfolding kByteExtensionTable_def
  by (simp add: upto_Cons crc_bits_int_8)

lemma unat_ucast_u8: "unat (ucast (c :: u8) :: u32) = unat c"
proof -
  have "unat c < 2 ^ 32" by (rule less_trans [OF unat_u8_less]) simp
  then show ?thesis by (simp add: unsigned_ucast_eq take_bit_nat_eq_self)
qed

lemma kByteExtensionTable_nth: "kByteExtensionTable ! unat (c :: u8) = (crc_bit ^^ 8) (ucast c)"
proof (rule word_uint_eqI)
  let ?i = "unat c"
  have len: "length kByteExtensionTable = 256" using arg_cong [OF table_int, of length] by simp
  have "?i < 256" by simp
  then have "uint (kByteExtensionTable ! ?i) = map (crc_bit_int ^^ 8) [0..255] ! ?i"
    by (simp add: table_int len)
  also have "\<dots> = (crc_bit_int ^^ 8) ([0..255] ! ?i)" using \<open>?i < 256\<close> by simp
  also have "[0..255] ! ?i = int ?i" using \<open>?i < 256\<close> nth_upto [of 0 ?i 255] by linarith
  also have "(crc_bit_int ^^ 8) (int ?i) = uint ((crc_bit ^^ 8) (ucast c))"
    by (simp add: uint_crc_bits flip: unat_ucast_u8)
  finally show "uint (kByteExtensionTable ! ?i) = uint ((crc_bit ^^ 8) (ucast c))" .
qed

lemma crc_table_step_spec: "crc_table_step l b = crc_byte l b"
proof -
  let ?x = "l XOR ucast b"
  let ?c = "ucast l XOR b :: u8"
  have idx: "unat ((l AND 0xFF) XOR ucast b) = unat ?c"
  proof -
    have "(0xFF :: u32) = mask 8" by (simp add: mask_eq_exp_minus_1)
    then have mask: "l AND 0xFF = take_bit 8 l" by (simp only: take_bit_eq_mask)
    have "(l AND 0xFF) XOR ucast b = ucast ?c"
      unfolding mask by (intro bit_word_eqI) (auto simp: bit_simps dest: bit_imp_le_length)
    then show ?thesis by (simp only: unat_ucast_u8)
  qed
  have split: "?x = ucast ?c XOR push_bit 8 (drop_bit 8 l)"
    by (rule bit_word_eqI) (auto simp: bit_simps)
  have "(crc_bit ^^ 8) (push_bit 8 (drop_bit 8 l)) = drop_bit 8 (push_bit 8 (drop_bit 8 l))"
    by (rule crc_bits_shift) (simp add: bit_push_bit_iff)
  also have "\<dots> = drop_bit 8 l" by (rule bit_word_eqI) (auto simp: bit_simps dest: bit_imp_le_length)
  finally show ?thesis
    by (simp add: crc_table_step_def crc_byte_def split crc_bits_xor idx kByteExtensionTable_nth)
qed

text \<open>Up to four bytes at once.\<close>

lemma le_word_high: "8 * length bs \<le> n \<Longrightarrow> \<not> bit (le_word bs :: u32) n"
  by (auto simp: bit_le_word less_eq_div_iff_mult_less_eq mult.commute not_less)

lemma crc_bytes_word:
  "length bs \<le> 4 \<Longrightarrow> foldl crc_byte l bs = (crc_bit ^^ (8 * length bs)) (l XOR le_word bs)"
proof (induction bs arbitrary: l)
  case (Cons b bs)
  let ?w = "le_word bs :: u32" and ?n = "8 * length bs"
  have or: "le_word (b # bs) = (ucast b :: u32) XOR push_bit 8 ?w"
    by (rule bit_word_eqI) (auto simp: bit_simps dest: bit_imp_le_length)
  have "(crc_bit ^^ 8) (push_bit 8 ?w) = drop_bit 8 (push_bit 8 ?w)"
    by (rule crc_bits_shift) (simp add: bit_push_bit_iff)
  also have "\<dots> = ?w"
  proof (rule bit_word_eqI)
    fix n assume "n < LENGTH(32)"
    then show "bit (drop_bit 8 (push_bit 8 ?w)) n = bit ?w n"
      using le_word_high [of bs n] Cons.prems by (cases "n < 24") (simp_all add: bit_simps)
  qed
  finally have push: "(crc_bit ^^ 8) (push_bit 8 ?w) = ?w" .
  have "(crc_bit ^^ (8 * length (b # bs))) (l XOR le_word (b # bs)) =
      (crc_bit ^^ ?n) ((crc_bit ^^ 8) ((l XOR ucast b) XOR push_bit 8 ?w))"
    unfolding or by (simp add: funpow_add xor.assoc add.commute [of 8])
  also have "\<dots> = (crc_bit ^^ ?n) (crc_byte l b XOR ?w)"
    unfolding crc_bits_xor [of 8] push crc_byte_def ..
  also have "\<dots> = foldl crc_byte (crc_byte l b) bs" using Cons by simp
  finally show ?case by simp
qed simp

lemma inj_crc_bytes:
  assumes "foldl crc_byte l bs = foldl crc_byte l' bs"
  shows "l = l'"
  using assms
proof (induction bs arbitrary: l l')
  case (Cons b bs)
  then have "crc_byte l b = crc_byte l' b" by simp
  then have "(l XOR ucast b) XOR ucast b = (l' XOR ucast b) XOR ucast b" by (simp add: crc_byte_def inj_crc_bits)
  then show ?case by (simp add: xor.assoc)
qed simp

lemma crc_burst:
  assumes len: "length a = length b" "length a \<le> 4" and eq: "foldl crc_byte l (a @ s) = foldl crc_byte l (b @ s)"
  shows "a = b"
proof -
  have "foldl crc_byte l a = foldl crc_byte l b" using inj_crc_bytes eq by simp
  then have "l XOR le_word a = l XOR (le_word b :: u32)"
    using len crc_bytes_word [of a l] crc_bytes_word [of b l] by (simp add: inj_crc_bits)
  then have w: "le_word a = (le_word b :: u32)" by (simp add: xor_cancel_left)
  show ?thesis
  proof (rule nth_equalityI [OF len(1)])
    fix i assume i: "i < length a"
    show "a ! i = b ! i"
    proof (rule bit_word_eqI)
      fix k assume "k < LENGTH(8)"
      then have k: "k < 8" "8 * i + k < 32" using i len(2) by simp_all
      have "bit (le_word a :: u32) (8 * i + k) = bit (le_word b :: u32) (8 * i + k)" by (simp add: w)
      then show "bit (a ! i) k = bit (b ! i) k" using i k len by (simp add: bit_le_word)
    qed
  qed
qed

subsection \<open>CRC instructions\<close>

text \<open>The instructions divide their whole operand by the polynomial; the 64 bit form works in a 64 bit
  register.\<close>

definition crc_bit64 :: "u64 \<Rightarrow> u64" where
  "crc_bit64 l = (if bit l 0 then drop_bit 1 l XOR 0x82F63B78 else drop_bit 1 l)"

definition crc_hw_ok :: "crc_hw \<Rightarrow> bool" where
  "crc_hw_ok hw \<longleftrightarrow>
     (\<forall>l w. mm_crc32_u64 hw l w = (crc_bit64 ^^ 64) (ucast l XOR w)) \<and>
     (\<forall>l w. mm_crc32_u32 hw l w = (crc_bit ^^ 32) (l XOR w)) \<and>
     (\<forall>l w. mm_crc32_u16 hw l w = (crc_bit ^^ 16) (l XOR ucast w)) \<and>
     (\<forall>l w. mm_crc32_u8 hw l w = (crc_bit ^^ 8) (l XOR ucast w))"

lemma crc_bits64_xor: "(crc_bit64 ^^ n) (x XOR y) = (crc_bit64 ^^ n) x XOR (crc_bit64 ^^ n) y"
proof (induction n)
  case (Suc n)
  have "crc_bit64 (x XOR y) = crc_bit64 x XOR crc_bit64 y" for x y
    by (auto simp: crc_bit64_def bit_xor_iff bit_eq_iff bit_drop_bit_eq)
  then show ?case using Suc by simp
qed simp

lemma crc_bits64_shift: "\<forall>i < n. \<not> bit x i \<Longrightarrow> (crc_bit64 ^^ n) x = drop_bit n x"
proof (induction n)
  case (Suc n)
  then have "(crc_bit64 ^^ n) x = drop_bit n x" by simp
  moreover have "\<not> bit x n" using Suc.prems by simp
  ultimately show ?case by (simp add: crc_bit64_def [of "drop_bit n x"] bit_drop_bit_eq drop_bit_drop_bit)
qed simp

lemma crc_bits64_ucast: "(crc_bit64 ^^ n) (ucast (x :: u32)) = ucast ((crc_bit ^^ n) x)"
proof (induction n)
  case (Suc n)
  have "crc_bit64 (ucast y) = ucast (crc_bit y)" for y :: u32
  proof -
    have p: "(0x82F63B78 :: u64) = ucast (0x82F63B78 :: u32)" by simp
    have d: "drop_bit (Suc 0) (ucast y :: u64) = ucast (drop_bit (Suc 0) y)"
      by (rule bit_word_eqI) (auto simp: bit_simps dest: bit_imp_le_length)
    have b: "bit (ucast y :: u64) 0 = bit y 0" by (simp add: bit_simps)
    have x: "ucast (a XOR c) = (ucast a XOR ucast c :: u64)" for a c :: u32
      by (rule bit_word_eqI) (auto simp: bit_simps)
    show ?thesis unfolding crc_bit64_def crc_bit_def b by (simp add: d x)
  qed
  then show ?case using Suc by simp
qed simp

lemma ucast_ucast_u32: "ucast (ucast (x :: u32) :: u64) = x"
  by (rule bit_word_eqI) (simp add: bit_simps)

lemma crc_bytes_word64:
  assumes a: "length a = 4" and b: "length b = 4"
  shows "ucast ((crc_bit64 ^^ 64) (ucast l XOR le_word (a @ b))) = foldl crc_byte l (a @ b)"
proof -
  let ?a = "le_word a :: u32" and ?b = "le_word b :: u32"
  have split: "(ucast l XOR le_word (a @ b) :: u64) = ucast (l XOR ?a) XOR push_bit 32 (ucast ?b)"
  proof (rule bit_word_eqI)
    fix n assume "n < LENGTH(64)"
    then have n: "n < 64" by simp
    show "bit (ucast l XOR le_word (a @ b) :: u64) n = bit (ucast (l XOR ?a) XOR push_bit 32 (ucast ?b) :: u64) n"
    proof (cases "n < 32")
      case True
      then have "n div 8 < 4" by simp
      with True a b show ?thesis by (simp add: bit_simps bit_le_word nth_append)
    next
      case False
      define m where "m = n - 32"
      with False n have m: "n = m + 32" "m < 32" by simp_all
      have "(m + 32) div 8 = m div 8 + 4" "(m + 32) mod 8 = m mod 8" "m div 8 < 4"
        using m(2) mod_mult_self2 [of m 8 4] by simp_all
      with m a b show ?thesis by (simp add: bit_simps bit_le_word nth_append)
    qed
  qed
  have "drop_bit 32 (push_bit 32 (ucast ?b)) = (ucast ?b :: u64)"
    by (rule bit_word_eqI) (auto simp: bit_simps dest: bit_imp_le_length)
  then have push: "(crc_bit64 ^^ 32) (push_bit 32 (ucast ?b)) = ucast ?b"
    by (subst crc_bits64_shift) (simp_all add: bit_push_bit_iff)
  have x: "(ucast c XOR ucast d :: u64) = ucast (c XOR d)" for c d :: u32
    by (rule bit_word_eqI) (auto simp: bit_simps)
  have "(crc_bit64 ^^ 64) y = (crc_bit64 ^^ 32) ((crc_bit64 ^^ 32) y)" for y
    using funpow_add [of 32 32 crc_bit64] by (simp add: fun_eq_iff)
  then have "(crc_bit64 ^^ 64) (ucast l XOR le_word (a @ b)) =
      ucast ((crc_bit ^^ 32) ((crc_bit ^^ 32) (l XOR ?a) XOR ?b))"
    unfolding split by (simp add: crc_bits64_xor [of 32 "ucast (l XOR ?a)"] push crc_bits64_ucast x)
  also have "(crc_bit ^^ 32) ((crc_bit ^^ 32) (l XOR ?a) XOR ?b) = foldl crc_byte l (a @ b)"
    using crc_bytes_word [of a l] crc_bytes_word [of b "foldl crc_byte l a"] a b by simp
  finally show ?thesis by (simp only: ucast_ucast_u32)
qed

lemma hw_words_spec:
  "crc_hw_ok hw \<Longrightarrow>
   (case hw_words hw l data of (l', rest) \<Rightarrow> foldl crc_byte l' rest = foldl crc_byte l data \<and> length rest < 8)"
proof (induction hw l data rule: hw_words.induct)
  case (1 hw l b0 b1 b2 b3 b4 b5 b6 b7 rest)
  let ?p = "[b0, b1, b2, b3, b4, b5, b6, b7]"
  have "ucast (mm_crc32_u64 hw l (le_word ?p)) = foldl crc_byte l ?p"
    using crc_bytes_word64 [of "[b0, b1, b2, b3]" "[b4, b5, b6, b7]" l] 1(2)
    by (simp add: crc_hw_ok_def del: le_word.simps foldl.simps)
  then show ?case using 1 by (simp del: le_word.simps)
qed simp_all

lemma hw_tail_spec:
  assumes hw: "crc_hw_ok hw" and len: "length p < 8"
  shows "hw_byte hw (hw_half hw (hw_dword hw (l, p))) = foldl crc_byte l p"
proof -
  have d: "mm_crc32_u32 hw l (le_word (take 4 q)) = foldl crc_byte l (take 4 q)" if "4 \<le> length q" for l q
    using hw that crc_bytes_word [of "take 4 q" l] by (simp add: crc_hw_ok_def)
  have h: "mm_crc32_u16 hw l (le_word (take 2 q)) = foldl crc_byte l (take 2 q)" if "2 \<le> length q" for l q
  proof -
    have "ucast (le_word (take 2 q) :: u16) = (le_word (take 2 q) :: u32)"
    proof (rule bit_word_eqI)
      fix n assume "n < LENGTH(32)"
      then show "bit (ucast (le_word (take 2 q) :: u16) :: u32) n = bit (le_word (take 2 q) :: u32) n"
        using le_word_high [of "take 2 q" n] by (cases "n < 16") (simp_all add: bit_simps bit_le_word)
    qed
    then show ?thesis using hw that crc_bytes_word [of "take 2 q" l] by (simp add: crc_hw_ok_def)
  qed
  have b: "mm_crc32_u8 hw l b = crc_byte l b" for l b using hw by (simp add: crc_hw_ok_def crc_byte_def)
  have fold_split: "foldl crc_byte (foldl crc_byte l (take n q)) (drop n q) = foldl crc_byte l q" for l n q
    by (simp flip: foldl_append)
  define l1 p1 where lp: "l1 = fst (hw_dword hw (l, p))" "p1 = snd (hw_dword hw (l, p))"
  have p1: "foldl crc_byte l1 p1 = foldl crc_byte l p"
    using d [of p l] fold_split [of l 4 p] by (simp add: lp hw_dword_def)
  have p1_len: "length p1 < 4" using len by (cases "4 \<le> length p") (auto simp: lp hw_dword_def)
  define l2 p2 where lp2: "l2 = fst (hw_half hw (l1, p1))" "p2 = snd (hw_half hw (l1, p1))"
  have p2: "foldl crc_byte l2 p2 = foldl crc_byte l1 p1"
    using h [of p1 l1] fold_split [of l1 2 p1] by (simp add: lp2 hw_half_def)
  have p2_len: "length p2 < 2" using p1_len by (cases "2 \<le> length p1") (auto simp: lp2 hw_half_def)
  have "hw_byte hw (l2, p2) = foldl crc_byte l2 p2"
    using p2_len b by (cases p2) (auto simp: hw_byte_def)
  then show ?thesis using p1 p2 by (simp add: lp lp2)
qed

definition crc_spec :: "u32 \<Rightarrow> u8 list \<Rightarrow> u32" where
  "crc_spec crc data = foldl crc_byte (crc XOR 0xFFFFFFFF) data XOR 0xFFFFFFFF"

lemma xor_cancel_right: "x XOR l = y XOR l \<longleftrightarrow> x = (y :: 'a::len word)"
  by (auto simp: bit_eq_iff bit_xor_iff)

lemma ExtendSW_spec: "ExtendSW crc data = crc_spec crc data"
proof -
  have "crc_table_step = crc_byte" by (intro ext) (rule crc_table_step_spec)
  then show ?thesis by (simp add: ExtendSW_def crc_spec_def kCRC32Xor_def)
qed

lemma ExtendHW_spec: "crc_hw_ok hw \<Longrightarrow> ExtendHW hw crc data = crc_spec crc data"
  using hw_words_spec [of hw "crc XOR kCRC32Xor" data] hw_tail_spec [of hw]
  by (auto simp: ExtendHW_def crc_spec_def kCRC32Xor_def split: prod.splits)

definition crc_build_ok :: "crc_hw option \<Rightarrow> bool" where
  "crc_build_ok hw = (case hw of None \<Rightarrow> True | Some h \<Rightarrow> crc_hw_ok h)"

lemma Extend_spec: "crc_build_ok hw \<Longrightarrow> Extend hw crc data = crc_spec crc data"
  by (cases hw) (simp_all add: Extend_def crc_build_ok_def ExtendSW_spec ExtendHW_spec)

lemma crc_spec_append: "crc_spec crc (a @ b) = crc_spec (crc_spec crc a) b"
  by (simp add: crc_spec_def xor.assoc)

text \<open>A processor with the documented instructions.\<close>

definition crc_hw_reference :: crc_hw where
  "crc_hw_reference = \<lparr>mm_crc32_u64 = \<lambda>l w. (crc_bit64 ^^ 64) (ucast l XOR w),
     mm_crc32_u32 = \<lambda>l w. (crc_bit ^^ 32) (l XOR w), mm_crc32_u16 = \<lambda>l w. (crc_bit ^^ 16) (l XOR ucast w),
     mm_crc32_u8 = \<lambda>l w. (crc_bit ^^ 8) (l XOR ucast w)\<rparr>"

lemma crc_hw_reference_ok: "crc_hw_ok crc_hw_reference"
  by (simp add: crc_hw_ok_def crc_hw_reference_def)

lemma crc_Unmask_Mask: "crc_Unmask (crc_Mask crc) = crc"
proof (rule bit_word_eqI)
  fix n assume "n < LENGTH(32)"
  then show "bit (crc_Unmask (crc_Mask crc)) n = bit crc n"
    by (cases "n < 15") (simp_all add: crc_Unmask_def crc_Mask_def bit_simps)
qed

text \<open>C13. All checksum routines agree: the table driven routine, and the routine over CRC instructions on
  every processor whose instructions divide their operand by the Castagnoli polynomial, both compute the
  bit by bit division, for every start value and every data, whatever its length modulo the instruction
  widths. Checksums can be extended piecewise, and unmasking undoes masking.\<close>

theorem crc32c_routines_agree:
  assumes "crc_hw_ok hw"
  shows "ExtendSW crc data = crc_spec crc data \<and> ExtendHW hw crc data = crc_spec crc data \<and>
    ExtendSW (ExtendSW crc data) data2 = ExtendSW crc (data @ data2) \<and> crc_Unmask (crc_Mask crc) = crc"
  using ExtendHW_spec [OF assms] by (simp add: ExtendSW_spec crc_spec_append crc_Unmask_Mask)

lemma crc32c_routines_agree_witness:
  "ExtendHW crc_hw_reference 0 [49, 50, 51, 52, 53, 54, 55, 56, 57] = 0xE3069283"
proof -
  have "ExtendSW 0 [49, 50, 51, 52, 53, 54, 55, 56, 57] = 0xE3069283"
    by (simp add: ExtendSW_def crc_table_step_def kCRC32Xor_def kByteExtensionTable_def)
  then show ?thesis
    using crc32c_routines_agree [OF crc_hw_reference_ok, of 0 "[49, 50, 51, 52, 53, 54, 55, 56, 57]"] by simp
qed

lemma crc_burst_Value:
  assumes "crc_build_ok hw" "length a = length b" "length a \<le> 4" "a \<noteq> b"
  shows "crc_Value hw (before @ a @ after) \<noteq> crc_Value hw (before @ b @ after)"
  using assms crc_burst [OF assms(2,3)]
  by (auto simp: crc_Value_def Extend_spec crc_spec_def xor_cancel_right)

text \<open>C37. Burst errors are always detected: two byte strings of the same length that differ only within four
  consecutive bytes never have the same checksum, whichever routine computes it.\<close>

theorem crc_detects_burst:
  assumes "crc_build_ok hw" and "length a = length b" and "length a \<le> 4" and "a \<noteq> b"
  shows "crc_Value hw (before @ a @ after) \<noteq> crc_Value hw (before @ b @ after)"
  by (rule crc_burst_Value [OF assms])

lemma crc_detects_burst_witness:
  "crc_Value None ([1] @ [2, 3, 4, 5] @ [6]) \<noteq> crc_Value None ([1] @ [2, 0, 4, 4] @ [6])"
  by (rule crc_detects_burst) (simp_all add: crc_build_ok_def)

end
