(* ===== verification/Wal.thy ===== *)
theory Wal
  imports Temporal_Window Descriptor Crc32c "HOL-Library.AList"
begin

text \<open>
  The write-ahead log of the storage engine (\<open>src/include/cedar/transaction/wal.h\<close>,
  \<open>src/src/transaction/wal.cc\<close>): record headers, batches, the writer with its direct and its group
  commit path, and the reader, over the buffered files of \<open>src/src/core/env_posix.cc\<close>. A directory maps file
  names to the bytes handed to the operating system, the length of them that has been synchronised to disk, and
  the bytes still in the buffer of an open file. Outcomes of system calls are an input of the writer, one entry per
  call: \<open>None\<close> succeeds, \<open>Some n\<close> fails (a write after \<open>n\<close> bytes), and an exhausted list means success.
  One step is one call, or one round of the group commit thread; statistics counters are left out.
\<close>

subsection \<open>Fixed width integers\<close>

definition EncodeFixed32 :: "u32 \<Rightarrow> u8 list" where "EncodeFixed32 v = le_bytes 4 v"
definition EncodeFixed16 :: "u16 \<Rightarrow> u8 list" where "EncodeFixed16 v = le_bytes 2 v"
definition EncodeFixed64 :: "u64 \<Rightarrow> u8 list" where "EncodeFixed64 v = le_bytes 8 v"
definition DecodeFixed32 :: "u8 list \<Rightarrow> u32" where "DecodeFixed32 p = le_word (take 4 p)"
definition DecodeFixed16 :: "u8 list \<Rightarrow> u16" where "DecodeFixed16 p = le_word (take 2 p)"
definition DecodeFixed64 :: "u8 list \<Rightarrow> u64" where "DecodeFixed64 p = le_word (take 8 p)"

subsection \<open>Record header\<close>

definition kWalPut :: u8 where "kWalPut = 1"
definition kWalDelete :: u8 where "kWalDelete = 2"
definition kWalBatch :: u8 where "kWalBatch = 3"
definition kWalCommit :: u8 where "kWalCommit = 4"
definition kWalAbort :: u8 where "kWalAbort = 5"

record wal_header =
  wh_crc32 :: u32
  wh_type :: u16
  wh_flags :: u16
  wh_data_length :: u32
  wh_sequence :: u32

definition kHeaderSize :: nat where "kHeaderSize = 16"

definition Header_EncodeTo :: "wal_header \<Rightarrow> u8 list" where
  "Header_EncodeTo h = EncodeFixed32 (wh_crc32 h) @ EncodeFixed16 (wh_type h) @ EncodeFixed16 (wh_flags h) @
     EncodeFixed32 (wh_data_length h) @ EncodeFixed32 (wh_sequence h)"

definition Header_DecodeFrom :: "u8 list \<Rightarrow> wal_header option" where
  "Header_DecodeFrom p = (if length p < kHeaderSize then None else
     Some \<lparr>wh_crc32 = DecodeFixed32 p, wh_type = DecodeFixed16 (drop 4 p), wh_flags = DecodeFixed16 (drop 6 p),
           wh_data_length = DecodeFixed32 (drop 8 p), wh_sequence = DecodeFixed32 (drop 12 p)\<rparr>)"

subsection \<open>Batches\<close>

record wal_op =
  wop_type :: u8
  wop_key :: cedar_key
  wop_descriptor :: descriptor
  wop_txn_version :: timestamp

type_synonym wal_batch = "wal_op list"

definition wal_op_make :: "u8 \<Rightarrow> cedar_key \<Rightarrow> descriptor \<Rightarrow> timestamp \<Rightarrow> wal_op" where
  "wal_op_make t k d v = \<lparr>wop_type = t, wop_key = k, wop_descriptor = d, wop_txn_version = v\<rparr>"

definition Batch_Put :: "cedar_key \<Rightarrow> descriptor \<Rightarrow> timestamp \<Rightarrow> wal_batch \<Rightarrow> wal_batch" where
  "Batch_Put k d v ops = ops @ [wal_op_make kWalPut k d v]"

definition Batch_Delete :: "cedar_key \<Rightarrow> timestamp \<Rightarrow> wal_batch \<Rightarrow> wal_batch" where
  "Batch_Delete k v ops = ops @ [wal_op_make kWalDelete k (Descriptor_Tombstone 0) v]"

definition Batch_Commit :: "cedar_key \<Rightarrow> descriptor \<Rightarrow> timestamp \<Rightarrow> wal_batch \<Rightarrow> wal_batch" where
  "Batch_Commit k d v ops = ops @ [wal_op_make kWalCommit k d v]"

definition Batch_Abort :: "cedar_key \<Rightarrow> descriptor \<Rightarrow> timestamp \<Rightarrow> wal_batch \<Rightarrow> wal_batch" where
  "Batch_Abort k d v ops = ops @ [wal_op_make kWalAbort k d v]"

definition encode_op :: "wal_op \<Rightarrow> u8 list" where
  "encode_op op = wop_type op # EncodeFixed32 (of_nat (length (Encode (wop_key op)))) @ Encode (wop_key op) @
     Descriptor_Encode (wop_descriptor op) @ EncodeFixed64 (wop_txn_version op)"

definition Batch_EncodeTo :: "wal_batch \<Rightarrow> u8 list" where
  "Batch_EncodeTo ops = EncodeFixed32 (of_nat (length ops)) @ concat (map encode_op ops)"

text \<open>Decoding returns the status and the operations decoded so far; \<open>None\<close> is a read behind the end of the
  input. The length check of the source adds in 32 bits.\<close>

fun decode_ops :: "nat \<Rightarrow> u8 list \<Rightarrow> wal_batch \<Rightarrow> (Status \<times> wal_batch) option" where
  "decode_ops 0 input ops = Some (OK, ops)"
| "decode_ops (Suc n) input ops =
    (if length input < 1 + 4 then Some (Corruption, ops)
     else let type = hd input; key_len = DecodeFixed32 (tl input); p = drop 5 input in
       if length p < unat (key_len + 8 + 8) then Some (Corruption, ops)
       else if unat key_len < kKeySize then Some (Corruption, ops)
       else if length p < unat key_len + 8 + 8 then None
       else case Decode (take (unat key_len) p) of
           None \<Rightarrow> Some (Corruption, ops)
         | Some key \<Rightarrow>
             (let q = drop (unat key_len) p in
              case Descriptor_Decode (take 8 q) of
                None \<Rightarrow> Some (Corruption, ops)
              | Some desc \<Rightarrow>
                  decode_ops n (drop 16 q) (ops @ [wal_op_make type key desc (DecodeFixed64 (drop 8 q))])))"

definition Batch_DecodeFrom :: "u8 list \<Rightarrow> (Status \<times> wal_batch) option" where
  "Batch_DecodeFrom input =
    (if length input < 4 then Some (Corruption, [])
     else decode_ops (unat (DecodeFixed32 input)) (drop 4 input) [])"

subsection \<open>Writer\<close>

record wal_options =
  wo_max_file_size :: nat
  wo_group_commit_timeout_us :: nat
  wo_sync_interval_ms :: nat
  wo_sync_threshold :: nat
  wo_sync_on_write :: bool

record wal_file =
  wf_data :: "u8 list"
  wf_durable :: nat
  wf_buffer :: "u8 list"

type_synonym wal_dir = "(string \<times> wal_file) list"

record wal_request =
  rq_batch :: wal_batch
  rq_sequence :: u64

record wal_writer =
  ww_options :: wal_options
  ww_dir :: wal_dir
  ww_dir_exists :: bool
  ww_current :: "string option"
  ww_current_size :: nat
  ww_file_number :: u32
  ww_next_sequence :: u64
  ww_queue :: "wal_request list"
  ww_promises :: "(u64 \<times> Status) list"
  ww_shutdown :: bool
  ww_last_sync :: nat
  ww_unsynced :: u32
  ww_io :: "nat option list"

definition WalWriter_new :: "wal_options \<Rightarrow> bool \<Rightarrow> wal_dir \<Rightarrow> nat option list \<Rightarrow> wal_writer" where
  "WalWriter_new options exists dir io =
     \<lparr>ww_options = options, ww_dir = dir, ww_dir_exists = exists, ww_current = None, ww_current_size = 0,
      ww_file_number = 0, ww_next_sequence = 1, ww_queue = [], ww_promises = [], ww_shutdown = False,
      ww_last_sync = 0, ww_unsynced = 0, ww_io = io\<rparr>"

definition io_call :: "wal_writer \<Rightarrow> nat option \<times> wal_writer" where
  "io_call w = (case ww_io w of [] \<Rightarrow> (None, w) | r # rs \<Rightarrow> (r, w\<lparr>ww_io := rs\<rparr>))"

definition empty_file :: wal_file where
  "empty_file = \<lparr>wf_data = [], wf_durable = 0, wf_buffer = []\<rparr>"

definition file_of :: "wal_writer \<Rightarrow> string \<Rightarrow> wal_file" where
  "file_of w name = (case map_of (ww_dir w) name of Some f \<Rightarrow> f | None \<Rightarrow> empty_file)"

definition set_file :: "string \<Rightarrow> wal_file \<Rightarrow> wal_writer \<Rightarrow> wal_writer" where
  "set_file name f w = w\<lparr>ww_dir := AList.update name f (ww_dir w)\<rparr>"

text \<open>The buffered writable file. The loop over \<open>write\<close> is one outcome: all bytes, or an error after some of them.
  \<open>FlushBuffer\<close> empties the buffer whether or not the write succeeded.\<close>

definition kWritableFileBufferSize :: nat where "kWritableFileBufferSize = 65536"

definition WriteUnbuffered :: "string \<Rightarrow> u8 list \<Rightarrow> wal_writer \<Rightarrow> Status \<times> wal_writer" where
  "WriteUnbuffered name bytes w =
    (if bytes = [] then (OK, w)
     else let (r, w') = io_call w; f = file_of w' name;
              written = (case r of None \<Rightarrow> bytes | Some n \<Rightarrow> take n bytes)
          in (if r = None then OK else IOError, set_file name (f\<lparr>wf_data := wf_data f @ written\<rparr>) w'))"

definition set_buffer :: "string \<Rightarrow> u8 list \<Rightarrow> wal_writer \<Rightarrow> wal_writer" where
  "set_buffer name buf w = set_file name ((file_of w name)\<lparr>wf_buffer := buf\<rparr>) w"

definition FlushBuffer :: "string \<Rightarrow> wal_writer \<Rightarrow> Status \<times> wal_writer" where
  "FlushBuffer name w =
    (let (s, w') = WriteUnbuffered name (wf_buffer (file_of w name)) w in (s, set_buffer name [] w'))"

definition file_Append :: "string \<Rightarrow> u8 list \<Rightarrow> wal_writer \<Rightarrow> Status \<times> wal_writer" where
  "file_Append name bytes w =
    (let buf = wf_buffer (file_of w name); copy_size = kWritableFileBufferSize - length buf;
         rest = drop copy_size bytes; w1 = set_buffer name (buf @ take copy_size bytes) w
     in if rest = [] then (OK, w1)
        else let (s, w2) = FlushBuffer name w1
             in if s \<noteq> OK then (s, w2)
                else if length rest < kWritableFileBufferSize then (OK, set_buffer name rest w2)
                else WriteUnbuffered name rest w2)"

definition file_Sync :: "string \<Rightarrow> wal_writer \<Rightarrow> Status \<times> wal_writer" where
  "file_Sync name w =
    (let (s, w1) = FlushBuffer name w
     in if s \<noteq> OK then (s, w1)
        else let (r, w2) = io_call w1; f = file_of w2 name
             in if r = None then (OK, set_file name (f\<lparr>wf_durable := length (wf_data f)\<rparr>) w2) else (IOError, w2))"

text \<open>Deleting the file object closes it, which flushes the buffer; nobody looks at the outcome.\<close>

definition file_Close :: "string \<Rightarrow> wal_writer \<Rightarrow> wal_writer" where
  "file_Close name w = snd (FlushBuffer name w)"

definition wal_file_name :: "u32 \<Rightarrow> string" where
  "wal_file_name n = to_string_nat (unat n) @ ''.wal''"

definition SwitchWALFile :: "wal_writer \<Rightarrow> Status \<times> wal_writer" where
  "SwitchWALFile w0 =
    (let w1 = (case ww_current w0 of None \<Rightarrow> w0 | Some name \<Rightarrow> (file_Close name (snd (file_Sync name w0)))\<lparr>ww_current := None\<rparr>);
         path = wal_file_name (ww_file_number w1);
         (r, w2) = io_call w1
     in if r \<noteq> None then (IOError, w2)
        else (OK, (set_file path empty_file w2)\<lparr>ww_current := Some path, ww_current_size := 0, ww_file_number := ww_file_number w2 + 1\<rparr>))"

text \<open>The number of a file name, read as the opening loop does, in 32 bits.\<close>

fun parse_number :: "string \<Rightarrow> u32 \<Rightarrow> u32 option" where
  "parse_number [] num = Some num"
| "parse_number (c # cs) num =
     (if 48 \<le> (of_char c :: nat) \<and> (of_char c :: nat) \<le> 57
      then parse_number cs (num * 10 + (of_nat (of_char c) - 48)) else None)"

definition is_wal_name :: "string \<Rightarrow> bool" where
  "is_wal_name file \<longleftrightarrow> 4 < length file \<and> drop (length file - 4) file = ''.wal''"

definition next_file_number :: "string \<Rightarrow> u32 \<Rightarrow> u32" where
  "next_file_number file number =
     (if is_wal_name file then
        (case parse_number (take (length file - 4) file) 0 of
           Some num \<Rightarrow> if number \<le> num then num + 1 else number
         | None \<Rightarrow> number)
      else number)"

definition WalWriter_Open :: "nat \<Rightarrow> wal_writer \<Rightarrow> Status \<times> wal_writer" where
  "WalWriter_Open now w0 =
    (let (s1, w1) = (if ww_dir_exists w0 then (OK, w0)
                     else let (r, w) = io_call w0 in
                          if r = None then (OK, w\<lparr>ww_dir_exists := True\<rparr>) else (IOError, w))
     in if s1 \<noteq> OK then (s1, w1)
        else let (r, w2) = io_call w1 in
          if r \<noteq> None then (IOError, w2)
          else let number = fold next_file_number (map fst (ww_dir w2)) (ww_file_number w2);
                   (s3, w3) = SwitchWALFile (w2\<lparr>ww_file_number := number\<rparr>)
               in if s3 \<noteq> OK then (s3, w3) else (OK, w3\<lparr>ww_last_sync := now\<rparr>))"

definition WalWriter_Sync :: "wal_writer \<Rightarrow> Status \<times> wal_writer" where
  "WalWriter_Sync w = (case ww_current w of None \<Rightarrow> (IOError, w) | Some name \<Rightarrow> file_Sync name w)"

definition WalWriter_Flush :: "wal_writer \<Rightarrow> Status \<times> wal_writer" where
  "WalWriter_Flush w =
    (case ww_current w of
       None \<Rightarrow> (IOError, w)
     | Some name \<Rightarrow> let (s, w') = FlushBuffer name w in (if s \<noteq> OK then IOError else OK, w'))"

text \<open>A record as it is written: header and data, with the next sequence number.\<close>

definition make_record :: "crc_hw option \<Rightarrow> u64 \<Rightarrow> wal_batch \<Rightarrow> u8 list" where
  "make_record hw sequence batch =
    (let data = Batch_EncodeTo batch
     in Header_EncodeTo \<lparr>wh_crc32 = crc_Value hw data, wh_type = ucast kWalBatch, wh_flags = 0,
          wh_data_length = of_nat (length data), wh_sequence = ucast sequence\<rparr> @ data)"

definition WriteInternal :: "crc_hw option \<Rightarrow> wal_batch \<Rightarrow> wal_writer \<Rightarrow> Status \<times> wal_writer" where
  "WriteInternal hw batch w0 =
    (if ww_current w0 = None then (IOError, w0)
     else let bytes = make_record hw (ww_next_sequence w0) batch;
              w1 = w0\<lparr>ww_next_sequence := ww_next_sequence w0 + 1\<rparr>;
              (s2, w2) = (if wo_max_file_size (ww_options w1) < ww_current_size w1 + length bytes
                          then SwitchWALFile w1 else (OK, w1))
          in if s2 \<noteq> OK then (s2, w2)
             else let (s3, w3) = file_Append (the (ww_current w2)) bytes w2
                  in if s3 \<noteq> OK then (IOError, w3)
                     else (OK, w3\<lparr>ww_current_size := ww_current_size w3 + length bytes\<rparr>))"

text \<open>The policy of the two write paths for synchronising: \<open>count\<close> new unsynchronised writes.\<close>

definition need_sync :: "nat \<Rightarrow> nat \<Rightarrow> wal_writer \<Rightarrow> bool \<times> wal_writer" where
  "need_sync now count w =
    (let options = ww_options w in
     if wo_sync_on_write options then (True, w)
     else if 0 < wo_sync_interval_ms options \<or> 0 < wo_sync_threshold options then
       (let unsynced = ww_unsynced w + of_nat count;
            elapsed = int now - int (ww_last_sync w)
        in if (0 < wo_sync_threshold options \<and> wo_sync_threshold options \<le> unat unsynced) \<or>
              (0 < wo_sync_interval_ms options \<and> int (wo_sync_interval_ms options) \<le> elapsed)
           then (True, w\<lparr>ww_last_sync := now, ww_unsynced := 0\<rparr>)
           else (False, w\<lparr>ww_unsynced := unsynced\<rparr>))
     else (False, w))"

definition WriteBatchAsync :: "wal_batch \<Rightarrow> wal_writer \<Rightarrow> u64 \<times> wal_writer" where
  "WriteBatchAsync batch w =
    (let sequence = ww_next_sequence w
     in (sequence, w\<lparr>ww_next_sequence := sequence + 1,
                      ww_queue := ww_queue w @ [\<lparr>rq_batch = batch, rq_sequence = sequence\<rparr>]\<rparr>))"

text \<open>\<open>WPending\<close>: the caller waits for the promise of the request.\<close>

datatype write_result = WDone Status | WPending u64

definition wal_WriteBatch :: "crc_hw option \<Rightarrow> nat \<Rightarrow> wal_batch \<Rightarrow> wal_writer \<Rightarrow> write_result \<times> wal_writer" where
  "wal_WriteBatch hw now batch w0 =
    (if batch = [] then (WDone OK, w0)
     else if ww_current w0 = None then (WDone IOError, w0)
     else if 0 < wo_group_commit_timeout_us (ww_options w0) then
       (let (sequence, w1) = WriteBatchAsync batch w0 in (WPending sequence, w1))
     else let (s1, w1) = WriteInternal hw batch w0
          in if s1 \<noteq> OK then (WDone s1, w1)
             else let (sync, w2) = need_sync now 1 w1
                  in if sync then let (s3, w3) = WalWriter_Sync w2 in (WDone s3, w3) else (WDone OK, w2))"

definition WritePut ::
  "crc_hw option \<Rightarrow> nat \<Rightarrow> cedar_key \<Rightarrow> descriptor \<Rightarrow> timestamp \<Rightarrow> wal_writer \<Rightarrow> write_result \<times> wal_writer" where
  "WritePut hw now key desc v w = wal_WriteBatch hw now (Batch_Put key desc v []) w"

definition WriteDelete ::
  "crc_hw option \<Rightarrow> nat \<Rightarrow> cedar_key \<Rightarrow> timestamp \<Rightarrow> wal_writer \<Rightarrow> write_result \<times> wal_writer" where
  "WriteDelete hw now key v w = wal_WriteBatch hw now (Batch_Delete key v []) w"

definition WriteCommit ::
  "crc_hw option \<Rightarrow> nat \<Rightarrow> u64 \<Rightarrow> timestamp \<Rightarrow> wal_writer \<Rightarrow> write_result \<times> wal_writer" where
  "WriteCommit hw now txn_id v w =
     wal_WriteBatch hw now (Batch_Put CedarKey_default (InlineInt 0 (ucast txn_id)) v []) w"

definition WriteAbort ::
  "crc_hw option \<Rightarrow> nat \<Rightarrow> u64 \<Rightarrow> timestamp \<Rightarrow> wal_writer \<Rightarrow> write_result \<times> wal_writer" where
  "WriteAbort hw now txn_id v w = wal_WriteBatch hw now (Batch_Put CedarKey_default (Descriptor_Tombstone 0) v []) w"

subsection \<open>Group commit\<close>

text \<open>The loop over the queued requests collects records in a buffer and flushes it before it switches files.
  The result is the status with which the loop ended, the buffer and the writer.\<close>

fun group_loop :: "crc_hw option \<Rightarrow> wal_request list \<Rightarrow> u8 list \<Rightarrow> wal_writer \<Rightarrow> Status \<times> u8 list \<times> wal_writer" where
  "group_loop hw [] buf w = (OK, buf, w)"
| "group_loop hw (rq # rqs) buf w0 =
    (let bytes = make_record hw (ww_next_sequence w0) (rq_batch rq);
         w1 = w0\<lparr>ww_next_sequence := ww_next_sequence w0 + 1\<rparr>
     in if wo_max_file_size (ww_options w1) < ww_current_size w1 + length buf + length bytes then
          (let (s2, buf2, w2) =
             (case ww_current w1 of
                Some name \<Rightarrow>
                  if buf = [] then (OK, buf, w1)
                  else (let (s, w) = file_Append name buf w1 in
                        if s \<noteq> OK then (IOError, buf, w)
                        else (OK, [], w\<lparr>ww_current_size := ww_current_size w + length buf\<rparr>))
              | None \<Rightarrow> (OK, buf, w1))
           in if s2 \<noteq> OK then (s2, buf2, w2)
              else let (s3, w3) = SwitchWALFile w2
                   in if s3 \<noteq> OK then (s3, buf2, w3) else group_loop hw rqs (buf2 @ bytes) w3)
        else group_loop hw rqs (buf @ bytes) w1)"

definition flush_buffer :: "Status \<Rightarrow> u8 list \<Rightarrow> wal_writer \<Rightarrow> Status \<times> wal_writer" where
  "flush_buffer status buf w =
    (case ww_current w of
       Some name \<Rightarrow>
         if status = OK \<and> buf \<noteq> [] then
           (let (s, w') = file_Append name buf w in
            if s = OK then (OK, w'\<lparr>ww_current_size := ww_current_size w' + length buf\<rparr>) else (IOError, w'))
         else (status, w)
     | None \<Rightarrow> (status, w))"

definition group_sync :: "nat \<Rightarrow> nat \<Rightarrow> Status \<Rightarrow> wal_writer \<Rightarrow> Status \<times> wal_writer" where
  "group_sync now count status w =
    (case ww_current w of
       Some name \<Rightarrow>
         if status = OK then
           (let (sync, w') = need_sync now count w in if sync then file_Sync name w' else (OK, w'))
         else (status, w)
     | None \<Rightarrow> (status, w))"

definition ProcessGroupCommit :: "crc_hw option \<Rightarrow> nat \<Rightarrow> wal_writer \<Rightarrow> wal_writer" where
  "ProcessGroupCommit hw now w =
    (if ww_shutdown w then w
     else let batch = ww_queue w in
       if batch = [] then w
       else let (s1, buf, w1) = group_loop hw batch [] (w\<lparr>ww_queue := []\<rparr>);
                (s2, w2) = flush_buffer s1 buf w1;
                (s3, w3) = group_sync now (length batch) s2 w2
            in w3\<lparr>ww_promises := ww_promises w3 @ map (\<lambda>rq. (rq_sequence rq, s3)) batch\<rparr>)"

definition WalWriter_Close :: "crc_hw option \<Rightarrow> nat \<Rightarrow> wal_writer \<Rightarrow> Status \<times> wal_writer" where
  "WalWriter_Close hw now w0 =
    (if ww_shutdown w0 then (OK, w0)
     else let w1 = ProcessGroupCommit hw now (w0\<lparr>ww_shutdown := True\<rparr>)
          in (OK, case ww_current w1 of
                    None \<Rightarrow> w1
                  | Some name \<Rightarrow> (file_Close name (snd (file_Sync name w1)))\<lparr>ww_current := None\<rparr>))"

subsection \<open>Reader\<close>

record wal_reader =
  rd_data :: "u8 list"
  rd_open :: bool
  rd_offset :: nat

text \<open>Opening a file: \<open>None\<close> has no size, an empty file needs no handle.\<close>

definition WalReader_Open :: "u8 list option \<Rightarrow> bool \<Rightarrow> Status \<times> wal_reader" where
  "WalReader_Open file can_open =
    (case file of
       None \<Rightarrow> (IOError, \<lparr>rd_data = [], rd_open = False, rd_offset = 0\<rparr>)
     | Some data \<Rightarrow>
         if data = [] then (OK, \<lparr>rd_data = data, rd_open = False, rd_offset = 0\<rparr>)
         else if can_open then (OK, \<lparr>rd_data = data, rd_open = True, rd_offset = 0\<rparr>)
         else (IOError, \<lparr>rd_data = data, rd_open = False, rd_offset = 0\<rparr>))"

text \<open>Reading a record into \<open>batch\<close> and \<open>sequence\<close>, which keep their value where the source leaves them
  untouched. \<open>ok off n\<close> tells whether the read of \<open>n\<close> bytes at \<open>off\<close> succeeds, and the result \<open>None\<close> is
  a read behind the end of the record's data.\<close>

definition ReadNextRecord ::
  "crc_hw option \<Rightarrow> (nat \<Rightarrow> nat \<Rightarrow> bool) \<Rightarrow> wal_batch \<Rightarrow> u64 \<Rightarrow> wal_reader \<Rightarrow>
   (Status \<times> wal_batch \<times> u64 \<times> wal_reader) option" where
  "ReadNextRecord hw ok batch sequence r =
    (let file_size = length (rd_data r) in
     if \<not> rd_open r \<or> file_size < rd_offset r + kHeaderSize then Some (NotFound, batch, sequence, r)
     else if \<not> ok (rd_offset r) kHeaderSize then Some (IOError, batch, sequence, r)
     else case Header_DecodeFrom (take kHeaderSize (drop (rd_offset r) (rd_data r))) of
         None \<Rightarrow> Some (Corruption, batch, sequence, r\<lparr>rd_offset := rd_offset r + 1\<rparr>)
       | Some header \<Rightarrow>
           (let sequence' = ucast (wh_sequence header);
                data_offset = rd_offset r + kHeaderSize;
                len = unat (wh_data_length header);
                skipped = r\<lparr>rd_offset := data_offset + len\<rparr>
            in if file_size < data_offset + len then Some (Corruption, batch, sequence', skipped)
               else if \<not> ok data_offset len then Some (IOError, batch, sequence', r)
               else let data = take len (drop data_offset (rd_data r)) in
                 if crc_Value hw data \<noteq> wh_crc32 header then Some (Corruption, batch, sequence', skipped)
                 else case Batch_DecodeFrom data of
                     None \<Rightarrow> None
                   | Some (st, ops) \<Rightarrow> Some (if st \<noteq> OK then Corruption else OK, ops, sequence', skipped)))"

text \<open>\<open>std::sort\<close> of file names compares them as byte strings.\<close>

fun string_less :: "string \<Rightarrow> string \<Rightarrow> bool" where
  "string_less xs [] = False"
| "string_less [] (y # ys) = True"
| "string_less (x # xs) (y # ys) \<longleftrightarrow>
     (of_char x :: nat) < of_char y \<or> (of_char x :: nat) = of_char y \<and> string_less xs ys"

fun insert_name :: "string \<Rightarrow> string list \<Rightarrow> string list" where
  "insert_name f [] = [f]"
| "insert_name f (g # gs) = (if string_less g f then g # insert_name f gs else f # g # gs)"

definition ListWALFiles :: "string \<Rightarrow> string list \<Rightarrow> string list" where
  "ListWALFiles wal_dir entries =
     foldr insert_name (map (\<lambda>f. wal_dir @ ''/'' @ f) (filter is_wal_name entries)) []"

subsection \<open>Codecs\<close>

lemmas fixed_defs = EncodeFixed16_def EncodeFixed32_def EncodeFixed64_def
  DecodeFixed16_def DecodeFixed32_def DecodeFixed64_def

lemma length_Header_EncodeTo [simp]: "length (Header_EncodeTo h) = kHeaderSize"
  by (simp add: Header_EncodeTo_def fixed_defs kHeaderSize_def)

lemma Header_not_Nil [simp]: "Header_EncodeTo h \<noteq> []"
  by (simp add: Header_EncodeTo_def fixed_defs)

lemma Header_roundtrip: "Header_DecodeFrom (Header_EncodeTo h @ rest) = Some h"
  by (cases h) (simp add: Header_DecodeFrom_def Header_EncodeTo_def fixed_defs kHeaderSize_def)

lemma Decode_Encode [simp]: "Decode (Encode k) = Some k"
  using Decode_ptr_Encode [of k "[]"] by (simp add: Decode_def kKeySize_def)

lemma length_encode_op [simp]: "length (encode_op op) = 53"
  by (simp add: encode_op_def fixed_defs Descriptor_Encode_def)

lemma decode_ops_encode:
  "decode_ops (length ops) (concat (map encode_op ops) @ rest) acc = Some (OK, acc @ ops)"
proof (induction ops arbitrary: acc)
  case (Cons op ops)
  let ?tail = "concat (map encode_op ops) @ rest"
  have "decode_ops (Suc (length ops)) (encode_op op @ ?tail) acc = decode_ops (length ops) ?tail (acc @ [op])"
    by (cases op) (simp add: encode_op_def fixed_defs kKeySize_def Let_def wal_op_make_def cong: if_cong option.case_cong)
  then show ?case using Cons by simp
qed simp

lemma length_Batch_EncodeTo: "length (Batch_EncodeTo ops) = 4 + 53 * length ops"
  by (simp add: Batch_EncodeTo_def fixed_defs length_concat comp_def sum_list_triv)

definition batch_fits :: "wal_batch \<Rightarrow> bool" where
  "batch_fits ops \<longleftrightarrow> 4 + 53 * length ops < 2 ^ 32"

lemma Batch_roundtrip:
  assumes "batch_fits ops"
  shows "Batch_DecodeFrom (Batch_EncodeTo ops @ rest) = Some (OK, ops)"
proof -
  have "unat (of_nat (length ops) :: u32) = length ops"
    using assms by (simp add: batch_fits_def unat_of_nat_u32)
  then show ?thesis
    using decode_ops_encode [of ops rest "[]"] by (simp add: Batch_DecodeFrom_def Batch_EncodeTo_def fixed_defs)
qed

subsection \<open>Records in a file\<close>

type_synonym log_entry = "u64 \<times> wal_batch"

definition entry_bytes :: "crc_hw option \<Rightarrow> log_entry \<Rightarrow> u8 list" where
  "entry_bytes hw e = make_record hw (fst e) (snd e)"

definition log_bytes :: "crc_hw option \<Rightarrow> log_entry list \<Rightarrow> u8 list" where
  "log_bytes hw es = concat (map (entry_bytes hw) es)"

lemma log_bytes_simps [simp]:
  "log_bytes hw [] = []" "log_bytes hw (e # es) = entry_bytes hw e @ log_bytes hw es"
  "log_bytes hw (es @ fs) = log_bytes hw es @ log_bytes hw fs"
  by (simp_all add: log_bytes_def)

lemma length_entry_bytes: "length (entry_bytes hw e) = kHeaderSize + length (Batch_EncodeTo (snd e))"
  by (simp add: entry_bytes_def make_record_def Let_def)

text \<open>A reader at the start of a record, and at its end.\<close>

definition reader_at :: "u8 list \<Rightarrow> u8 list \<Rightarrow> wal_reader" where
  "reader_at pre rest = \<lparr>rd_data = pre @ rest, rd_open = (pre @ rest \<noteq> []), rd_offset = length pre\<rparr>"

lemma Read_entry:
  assumes "batch_fits b"
  shows "ReadNextRecord hw (\<lambda>_ _. True) batch sq (reader_at pre (entry_bytes hw (s, b) @ rest)) =
    Some (OK, b, ucast (ucast s :: u32), reader_at (pre @ entry_bytes hw (s, b)) rest)"
proof -
  have len: "unat (of_nat (length (Batch_EncodeTo b)) :: u32) = length (Batch_EncodeTo b)"
    by (rule unat_of_nat_u32) (use assms in \<open>simp add: batch_fits_def length_Batch_EncodeTo\<close>)
  show ?thesis
    using Batch_roundtrip [OF assms, of "[]"]
    by (simp add: ReadNextRecord_def reader_at_def entry_bytes_def make_record_def Let_def
        Header_roundtrip [of _ "[]", simplified] len kHeaderSize_def [symmetric])
qed

lemma Read_end:
  "length rest < kHeaderSize \<Longrightarrow> ReadNextRecord hw ok batch sq (reader_at pre rest) = Some (NotFound, batch, sq, reader_at pre rest)"
  by (simp add: ReadNextRecord_def reader_at_def)

text \<open>A record cut off behind its header is reported and the reader ends behind the file.\<close>

lemma Read_torn:
  assumes "batch_fits b" and n: "kHeaderSize \<le> n" "n < length (entry_bytes hw (s, b))"
  shows "\<exists>r. ReadNextRecord hw (\<lambda>_ _. True) batch sq (reader_at pre (take n (entry_bytes hw (s, b)))) =
      Some (Corruption, batch, ucast (ucast s :: u32), r) \<and> length (rd_data r) < rd_offset r + kHeaderSize"
proof -
  have len: "unat (of_nat (length (Batch_EncodeTo b)) :: u32) = length (Batch_EncodeTo b)"
    by (rule unat_of_nat_u32) (use assms in \<open>simp add: batch_fits_def length_Batch_EncodeTo\<close>)
  obtain m where m: "n = kHeaderSize + m" using n(1) le_Suc_ex by blast
  have "m < length (Batch_EncodeTo b)" using n(2) by (simp add: m length_entry_bytes)
  then show ?thesis
    using Header_roundtrip [of _ "[]", simplified]
    by (simp add: ReadNextRecord_def reader_at_def entry_bytes_def make_record_def Let_def len m
        kHeaderSize_def [symmetric])
qed

text \<open>A record whose data was damaged within four consecutive bytes is reported and skipped.\<close>

definition damaged_entry :: "crc_hw option \<Rightarrow> log_entry \<Rightarrow> u8 list \<Rightarrow> u8 list" where
  "damaged_entry hw e data = take kHeaderSize (entry_bytes hw e) @ data"

definition burst_damage :: "u8 list \<Rightarrow> u8 list \<Rightarrow> bool" where
  "burst_damage good bad \<longleftrightarrow> (\<exists>before a b after. good = before @ a @ after \<and> bad = before @ b @ after \<and>
     length a = length b \<and> length a \<le> 4 \<and> a \<noteq> b)"

lemma Read_damaged:
  assumes fits: "batch_fits b" and hw: "crc_build_ok hw" and bad: "burst_damage (Batch_EncodeTo b) data"
  shows "ReadNextRecord hw (\<lambda>_ _. True) batch sq (reader_at pre (damaged_entry hw (s, b) data @ rest)) =
    Some (Corruption, batch, ucast (ucast s :: u32), reader_at (pre @ damaged_entry hw (s, b) data) rest)"
proof -
  have len: "unat (of_nat (length (Batch_EncodeTo b)) :: u32) = length (Batch_EncodeTo b)"
    by (rule unat_of_nat_u32) (use fits in \<open>simp add: batch_fits_def length_Batch_EncodeTo\<close>)
  have data: "length data = length (Batch_EncodeTo b)" using bad by (auto simp: burst_damage_def)
  have "crc_Value hw data \<noteq> crc_Value hw (Batch_EncodeTo b)"
    using bad crc_burst_Value [OF hw] unfolding burst_damage_def by metis
  then show ?thesis
    using Header_roundtrip [of _ "[]", simplified] data
    by (simp add: ReadNextRecord_def reader_at_def damaged_entry_def entry_bytes_def make_record_def Let_def len
        kHeaderSize_def [symmetric])
qed

subsection \<open>Directory of a writer\<close>

lemma wal_file_name_inject:
  assumes "wal_file_name m = wal_file_name n"
  shows "m = n"
proof -
  have "to_string_nat (unat m) = to_string_nat (unat n)" using assms by (simp add: wal_file_name_def)
  then have "unat m = unat n" using digits_value_to_string by metis
  then show ?thesis by (rule unsigned_word_eqI)
qed

definition file_path :: "nat \<Rightarrow> string" where
  "file_path i = wal_file_name (of_nat i)"

lemma file_path_inject:
  assumes "i < 2 ^ 32" "j < 2 ^ 32" "file_path i = file_path j"
  shows "i = j"
  using wal_file_name_inject [OF assms(3) [unfolded file_path_def]] unat_of_nat_u32 [OF assms(1)] unat_of_nat_u32 [OF assms(2)]
  by metis

text \<open>The files \<open>0.wal\<close>, \<open>1.wal\<close> and so on, in the order of their creation.\<close>

definition dir_of :: "wal_file list \<Rightarrow> wal_dir" where
  "dir_of fs = map (\<lambda>(i, f). (file_path i, f)) (enumerate 0 fs)"

lemma dir_of_snoc: "dir_of (fs @ [f]) = dir_of fs @ [(file_path (length fs), f)]"
  by (simp add: dir_of_def enumerate_append_eq)

lemma AList_update_new: "k \<notin> fst ` set xs \<Longrightarrow> AList.update k v xs = xs @ [(k, v)]"
  by (induction xs) auto

lemma AList_update_last: "k \<notin> fst ` set xs \<Longrightarrow> AList.update k v (xs @ [(k, u)]) = xs @ [(k, v)]"
  by (induction xs) auto

lemma file_path_fresh: "length fs < 2 ^ 32 \<Longrightarrow> file_path (length fs) \<notin> fst ` set (dir_of fs)"
proof
  assume len: "length fs < 2 ^ 32" and "file_path (length fs) \<in> fst ` set (dir_of fs)"
  then obtain i where i: "i < length fs" "file_path (length fs) = file_path i"
    by (auto simp: dir_of_def in_set_enumerate_eq)
  then show False using file_path_inject [OF len _ i(2)] len by simp
qed

lemma dir_of_update_new: "length fs < 2 ^ 32 \<Longrightarrow> AList.update (file_path (length fs)) f (dir_of fs) = dir_of (fs @ [f])"
  by (simp add: AList_update_new file_path_fresh dir_of_snoc)

lemma dir_of_update_last:
  "length fs < 2 ^ 32 \<Longrightarrow> AList.update (file_path (length fs)) f' (dir_of (fs @ [f])) = dir_of (fs @ [f'])"
  by (simp add: AList_update_last file_path_fresh dir_of_snoc)

lemma map_of_dir_last: "length fs < 2 ^ 32 \<Longrightarrow> map_of (dir_of (fs @ [f])) (file_path (length fs)) = Some f"
  using file_path_fresh [of fs] by (simp add: dir_of_snoc map_add_dom_app_simps dom_map_of_conv_image_fst)

subsection \<open>Writer states\<close>

text \<open>A writer that was opened on the files \<open>prior\<close>, whose finished files hold the entry lists \<open>old\<close>, all
  synchronised, and whose current file holds \<open>cur\<close>: \<open>fst d\<close> bytes of it are synchronised, \<open>snd d\<close> bytes are written
  and the others are in the buffer.\<close>

definition stored_file :: "u8 list \<Rightarrow> wal_file" where
  "stored_file x = \<lparr>wf_data = x, wf_durable = length x, wf_buffer = []\<rparr>"

lemma stored_file_simps [simp]: "wf_data (stored_file x) = x" "wf_durable (stored_file x) = length x" "wf_buffer (stored_file x) = []"
  by (simp_all add: stored_file_def)

definition open_file :: "crc_hw option \<Rightarrow> log_entry list \<Rightarrow> nat \<times> nat \<Rightarrow> wal_file" where
  "open_file hw cur d = \<lparr>wf_data = take (snd d) (log_bytes hw cur), wf_durable = fst d, wf_buffer = drop (snd d) (log_bytes hw cur)\<rparr>"

definition closed_files :: "crc_hw option \<Rightarrow> u8 list list \<Rightarrow> log_entry list list \<Rightarrow> wal_file list" where
  "closed_files hw prior old = map stored_file (prior @ map (log_bytes hw) old)"

lemma length_closed_files [simp]: "length (closed_files hw prior old) = length prior + length old"
  by (simp add: closed_files_def)

definition on_disk :: "crc_hw option \<Rightarrow> u8 list list \<Rightarrow> log_entry list list \<Rightarrow> log_entry list \<Rightarrow> nat \<times> nat \<Rightarrow> wal_writer \<Rightarrow> wal_writer" where
  "on_disk hw prior old cur d w =
     w\<lparr>ww_dir := dir_of (closed_files hw prior old @ [open_file hw cur d]),
       ww_current := Some (file_path (length prior + length old)), ww_current_size := length (log_bytes hw cur),
       ww_file_number := of_nat (Suc (length prior + length old)), ww_io := []\<rparr>"

lemma on_disk_simps [simp]:
  "ww_options (on_disk hw prior old cur d w) = ww_options w" "ww_queue (on_disk hw prior old cur d w) = ww_queue w"
  "ww_promises (on_disk hw prior old cur d w) = ww_promises w" "ww_shutdown (on_disk hw prior old cur d w) = ww_shutdown w"
  "ww_next_sequence (on_disk hw prior old cur d w) = ww_next_sequence w" "ww_io (on_disk hw prior old cur d w) = []"
  "ww_current (on_disk hw prior old cur d w) = Some (file_path (length prior + length old))"
  "ww_current_size (on_disk hw prior old cur d w) = length (log_bytes hw cur)"
  "ww_unsynced (on_disk hw prior old cur d w) = ww_unsynced w" "ww_last_sync (on_disk hw prior old cur d w) = ww_last_sync w"
  by (simp_all add: on_disk_def)

lemma on_disk_update [simp]:
  "(on_disk hw prior old cur d w)\<lparr>ww_next_sequence := n\<rparr> = on_disk hw prior old cur d (w\<lparr>ww_next_sequence := n\<rparr>)"
  "(on_disk hw prior old cur d w)\<lparr>ww_queue := q\<rparr> = on_disk hw prior old cur d (w\<lparr>ww_queue := q\<rparr>)"
  "(on_disk hw prior old cur d w)\<lparr>ww_promises := p\<rparr> = on_disk hw prior old cur d (w\<lparr>ww_promises := p\<rparr>)"
  "(on_disk hw prior old cur d w)\<lparr>ww_last_sync := t\<rparr> = on_disk hw prior old cur d (w\<lparr>ww_last_sync := t\<rparr>)"
  "(on_disk hw prior old cur d w)\<lparr>ww_unsynced := u\<rparr> = on_disk hw prior old cur d (w\<lparr>ww_unsynced := u\<rparr>)"
  "(on_disk hw prior old cur d w)\<lparr>ww_shutdown := b\<rparr> = on_disk hw prior old cur d (w\<lparr>ww_shutdown := b\<rparr>)"
  by (simp_all add: on_disk_def)

text \<open>The current file of such a writer can be any file; this is how the operations on it are computed.\<close>

definition with_file :: "u8 list list \<Rightarrow> crc_hw option \<Rightarrow> log_entry list list \<Rightarrow> wal_file \<Rightarrow> wal_writer \<Rightarrow> wal_writer" where
  "with_file prior hw old f w = w\<lparr>ww_dir := dir_of (closed_files hw prior old @ [f]), ww_io := []\<rparr>"

lemma with_file_simps [simp]:
  "file_path (length prior + length old) = name \<Longrightarrow> length prior + length old < 2 ^ 32 \<Longrightarrow> file_of (with_file prior hw old f w) name = f"
  "file_path (length prior + length old) = name \<Longrightarrow> length prior + length old < 2 ^ 32 \<Longrightarrow>
     set_file name f' (with_file prior hw old f w) = with_file prior hw old f' w"
  "io_call (with_file prior hw old f w) = (None, with_file prior hw old f w)"
  using map_of_dir_last [of "closed_files hw prior old"] dir_of_update_last [of "closed_files hw prior old"]
  by (auto simp: with_file_def file_of_def set_file_def io_call_def)

lemma file_ops_with_file:
  assumes "length prior + length old < 2 ^ 32" and "file_path (length prior + length old) = name"
  shows "FlushBuffer name (with_file prior hw old f w) =
      (OK, with_file prior hw old (f\<lparr>wf_data := wf_data f @ wf_buffer f, wf_buffer := []\<rparr>) w)"
    "file_Sync name (with_file prior hw old f w) = (OK, with_file prior hw old (stored_file (wf_data f @ wf_buffer f)) w)"
    "file_Close name (with_file prior hw old f w) = with_file prior hw old (f\<lparr>wf_data := wf_data f @ wf_buffer f, wf_buffer := []\<rparr>) w"
    "\<exists>k. file_Append name bytes (with_file prior hw old f w) = (OK, with_file prior hw old
       (f\<lparr>wf_data := wf_data f @ take k (wf_buffer f @ bytes), wf_buffer := drop k (wf_buffer f @ bytes)\<rparr>) w)"
proof -
  have W: "WriteUnbuffered name bs (with_file prior hw old g w) = (OK, with_file prior hw old (g\<lparr>wf_data := wf_data g @ bs\<rparr>) w)" for bs g
    using assms by (simp add: WriteUnbuffered_def)
  have B: "set_buffer name bs (with_file prior hw old g w) = with_file prior hw old (g\<lparr>wf_buffer := bs\<rparr>) w" for bs g
    using assms by (simp add: set_buffer_def)
  show F: "FlushBuffer name (with_file prior hw old g w) =
      (OK, with_file prior hw old (g\<lparr>wf_data := wf_data g @ wf_buffer g, wf_buffer := []\<rparr>) w)" for g
    using assms by (simp add: FlushBuffer_def W B)
  show "file_Sync name (with_file prior hw old f w) = (OK, with_file prior hw old (stored_file (wf_data f @ wf_buffer f)) w)"
    using assms by (cases f) (simp add: file_Sync_def F stored_file_def)
  show "file_Close name (with_file prior hw old f w) = with_file prior hw old (f\<lparr>wf_data := wf_data f @ wf_buffer f, wf_buffer := []\<rparr>) w"
    by (simp add: file_Close_def F)
  let ?n = "kWritableFileBufferSize - length (wf_buffer f)" and ?all = "wf_buffer f @ bytes"
  consider "drop ?n bytes = []" | "drop ?n bytes \<noteq> []" "length (drop ?n bytes) < kWritableFileBufferSize"
    | "drop ?n bytes \<noteq> []" "\<not> length (drop ?n bytes) < kWritableFileBufferSize" by blast
  then show "\<exists>k. file_Append name bytes (with_file prior hw old f w) = (OK, with_file prior hw old
       (f\<lparr>wf_data := wf_data f @ take k ?all, wf_buffer := drop k ?all\<rparr>) w)"
  proof cases
    case 1
    then show ?thesis using assms by (intro exI [of _ 0]) (simp add: file_Append_def B)
  next
    case 2
    then show ?thesis
      using assms by (intro exI [of _ "length (wf_buffer f) + ?n"]) (simp add: file_Append_def Let_def B F)
  next
    case 3
    then show ?thesis
      using assms by (intro exI [of _ "length ?all"]) (cases f; simp add: file_Append_def Let_def B F W)
  qed
qed

lemma on_disk_with_file:
  "on_disk hw prior old cur d w = with_file prior hw old (open_file hw cur d)
     (w\<lparr>ww_current := Some (file_path (length prior + length old)), ww_current_size := length (log_bytes hw cur),
        ww_file_number := of_nat (Suc (length prior + length old))\<rparr>)"
  by (simp add: on_disk_def with_file_def)

lemma io_call_on_disk [simp]: "io_call (on_disk hw prior old cur d w) = (None, on_disk hw prior old cur d w)"
  by (simp add: io_call_def)

lemma Append_on_disk:
  assumes "length prior + length old < 2 ^ 32" and "snd d \<le> length (log_bytes hw cur)"
  shows "\<exists>w' e. file_Append (file_path (length prior + length old)) (log_bytes hw es) (on_disk hw prior old cur d w) = (OK, w') \<and>
    snd d \<le> e \<and> e \<le> length (log_bytes hw (cur @ es)) \<and>
    w'\<lparr>ww_current_size := ww_current_size w' + length (log_bytes hw es)\<rparr> = on_disk hw prior old (cur @ es) (fst d, e) w"
proof -
  let ?v = "w\<lparr>ww_current := Some (file_path (length prior + length old)), ww_current_size := length (log_bytes hw cur),
        ww_file_number := of_nat (Suc (length prior + length old))\<rparr>"
  let ?bs = "log_bytes hw es"
  obtain k where k: "file_Append (file_path (length prior + length old)) ?bs (with_file prior hw old (open_file hw cur d) ?v) =
      (OK, with_file prior hw old ((open_file hw cur d)\<lparr>wf_data := wf_data (open_file hw cur d) @ take k (wf_buffer (open_file hw cur d) @ ?bs),
        wf_buffer := drop k (wf_buffer (open_file hw cur d) @ ?bs)\<rparr>) ?v)"
    using file_ops_with_file(4) [OF assms(1) refl] by blast
  define e where "e = min (snd d + k) (length (log_bytes hw (cur @ es)))"
  let ?all = "log_bytes hw (cur @ es)"
  have "take (snd d) (log_bytes hw cur) = take (snd d) ?all" "drop (snd d) (log_bytes hw cur) @ ?bs = drop (snd d) ?all"
    using assms(2) by simp_all
  moreover have "take (snd d) ?all @ take k (drop (snd d) ?all) = take e ?all" "drop k (drop (snd d) ?all) = drop e ?all"
    unfolding e_def take_add [symmetric] drop_drop by (simp_all only: add.commute [of k] min_def split: if_split) simp_all
  ultimately have "(open_file hw cur d)\<lparr>wf_data := wf_data (open_file hw cur d) @ take k (wf_buffer (open_file hw cur d) @ ?bs),
        wf_buffer := drop k (wf_buffer (open_file hw cur d) @ ?bs)\<rparr> = open_file hw (cur @ es) (fst d, e)"
    by (simp only: open_file_def wal_file.simps fst_conv snd_conv)
  then have "file_Append (file_path (length prior + length old)) ?bs (on_disk hw prior old cur d w) =
      (OK, with_file prior hw old (open_file hw (cur @ es) (fst d, e)) ?v)"
    unfolding on_disk_with_file k by simp
  moreover have "snd d \<le> e" "e \<le> length (log_bytes hw (cur @ es))" using assms(2) by (simp_all add: e_def)
  ultimately show ?thesis by (auto simp: on_disk_with_file) (auto simp: with_file_def)
qed

lemma Flush_on_disk:
  assumes "length prior + length old < 2 ^ 32"
  shows "FlushBuffer (file_path (length prior + length old)) (on_disk hw prior old cur d w) =
    (OK, on_disk hw prior old cur (fst d, length (log_bytes hw cur)) w)"
  unfolding on_disk_with_file file_ops_with_file(1) [OF assms refl] by (simp add: open_file_def)

lemma open_file_synced: "open_file hw cur (length (log_bytes hw cur), length (log_bytes hw cur)) = stored_file (log_bytes hw cur)"
  by (simp add: open_file_def stored_file_def)

lemma Sync_on_disk:
  assumes "length prior + length old < 2 ^ 32"
  shows "file_Sync (file_path (length prior + length old)) (on_disk hw prior old cur d w) =
    (OK, on_disk hw prior old cur (length (log_bytes hw cur), length (log_bytes hw cur)) w)"
  unfolding on_disk_with_file file_ops_with_file(2) [OF assms refl] open_file_synced by (simp add: open_file_def)

lemma Switch_on_disk:
  assumes "Suc (length prior + length old) < 2 ^ 32"
  shows "SwitchWALFile (on_disk hw prior old cur d w) = (OK, on_disk hw prior (old @ [cur]) [] (0, 0) w)"
proof -
  have len: "length prior + length old < 2 ^ 32" using assms by simp
  let ?n = "(length (log_bytes hw cur), length (log_bytes hw cur))"
  have close: "file_Close (file_path (length prior + length old)) (on_disk hw prior old cur ?n w) = on_disk hw prior old cur ?n w"
    unfolding on_disk_with_file open_file_synced file_ops_with_file(3) [OF len refl] by (simp add: stored_file_def)
  have new: "AList.update (file_path (Suc (length prior + length old))) f (dir_of (closed_files hw prior old @ [open_file hw cur ?n])) =
      dir_of (closed_files hw prior (old @ [cur]) @ [f])" for f
    using dir_of_update_new [of "closed_files hw prior (old @ [cur])" f] assms by (simp add: closed_files_def open_file_synced)
  have path: "wal_file_name (1 + (word_of_nat (length prior) + word_of_nat (length old))) = file_path (Suc (length prior + length old))"
    by (simp add: file_path_def)
  have e: "empty_file = open_file hw [] (0, 0)" by (simp add: empty_file_def open_file_def)
  show ?thesis
    by (simp add: SwitchWALFile_def io_call_def Sync_on_disk [OF len] close Let_def set_file_def)
       (rule wal_writer.equality; simp add: on_disk_def new path e [symmetric])
qed

subsection \<open>What the writer does to its files\<close>

text \<open>Finished files, current file, and of the current file the bytes that are synchronised and written.\<close>

type_synonym disk = "log_entry list list \<times> log_entry list \<times> nat \<times> nat"

inductive disk_step :: "crc_hw option \<Rightarrow> disk \<Rightarrow> disk \<Rightarrow> bool" for hw where
  disk_append: "e \<le> e' \<Longrightarrow> e' \<le> length (log_bytes hw (cur @ es)) \<Longrightarrow> disk_step hw (old, cur, d, e) (old, cur @ es, d, e')"
| disk_sync: "disk_step hw (old, cur, d) (old, cur, length (log_bytes hw cur), length (log_bytes hw cur))"
| disk_switch: "disk_step hw (old, cur, d) (old @ [cur], [], 0, 0)"

abbreviation disk_steps :: "crc_hw option \<Rightarrow> disk \<Rightarrow> disk \<Rightarrow> bool" where
  "disk_steps hw \<equiv> (disk_step hw)\<^sup>*\<^sup>*"

fun disk_log :: "disk \<Rightarrow> log_entry list" where
  "disk_log (old, cur, d) = concat old @ cur"

text \<open>Only written bytes are synchronised.\<close>

fun disk_ok :: "crc_hw option \<Rightarrow> disk \<Rightarrow> bool" where
  "disk_ok hw (old, cur, d, e) \<longleftrightarrow> d \<le> e \<and> e \<le> length (log_bytes hw cur)"

text \<open>The first \<open>j\<close> entries are synchronised.\<close>

fun disk_safe :: "crc_hw option \<Rightarrow> nat \<Rightarrow> disk \<Rightarrow> bool" where
  "disk_safe hw j (old, cur, d, e) \<longleftrightarrow> disk_ok hw (old, cur, d, e) \<and>
     (j \<le> length (concat old) \<or>
      (\<exists>i \<le> length cur. j \<le> length (concat old) + i \<and> length (log_bytes hw (take i cur)) \<le> d))"

lemma disk_ok_step: "disk_step hw D D' \<Longrightarrow> disk_ok hw D \<Longrightarrow> disk_ok hw D'"
  by (induction rule: disk_step.induct) auto

lemma disk_ok_steps: "disk_steps hw D D' \<Longrightarrow> disk_ok hw D \<Longrightarrow> disk_ok hw D'"
  by (induction rule: rtranclp_induct) (auto dest: disk_ok_step)

lemma disk_safe_step: "disk_step hw D D' \<Longrightarrow> disk_safe hw j D \<Longrightarrow> disk_safe hw j D'"
proof (induction rule: disk_step.induct)
  case (disk_append e e' cur es old d)
  show ?case
  proof (cases "j \<le> length (concat old)")
    case False
    then obtain i where "i \<le> length cur" "j \<le> length (concat old) + i" "length (log_bytes hw (take i cur)) \<le> d"
      using disk_append by auto
    then show ?thesis using disk_append by (auto intro!: exI [of _ i])
  qed (use disk_append in auto)
next
  case (disk_sync old cur d)
  then show ?case by (cases d) (auto intro!: exI [of _ "length cur"])
next
  case (disk_switch old cur d)
  then show ?case by (cases d) auto
qed

lemma disk_safe_steps: "disk_steps hw D D' \<Longrightarrow> disk_safe hw j D \<Longrightarrow> disk_safe hw j D'"
  by (induction rule: rtranclp_induct) (auto dest: disk_safe_step)

lemma disk_safe_ok: "disk_safe hw j D \<Longrightarrow> disk_ok hw D"
  by (cases D) auto

lemma disk_safe_sync: "disk_safe hw (length (disk_log (old, cur, d))) (old, cur, length (log_bytes hw cur), length (log_bytes hw cur))"
  by (auto intro: exI [of _ "length cur"])

fun number :: "u64 \<Rightarrow> wal_batch list \<Rightarrow> log_entry list" where
  "number n [] = []"
| "number n (b # bs) = (n, b) # number (n + 1) bs"

lemma entry_bytes_not_Nil [simp]: "entry_bytes hw e \<noteq> []"
  by (simp add: entry_bytes_def make_record_def Let_def)

lemma log_bytes_Nil [simp]: "log_bytes hw es = [] \<longleftrightarrow> es = []"
  by (cases es) simp_all

lemma flush_disk:
  assumes "length prior + length old < 2 ^ 32" and "disk_ok hw (old, cur, d)"
  shows "\<exists>w' d'. file_Append (file_path (length prior + length old)) (log_bytes hw es) (on_disk hw prior old cur d w) = (OK, w') \<and>
    w'\<lparr>ww_current_size := ww_current_size w' + length (log_bytes hw es)\<rparr> = on_disk hw prior old (cur @ es) d' w \<and>
    disk_step hw (old, cur, d) (old, cur @ es, d')"
proof -
  have "snd d \<le> length (log_bytes hw cur)" using assms(2) by (cases d) simp
  from Append_on_disk [OF assms(1) this, of es w] obtain w' e where
    a: "file_Append (file_path (length prior + length old)) (log_bytes hw es) (on_disk hw prior old cur d w) = (OK, w')"
      "snd d \<le> e" "e \<le> length (log_bytes hw (cur @ es))"
      "w'\<lparr>ww_current_size := ww_current_size w' + length (log_bytes hw es)\<rparr> = on_disk hw prior old (cur @ es) (fst d, e) w"
    by blast
  then show ?thesis using disk_step.disk_append [OF a(2,3), of old "fst d"] by (intro exI [of _ w'] exI [of _ "(fst d, e)"]) simp
qed

lemma WriteInternal_disk:
  assumes "Suc (length prior + length old) < 2 ^ 32" and "disk_ok hw (old, cur, d)"
  shows "\<exists>old' cur' d'. WriteInternal hw b (on_disk hw prior old cur d w) =
      (OK, on_disk hw prior old' cur' d' (w\<lparr>ww_next_sequence := ww_next_sequence w + 1\<rparr>)) \<and>
    disk_steps hw (old, cur, d) (old', cur', d') \<and> length old' \<le> Suc (length old) \<and>
    disk_log (old', cur', d') = disk_log (old, cur, d) @ [(ww_next_sequence w, b)]"
proof -
  let ?w = "w\<lparr>ww_next_sequence := ww_next_sequence w + 1\<rparr>" and ?es = "[(ww_next_sequence w, b)]"
  have bytes: "make_record hw (ww_next_sequence w) b = log_bytes hw ?es" by (simp add: entry_bytes_def)
  show ?thesis
  proof (cases "wo_max_file_size (ww_options w) < length (log_bytes hw cur) + length (log_bytes hw ?es)")
    case True
    obtain w' d' where a: "file_Append (file_path (length prior + length (old @ [cur]))) (log_bytes hw ?es) (on_disk hw prior (old @ [cur]) [] (0, 0) ?w) = (OK, w')"
        "w'\<lparr>ww_current_size := ww_current_size w' + length (log_bytes hw ?es)\<rparr> = on_disk hw prior (old @ [cur]) ([] @ ?es) d' ?w"
        "disk_step hw (old @ [cur], [], 0, 0) (old @ [cur], [] @ ?es, d')"
      using flush_disk [of prior "old @ [cur]" hw "[]" "(0, 0)" ?es ?w] assms(1) by auto
    have "WriteInternal hw b (on_disk hw prior old cur d w) = (OK, on_disk hw prior (old @ [cur]) ?es d' ?w)"
      using True a(1,2) by (simp add: WriteInternal_def bytes Switch_on_disk [OF assms(1)] Let_def)
    moreover have "disk_steps hw (old, cur, d) (old @ [cur], ?es, d')"
      using a(3) disk_step.disk_switch [of hw old cur d] by (auto intro: rtranclp_trans)
    ultimately show ?thesis by (intro exI [of _ "old @ [cur]"] exI [of _ ?es] exI [of _ d']) simp
  next
    case False
    obtain w' d' where a: "file_Append (file_path (length prior + length old)) (log_bytes hw ?es) (on_disk hw prior old cur d ?w) = (OK, w')"
        "w'\<lparr>ww_current_size := ww_current_size w' + length (log_bytes hw ?es)\<rparr> = on_disk hw prior old (cur @ ?es) d' ?w"
        "disk_step hw (old, cur, d) (old, cur @ ?es, d')"
      using flush_disk [of prior old hw cur d ?es ?w] assms by auto
    have "WriteInternal hw b (on_disk hw prior old cur d w) = (OK, on_disk hw prior old (cur @ ?es) d' ?w)"
      using False a(1,2) by (simp add: WriteInternal_def bytes Let_def)
    then show ?thesis using a(3) by (intro exI [of _ old] exI [of _ "cur @ ?es"] exI [of _ d']) auto
  qed
qed

lemma group_loop_fit:
  assumes "\<not> wo_max_file_size (ww_options w) < length (log_bytes hw cur) + length (log_bytes hw pend) +
      length (entry_bytes hw (ww_next_sequence w, rq_batch rq))"
  shows "group_loop hw (rq # rqs) (log_bytes hw pend) (on_disk hw prior old cur d w) =
    group_loop hw rqs (log_bytes hw (pend @ [(ww_next_sequence w, rq_batch rq)]))
      (on_disk hw prior old cur d (w\<lparr>ww_next_sequence := ww_next_sequence w + 1\<rparr>))"
  using assms by (simp add: Let_def entry_bytes_def)

lemma group_loop_full:
  assumes len: "Suc (length prior + length old) < 2 ^ 32" and ok: "disk_ok hw (old, cur, d)" and full: "wo_max_file_size (ww_options w) < length (log_bytes hw cur) +
      length (log_bytes hw pend) + length (entry_bytes hw (ww_next_sequence w, rq_batch rq))"
  shows "group_loop hw (rq # rqs) (log_bytes hw pend) (on_disk hw prior old cur d w) =
    group_loop hw rqs (log_bytes hw [(ww_next_sequence w, rq_batch rq)])
      (on_disk hw prior (old @ [cur @ pend]) [] (0, 0) (w\<lparr>ww_next_sequence := ww_next_sequence w + 1\<rparr>))"
proof (cases "pend = []")
  case True
  then show ?thesis using full by (simp add: Let_def entry_bytes_def Switch_on_disk [OF len])
next
  case False
  let ?w = "w\<lparr>ww_next_sequence := ww_next_sequence w + 1\<rparr>"
  obtain w' d' where w': "file_Append (file_path (length prior + length old)) (log_bytes hw pend) (on_disk hw prior old cur d ?w) = (OK, w')"
    "w'\<lparr>ww_current_size := ww_current_size w' + length (log_bytes hw pend)\<rparr> = on_disk hw prior old (cur @ pend) d' ?w"
    using flush_disk [of prior old hw cur d pend ?w] len ok by auto
  show ?thesis using full False by (simp add: Let_def entry_bytes_def w' Switch_on_disk [OF len])
qed

definition advance :: "nat \<Rightarrow> wal_writer \<Rightarrow> wal_writer" where
  "advance n w = w\<lparr>ww_next_sequence := ww_next_sequence w + of_nat n\<rparr>"

lemma advance_simps [simp]:
  "ww_options (advance n w) = ww_options w" "ww_next_sequence (advance n w) = ww_next_sequence w + of_nat n"
  "ww_promises (advance n w) = ww_promises w" "ww_queue (advance n w) = ww_queue w" "ww_shutdown (advance n w) = ww_shutdown w"
  "advance n (advance m w) = advance (m + n) w"
  by (simp_all add: advance_def)

lemma group_loop_disk:
  "length prior + length old + length rqs < 2 ^ 32 - 1 \<Longrightarrow> disk_ok hw (old, cur, d) \<Longrightarrow>
   \<exists>old' cur' d' pend'. group_loop hw rqs (log_bytes hw pend) (on_disk hw prior old cur d w) =
      (OK, log_bytes hw pend', on_disk hw prior old' cur' d' (advance (length rqs) w)) \<and>
     disk_steps hw (old, cur, d) (old', cur', d') \<and> length old' \<le> length old + length rqs \<and>
     concat old' @ cur' @ pend' = concat old @ cur @ pend @ number (ww_next_sequence w) (map rq_batch rqs)"
proof (induction rqs arbitrary: pend old cur d w)
  case Nil
  show ?case
    by (intro exI [of _ old] exI [of _ cur] exI [of _ d] exI [of _ pend]) (simp add: advance_def)
next
  case (Cons rq rqs)
  let ?w = "advance 1 w" and ?e = "(ww_next_sequence w, rq_batch rq)"
  have w1: "w\<lparr>ww_next_sequence := ww_next_sequence w + 1\<rparr> = ?w" by (simp add: advance_def)
  show ?case
  proof (cases "wo_max_file_size (ww_options w) < length (log_bytes hw cur) + length (log_bytes hw pend) + length (entry_bytes hw ?e)")
    case False
    have "length prior + length old + length rqs < 2 ^ 32 - 1" using Cons.prems by simp
    from Cons.IH [OF this Cons.prems(2), of "pend @ [?e]" ?w] obtain old' cur' d' pend' where
      ih: "group_loop hw rqs (log_bytes hw (pend @ [?e])) (on_disk hw prior old cur d ?w) =
          (OK, log_bytes hw pend', on_disk hw prior old' cur' d' (advance (length rqs) ?w))"
      "disk_steps hw (old, cur, d) (old', cur', d')" "length old' \<le> length old + length rqs"
      "concat old' @ cur' @ pend' = concat old @ cur @ (pend @ [?e]) @ number (ww_next_sequence ?w) (map rq_batch rqs)"
      by blast
    have "group_loop hw (rq # rqs) (log_bytes hw pend) (on_disk hw prior old cur d w) =
        (OK, log_bytes hw pend', on_disk hw prior old' cur' d' (advance (length (rq # rqs)) w))"
      unfolding group_loop_fit [OF False] w1 ih(1) by simp
    then show ?thesis using ih(2-4) by (intro exI conjI) (assumption | simp)+
  next
    case True
    have len: "length prior + length (old @ [cur @ pend]) + length rqs < 2 ^ 32 - 1" "Suc (length prior + length old) < 2 ^ 32"
      using Cons.prems by simp_all
    have "disk_ok hw (old @ [cur @ pend], [], 0, 0)" by simp
    from Cons.IH [OF len(1) this, of "[?e]" ?w] obtain old' cur' d' pend' where
      ih: "group_loop hw rqs (log_bytes hw [?e]) (on_disk hw prior (old @ [cur @ pend]) [] (0, 0) ?w) =
          (OK, log_bytes hw pend', on_disk hw prior old' cur' d' (advance (length rqs) ?w))"
      "disk_steps hw (old @ [cur @ pend], [], 0, 0) (old', cur', d')" "length old' \<le> length (old @ [cur @ pend]) + length rqs"
      "concat old' @ cur' @ pend' = concat (old @ [cur @ pend]) @ [] @ [?e] @ number (ww_next_sequence ?w) (map rq_batch rqs)"
      by blast
    have "disk_step hw (old, cur, d) (old, cur @ pend, d)"
      using disk_step.disk_append [of "snd d" "snd d" hw cur pend old "fst d"] Cons.prems(2) by (cases d) auto
    then have "disk_steps hw (old, cur, d) (old @ [cur @ pend], [], 0, 0)"
      using disk_step.disk_switch [of hw old "cur @ pend" d] by (meson r_into_rtranclp rtranclp.rtrancl_into_rtrancl)
    then have steps: "disk_steps hw (old, cur, d) (old', cur', d')" using ih(2) by (rule rtranclp_trans)
    have "group_loop hw (rq # rqs) (log_bytes hw pend) (on_disk hw prior old cur d w) =
        (OK, log_bytes hw pend', on_disk hw prior old' cur' d' (advance (length (rq # rqs)) w))"
      unfolding group_loop_full [OF len(2) Cons.prems(2) True] w1 ih(1) by simp
    then show ?thesis using ih(3,4) steps by (intro exI conjI) (assumption | simp)+
  qed
qed

abbreviation control :: "wal_writer \<Rightarrow> _" where
  "control w \<equiv> (ww_options w, ww_next_sequence w, ww_queue w, ww_promises w, ww_shutdown w)"

lemma need_sync_disk:
  "\<exists>b w'. need_sync now n (on_disk hw prior old cur d w) = (b, on_disk hw prior old cur d w') \<and> control w' = control w"
  by (auto simp: need_sync_def Let_def intro!: exI)

lemma group_sync_disk:
  assumes "length prior + length old < 2 ^ 32"
  shows "\<exists>d' w'. group_sync now n OK (on_disk hw prior old cur d w) = (OK, on_disk hw prior old cur d' w') \<and>
    disk_steps hw (old, cur, d) (old, cur, d') \<and> control w' = control w"
proof -
  obtain b w' where "need_sync now n (on_disk hw prior old cur d w) = (b, on_disk hw prior old cur d w')" "control w' = control w"
    using need_sync_disk by blast
  then show ?thesis
    using Sync_on_disk [OF assms] disk_step.disk_sync [of hw old cur d]
    by (intro exI [of _ "if b then (length (log_bytes hw cur), length (log_bytes hw cur)) else d"] exI [of _ w'])
       (auto simp: group_sync_def)
qed

lemma flush_buffer_disk:
  assumes "length prior + length old < 2 ^ 32" and "disk_ok hw (old, cur, d)"
  shows "\<exists>d'. flush_buffer OK (log_bytes hw pend) (on_disk hw prior old cur d w) = (OK, on_disk hw prior old (cur @ pend) d' w) \<and>
    disk_steps hw (old, cur, d) (old, cur @ pend, d')"
proof (cases "pend = []")
  case True
  then show ?thesis by (intro exI [of _ d]) (simp add: flush_buffer_def)
next
  case False
  obtain w' d' where "file_Append (file_path (length prior + length old)) (log_bytes hw pend) (on_disk hw prior old cur d w) = (OK, w')"
    "w'\<lparr>ww_current_size := ww_current_size w' + length (log_bytes hw pend)\<rparr> = on_disk hw prior old (cur @ pend) d' w"
    "disk_step hw (old, cur, d) (old, cur @ pend, d')"
    using flush_disk [OF assms] by blast
  then show ?thesis using False by (intro exI [of _ d']) (simp add: flush_buffer_def r_into_rtranclp)
qed

lemma ProcessGroupCommit_disk:
  assumes len: "length prior + length old + length (ww_queue w) < 2 ^ 32 - 1" and run: "\<not> ww_shutdown w"
    and ok: "disk_ok hw (old, cur, d)"
  shows "\<exists>old' cur' d' w'. ProcessGroupCommit hw now (on_disk hw prior old cur d w) = on_disk hw prior old' cur' d' w' \<and>
    disk_steps hw (old, cur, d) (old', cur', d') \<and> length old' \<le> length old + length (ww_queue w) \<and>
    concat old' @ cur' = concat old @ cur @ number (ww_next_sequence w) (map rq_batch (ww_queue w)) \<and>
    control w' = (ww_options w, ww_next_sequence w + of_nat (length (ww_queue w)), [],
      ww_promises w @ map (\<lambda>rq. (rq_sequence rq, OK)) (ww_queue w), False)"
proof (cases "ww_queue w = []")
  case True
  then show ?thesis using run
    by (intro exI [of _ old] exI [of _ cur] exI [of _ d] exI [of _ w]) (simp add: ProcessGroupCommit_def)
next
  case False
  let ?q = "ww_queue w" and ?w = "w\<lparr>ww_queue := []\<rparr>"
  obtain old' cur' d' pend' where g: "group_loop hw ?q [] (on_disk hw prior old cur d ?w) =
      (OK, log_bytes hw pend', on_disk hw prior old' cur' d' (advance (length ?q) ?w))"
    "disk_steps hw (old, cur, d) (old', cur', d')" "length old' \<le> length old + length ?q"
    "concat old' @ cur' @ pend' = concat old @ cur @ number (ww_next_sequence w) (map rq_batch ?q)"
    using group_loop_disk [OF len ok, of "[]" ?w] by auto
  have len': "length prior + length old' < 2 ^ 32" using g(3) len by simp
  obtain e where f: "flush_buffer OK (log_bytes hw pend') (on_disk hw prior old' cur' d' (advance (length ?q) ?w)) =
      (OK, on_disk hw prior old' (cur' @ pend') e (advance (length ?q) ?w))" "disk_steps hw (old', cur', d') (old', cur' @ pend', e)"
    using flush_buffer_disk [OF len' disk_ok_steps [OF g(2) ok]] by blast
  obtain d'' w'' where s: "group_sync now (length ?q) OK (on_disk hw prior old' (cur' @ pend') e (advance (length ?q) ?w)) =
      (OK, on_disk hw prior old' (cur' @ pend') d'' w'')" "disk_steps hw (old', cur' @ pend', e) (old', cur' @ pend', d'')"
    "control w'' = control (advance (length ?q) ?w)"
    using group_sync_disk [OF len'] by blast
  have "ProcessGroupCommit hw now (on_disk hw prior old cur d w) =
      on_disk hw prior old' (cur' @ pend') d'' (w''\<lparr>ww_promises := ww_promises w'' @ map (\<lambda>rq. (rq_sequence rq, OK)) ?q\<rparr>)"
    using False run by (simp add: ProcessGroupCommit_def g(1) f(1) s(1) Let_def)
  moreover have "disk_steps hw (old, cur, d) (old', cur' @ pend', d'')"
    using g(2) f(2) s(2) by (meson rtranclp_trans)
  ultimately show ?thesis using g(3,4) s(3) run
    by (intro exI conjI) (assumption | simp)+
qed

subsection \<open>Runs of the writer\<close>

text \<open>The calls of clients and the rounds of the group commit thread, in any interleaving; the abstract log holds
  the batches written and the batches queued.\<close>

datatype wal_call = CWrite nat wal_batch | CAsync wal_batch | CProcess nat | CSync | CFlush

fun wal_step :: "crc_hw option \<Rightarrow> wal_call \<Rightarrow> wal_writer \<Rightarrow> wal_writer" where
  "wal_step hw (CWrite now b) w = snd (wal_WriteBatch hw now b w)"
| "wal_step hw (CAsync b) w = snd (WriteBatchAsync b w)"
| "wal_step hw (CProcess now) w = ProcessGroupCommit hw now w"
| "wal_step hw CSync w = snd (WalWriter_Sync w)"
| "wal_step hw CFlush w = snd (WalWriter_Flush w)"

fun log_step :: "bool \<Rightarrow> wal_call \<Rightarrow> wal_batch list \<times> wal_batch list \<Rightarrow> wal_batch list \<times> wal_batch list" where
  "log_step grouped (CWrite now b) (logged, queued) =
     (if b = [] then (logged, queued) else if grouped then (logged, queued @ [b]) else (logged @ [b], queued))"
| "log_step grouped (CAsync b) (logged, queued) = (logged, queued @ [b])"
| "log_step grouped (CProcess now) (logged, queued) = (logged @ queued, [])"
| "log_step grouped CSync (logged, queued) = (logged, queued)"
| "log_step grouped CFlush (logged, queued) = (logged, queued)"

text \<open>A run on a directory that holds the files \<open>prior\<close> of earlier runs, numbered from 0; every system call succeeds.\<close>

definition wal_run :: "crc_hw option \<Rightarrow> wal_options \<Rightarrow> u8 list list \<Rightarrow> wal_call list \<Rightarrow> wal_writer" where
  "wal_run hw options prior calls =
     fold (wal_step hw) calls (snd (WalWriter_Open 0 (WalWriter_new options True (dir_of (map stored_file prior)) [])))"

definition log_run :: "wal_options \<Rightarrow> wal_call list \<Rightarrow> wal_batch list \<times> wal_batch list" where
  "log_run options calls = fold (log_step (0 < wo_group_commit_timeout_us options)) calls ([], [])"

text \<open>A writer that implements an abstract log with \<open>n\<close> calls behind it and \<open>j\<close> entries synchronised.\<close>

definition wal_implements :: "crc_hw option \<Rightarrow> u8 list list \<Rightarrow> wal_options \<Rightarrow> nat \<Rightarrow> nat \<Rightarrow> disk \<Rightarrow> wal_writer \<Rightarrow> wal_batch list \<times> wal_batch list \<Rightarrow> bool" where
  "wal_implements hw prior options n j D w L \<longleftrightarrow> (case D of (old, cur, d) \<Rightarrow> \<exists>w0.  w = on_disk hw prior old cur d w0 \<and>
     ww_options w0 = options \<and> \<not> ww_shutdown w0 \<and> map snd (disk_log D) = fst L \<and> map rq_batch (ww_queue w0) = snd L \<and>
     length old \<le> length (fst L) \<and> length (fst L) + length (snd L) \<le> n \<and> disk_safe hw j D)"

lemma map_snd_number [simp]: "map snd (number n bs) = bs"
  by (induction bs arbitrary: n) simp_all

lemma implements_write:
  assumes imp: "wal_implements hw prior options n j D w L" and n: "length prior + n < 2 ^ 32 - 1"
    and direct: "\<not> 0 < wo_group_commit_timeout_us options" and b: "b \<noteq> []"
  shows "\<exists>D'. wal_implements hw prior options (Suc n) j D' (snd (wal_WriteBatch hw now b w)) (fst L @ [b], snd L)"
proof -
  obtain old cur d w0 where D: "D = (old, cur, d)" "w = on_disk hw prior old cur d w0"
    and w0: "ww_options w0 = options" "\<not> ww_shutdown w0" "map snd (disk_log D) = fst L" "map rq_batch (ww_queue w0) = snd L"
      "length old \<le> length (fst L)" "length (fst L) + length (snd L) \<le> n" "disk_safe hw j D"
    using imp by (auto simp: wal_implements_def split: prod.splits)
  have len: "Suc (length prior + length old) < 2 ^ 32" using w0(5,6) n by simp
  obtain old' cur' d' where i: "WriteInternal hw b (on_disk hw prior old cur d w0) =
      (OK, on_disk hw prior old' cur' d' (w0\<lparr>ww_next_sequence := ww_next_sequence w0 + 1\<rparr>))"
    "disk_steps hw (old, cur, d) (old', cur', d')" "length old' \<le> Suc (length old)"
    "disk_log (old', cur', d') = disk_log (old, cur, d) @ [(ww_next_sequence w0, b)]"
    using WriteInternal_disk [OF len disk_safe_ok [OF w0(7) [unfolded D(1)]]] by blast
  obtain sy w1 where ns: "need_sync now 1 (on_disk hw prior old' cur' d' (w0\<lparr>ww_next_sequence := ww_next_sequence w0 + 1\<rparr>)) =
      (sy, on_disk hw prior old' cur' d' w1)" "control w1 = control (w0\<lparr>ww_next_sequence := ww_next_sequence w0 + 1\<rparr>)"
    using need_sync_disk by blast
  have len': "length prior + length old' < 2 ^ 32" using i(3) len by simp
  let ?d = "if sy then (length (log_bytes hw cur'), length (log_bytes hw cur')) else d'"
  have res: "snd (wal_WriteBatch hw now b w) = on_disk hw prior old' cur' ?d w1"
    using b direct w0(1) i(1) ns(1) Sync_on_disk [OF len']
    by (simp add: D wal_WriteBatch_def WalWriter_Sync_def)
  have "disk_steps hw (old', cur', d') (old', cur', ?d)" using disk_step.disk_sync [of hw old' cur' d'] by auto
  then have "disk_safe hw j (old', cur', ?d)"
    using disk_safe_steps [OF rtranclp_trans [OF i(2)]] w0(7) D(1) by blast
  moreover have "map snd (disk_log (old', cur', ?d)) = fst L @ [b]" using i(4) w0(3) D(1) by simp
  ultimately have "wal_implements hw prior options (Suc n) j (old', cur', ?d) (snd (wal_WriteBatch hw now b w)) (fst L @ [b], snd L)"
    unfolding wal_implements_def res using w0 i(3) ns(2) by (auto intro!: exI [of _ w1])
  then show ?thesis by blast
qed

lemma implements_process:
  assumes imp: "wal_implements hw prior options n j D w L" and n: "length prior + n < 2 ^ 32 - 1"
  shows "\<exists>D'. wal_implements hw prior options n j D' (ProcessGroupCommit hw now w) (fst L @ snd L, [])"
proof -
  obtain old cur d w0 where D: "D = (old, cur, d)" "w = on_disk hw prior old cur d w0"
    and w0: "ww_options w0 = options" "\<not> ww_shutdown w0" "map snd (disk_log D) = fst L" "map rq_batch (ww_queue w0) = snd L"
      "length old \<le> length (fst L)" "length (fst L) + length (snd L) \<le> n" "disk_safe hw j D"
    using imp by (auto simp: wal_implements_def split: prod.splits)
  have q: "length (ww_queue w0) = length (snd L)" by (simp flip: w0(4))
  then have len: "length prior + length old + length (ww_queue w0) < 2 ^ 32 - 1" using w0(5,6) n by simp
  obtain old' cur' d' w' where p: "ProcessGroupCommit hw now w = on_disk hw prior old' cur' d' w'"
    "disk_steps hw D (old', cur', d')" "length old' \<le> length old + length (ww_queue w0)"
    "concat old' @ cur' = concat old @ cur @ number (ww_next_sequence w0) (map rq_batch (ww_queue w0))"
    "ww_options w' = options" "ww_queue w' = []" "\<not> ww_shutdown w'"
    using ProcessGroupCommit_disk [OF len w0(2) disk_safe_ok [OF w0(7) [unfolded D(1)]], of now] D w0(1) by auto
  have log: "map snd (concat old' @ cur') = fst L @ snd L" unfolding p(4) using w0(3,4) D(1) by simp
  have "wal_implements hw prior options n j (old', cur', d') (ProcessGroupCommit hw now w) (fst L @ snd L, [])"
    unfolding wal_implements_def p(1)
    using p(3,5-7) q w0(5,6) disk_safe_steps [OF p(2) w0(7)] log by (auto intro!: exI [of _ w'] simp del: map_append)
  then show ?thesis by blast
qed

lemma implements_mono: "wal_implements hw prior options n j D w L \<Longrightarrow> n \<le> m \<Longrightarrow> wal_implements hw prior options m j D w L"
  by (auto simp: wal_implements_def split: prod.splits)

lemma implements_sync:
  assumes imp: "wal_implements hw prior options n j D w L" and n: "length prior + n < 2 ^ 32 - 1"
  shows "\<exists>D'. wal_implements hw prior options n j D' (snd (WalWriter_Sync w)) L \<and>
    wal_implements hw prior options n (length (fst L)) D' (snd (WalWriter_Sync w)) L"
proof -
  obtain old cur d w0 where D: "D = (old, cur, d)" "w = on_disk hw prior old cur d w0"
    and w0: "ww_options w0 = options" "\<not> ww_shutdown w0" "map snd (disk_log D) = fst L" "map rq_batch (ww_queue w0) = snd L"
      "length old \<le> length (fst L)" "length (fst L) + length (snd L) \<le> n" "disk_safe hw j D"
    using imp by (auto simp: wal_implements_def split: prod.splits)
  have len: "length prior + length old < 2 ^ 32" using w0(5,6) n by simp
  let ?d = "(length (log_bytes hw cur), length (log_bytes hw cur))"
  have res: "snd (WalWriter_Sync w) = on_disk hw prior old cur ?d w0"
    by (simp add: D WalWriter_Sync_def Sync_on_disk [OF len])
  have "length (fst L) = length (disk_log D)" by (simp flip: w0(3))
  then have safe: "disk_safe hw (length (fst L)) (old, cur, ?d)"
    using disk_safe_sync [of hw old cur d] D(1) by simp
  have "disk_safe hw j (old, cur, ?d)"
    using disk_safe_step [OF disk_step.disk_sync] w0(7) D(1) by blast
  then show ?thesis
    unfolding wal_implements_def res using w0 safe D(1)
    by (intro exI [of _ "(old, cur, ?d)"]) auto
qed

lemma implements_flush:
  assumes imp: "wal_implements hw prior options n j D w L" and n: "length prior + n < 2 ^ 32 - 1"
  shows "\<exists>D'. wal_implements hw prior options n j D' (snd (WalWriter_Flush w)) L"
proof -
  obtain old cur d w0 where D: "D = (old, cur, d)" "w = on_disk hw prior old cur d w0"
    and w0: "ww_options w0 = options" "\<not> ww_shutdown w0" "map snd (disk_log D) = fst L" "map rq_batch (ww_queue w0) = snd L"
      "length old \<le> length (fst L)" "length (fst L) + length (snd L) \<le> n" "disk_safe hw j D"
    using imp by (auto simp: wal_implements_def split: prod.splits)
  have len: "length prior + length old < 2 ^ 32" using w0(5,6) n by simp
  let ?d = "(fst d, length (log_bytes hw cur))"
  have "disk_ok hw (old, cur, d)" using disk_safe_ok w0(7) D(1) by blast
  then have "disk_step hw (old, cur, d) (old, cur, ?d)"
    using disk_step.disk_append [of "snd d" "length (log_bytes hw cur)" hw cur "[]" old "fst d"] by (cases d) auto
  then have "disk_safe hw j (old, cur, ?d)" using disk_safe_step w0(7) D(1) by blast
  moreover have "snd (WalWriter_Flush w) = on_disk hw prior old cur ?d w0"
    by (simp add: D WalWriter_Flush_def Flush_on_disk [OF len])
  ultimately show ?thesis
    unfolding wal_implements_def using w0 D(1) by (intro exI [of _ "(old, cur, ?d)"]) auto
qed

lemma implements_queue:
  assumes "wal_implements hw prior options n j D w L"
  shows "wal_implements hw prior options (Suc n) j D (snd (WriteBatchAsync b w)) (fst L, snd L @ [b])"
proof -
  obtain old cur d w0 where D: "D = (old, cur, d)" "w = on_disk hw prior old cur d w0"
    and w0: "ww_options w0 = options" "\<not> ww_shutdown w0" "map snd (disk_log D) = fst L" "map rq_batch (ww_queue w0) = snd L"
      "length old \<le> length (fst L)" "length (fst L) + length (snd L) \<le> n" "disk_safe hw j D"
    using assms by (auto simp: wal_implements_def split: prod.splits)
  let ?w = "w0\<lparr>ww_next_sequence := ww_next_sequence w0 + 1,
    ww_queue := ww_queue w0 @ [\<lparr>rq_batch = b, rq_sequence = ww_next_sequence w0\<rparr>]\<rparr>"
  have "snd (WriteBatchAsync b w) = on_disk hw prior old cur d ?w" by (simp add: D WriteBatchAsync_def Let_def)
  then show ?thesis using w0 D(1) by (auto simp: wal_implements_def intro!: exI [of _ ?w])
qed

lemma implements_step:
  assumes imp: "wal_implements hw prior options n j D w L" and n: "length prior + n < 2 ^ 32 - 1"
  shows "\<exists>D'. wal_implements hw prior options (Suc n) j D' (wal_step hw c w) (log_step (0 < wo_group_commit_timeout_us options) c L)"
proof -
  obtain logged queued where L: "L = (logged, queued)" by fastforce
  have cur: "ww_current w \<noteq> None" "ww_options w = options" using imp by (auto simp: wal_implements_def split: prod.splits)
  note mono = implements_mono [OF _ le_SucI [OF order_refl]]
  show ?thesis
  proof (cases c)
    case (CWrite now b)
    show ?thesis
    proof (cases "b = [] \<or> 0 < wo_group_commit_timeout_us options")
      case True
      then have "snd (wal_WriteBatch hw now b w) = (if b = [] then w else snd (WriteBatchAsync b w))"
        using cur by (cases "b = []") (auto simp: wal_WriteBatch_def case_prod_beta)
      then show ?thesis
        using True mono [OF imp] implements_queue [OF imp, of b] CWrite L
        by (intro exI [of _ D]) (cases "b = []"; simp)
    next
      case False
      then show ?thesis using implements_write [OF imp n, of b now] CWrite L by auto
    qed
  next
    case (CAsync b)
    then show ?thesis using implements_queue [OF imp, of b] L by (intro exI [of _ D]) simp
  next
    case (CProcess now)
    then show ?thesis using implements_process [OF imp n, of now] mono L by fastforce
  next
    case CSync
    then show ?thesis using implements_sync [OF imp n] mono L by fastforce
  next
    case CFlush
    then show ?thesis using implements_flush [OF imp n] mono L by fastforce
  qed
qed

lemma implements_run:
  "wal_implements hw prior options n j D w L \<Longrightarrow> length prior + n + length calls < 2 ^ 32 \<Longrightarrow>
   \<exists>D'. wal_implements hw prior options (n + length calls) j D' (fold (wal_step hw) calls w)
     (fold (log_step (0 < wo_group_commit_timeout_us options)) calls L)"
proof (induction calls arbitrary: n D w L)
  case (Cons c calls)
  have n: "length prior + n < 2 ^ 32 - 1" using Cons.prems(2) by simp
  obtain D' where "wal_implements hw prior options (Suc n) j D' (wal_step hw c w) (log_step (0 < wo_group_commit_timeout_us options) c L)"
    using implements_step [OF Cons.prems(1) n] by blast
  from Cons.IH [OF this] Cons.prems(2) show ?case by simp
qed auto

text \<open>Opening looks for the largest file number.\<close>

lemma parse_number_digits:
  "list_all is_digit cs \<Longrightarrow> parse_number cs num = Some (num * 10 ^ length cs + of_nat (digits_value cs))"
proof (induction cs rule: rev_induct)
  case (snoc c cs)
  have app: "parse_number (xs @ [c]) n = (case parse_number xs n of None \<Rightarrow> None | Some m \<Rightarrow> parse_number [c] m)" for xs n
    by (induction xs arbitrary: n) auto
  have "48 \<le> (of_char c :: nat)" "(of_char c :: nat) \<le> 57" using snoc.prems by (simp_all add: is_digit_def)
  then show ?case using snoc app by (simp add: digits_value_snoc algebra_simps)
qed (simp add: digits_value_def)

lemma next_file_number_path:
  assumes "Suc i < 2 ^ 32"
  shows "next_file_number (file_path i) (of_nat i) = of_nat (Suc i)"
proof -
  have p: "file_path i = to_string_nat i @ ''.wal''" using assms by (simp add: file_path_def wal_file_name_def unat_of_nat_u32)
  have d: "list_all is_digit (to_string_nat i)" "to_string_nat i \<noteq> []" using to_string_nat_digits [of i] by auto
  have "is_wal_name (file_path i)" using d(2) by (simp add: p is_wal_name_def)
  then show ?thesis
    using parse_number_digits [OF d(1), of 0] by (simp add: next_file_number_def p digits_value_to_string)
qed

lemma fold_next_file_number: "n < 2 ^ 32 \<Longrightarrow> fold next_file_number (map file_path [0..<n]) 0 = of_nat n"
  by (induction n) (simp, simp add: next_file_number_path)

lemma dir_of_names: "map fst (dir_of fs) = map file_path [0..<length fs]"
  by (induction fs rule: rev_induct) (simp_all add: dir_of_snoc, simp add: dir_of_def)

lemma implements_start:
  assumes "Suc (length prior) < 2 ^ 32"
  shows "wal_implements hw prior options 0 0 ([], [], 0, 0)
    (snd (WalWriter_Open 0 (WalWriter_new options True (dir_of (map stored_file prior)) []))) ([], [])"
proof -
  let ?w = "WalWriter_new options True (dir_of (map stored_file prior)) []"
  have n: "fold next_file_number (map fst (dir_of (map stored_file prior))) 0 = of_nat (length prior)"
    using fold_next_file_number [of "length prior"] assms by (simp add: dir_of_names)
  have u: "AList.update (file_path (length prior)) f (dir_of (map stored_file prior)) = dir_of (map stored_file prior @ [f])" for f
    using dir_of_update_new [of "map stored_file prior" f] assms by simp
  have "snd (WalWriter_Open 0 ?w) = on_disk hw prior [] [] (0, 0) ?w"
    by (simp add: WalWriter_Open_def WalWriter_new_def SwitchWALFile_def io_call_def Let_def n file_path_def [symmetric]
        set_file_def u on_disk_def closed_files_def empty_file_def open_file_def)
  then show ?thesis by (auto simp: wal_implements_def WalWriter_new_def intro!: exI [of _ ?w])
qed

subsection \<open>Failures of group commit and shutdown\<close>

lemma length_make_record: "length (make_record hw n b) = 20 + 53 * length b"
  by (simp add: make_record_def Let_def kHeaderSize_def length_Batch_EncodeTo)

lemma group_loop_closed:
  "ww_current w = None \<Longrightarrow> ww_current_size w + length buf + (\<Sum>rq\<leftarrow>rqs. 20 + 53 * length (rq_batch rq)) \<le> wo_max_file_size (ww_options w) \<Longrightarrow>
   \<exists>buf'. group_loop hw rqs buf w = (OK, buf', advance (length rqs) w)"
proof (induction rqs arbitrary: buf w)
  case (Cons rq rqs)
  let ?b = "make_record hw (ww_next_sequence w) (rq_batch rq)"
  have w1: "w\<lparr>ww_next_sequence := ww_next_sequence w + 1\<rparr> = advance 1 w" by (simp add: advance_def)
  have "\<not> wo_max_file_size (ww_options w) < ww_current_size w + length buf + length ?b"
    using Cons.prems(2) by (simp add: length_make_record)
  then have "group_loop hw (rq # rqs) buf w = group_loop hw rqs (buf @ ?b) (advance 1 w)"
    by (simp add: Let_def w1 [simplified, symmetric])
  moreover have "\<exists>buf'. group_loop hw rqs (buf @ ?b) (advance 1 w) = (OK, buf', advance (length rqs) (advance 1 w))"
    using Cons.prems by (intro Cons.IH) (simp_all add: advance_def length_make_record)
  ultimately show ?case by simp
qed (simp add: advance_def)

text \<open>C40. A batch can be acknowledged without being written: when the log has no current file, as after a
  failed switch to a new file, a round of group commit whose records fit the size limit writes
  nothing to any file and still answers every request with success.\<close>

theorem wal_acknowledges_lost_batch:
  assumes "ww_current w = None" and "\<not> ww_shutdown w"
    and "ww_current_size w + (\<Sum>rq\<leftarrow>ww_queue w. 20 + 53 * length (rq_batch rq)) \<le> wo_max_file_size (ww_options w)"
  shows "ww_dir (ProcessGroupCommit hw now w) = ww_dir w \<and>
    ww_promises (ProcessGroupCommit hw now w) = ww_promises w @ map (\<lambda>rq. (rq_sequence rq, OK)) (ww_queue w)"
proof -
  obtain buf where g: "group_loop hw (ww_queue w) [] (w\<lparr>ww_queue := []\<rparr>) = (OK, buf, advance (length (ww_queue w)) (w\<lparr>ww_queue := []\<rparr>))"
    using group_loop_closed [of "w\<lparr>ww_queue := []\<rparr>" "[]" "ww_queue w" hw] assms by auto
  show ?thesis
    using assms by (simp add: ProcessGroupCommit_def g flush_buffer_def group_sync_def advance_def Let_def)
qed

definition failing_switch :: wal_writer where
  "failing_switch =
     (let options = \<lparr>wo_max_file_size = 100, wo_group_commit_timeout_us = 1000, wo_sync_interval_ms = 0,
            wo_sync_threshold = 0, wo_sync_on_write = False\<rparr>;
          put = (\<lambda>n. Batch_Put CedarKey_default 7 n []);
          w = snd (WalWriter_Open 0 (WalWriter_new options True [] [None, None, None, Some 0]))
      in snd (WriteBatchAsync (put 3) (ProcessGroupCommit None 0 (snd (WriteBatchAsync (put 1 @ put 2) w)))))"

lemma wal_acknowledges_lost_batch_witness:
  "ww_promises (ProcessGroupCommit None 0 failing_switch) = [(1, IOError), (3, OK)] \<and>
   map (wf_data \<circ> snd) (ww_dir (ProcessGroupCommit None 0 failing_switch)) = [[]]"
proof -
  have s: "ww_current failing_switch = None" "\<not> ww_shutdown failing_switch" "ww_current_size failing_switch = 0"
    "wo_max_file_size (ww_options failing_switch) = 100" "map rq_sequence (ww_queue failing_switch) = [3]"
    "map (length \<circ> rq_batch) (ww_queue failing_switch) = [1]" "ww_promises failing_switch = [(1, IOError)]"
    "map (wf_data \<circ> snd) (ww_dir failing_switch) = [[]]"
    by (simp_all add: failing_switch_def Let_def WalWriter_new_def WalWriter_Open_def SwitchWALFile_def io_call_def
        WriteBatchAsync_def ProcessGroupCommit_def length_make_record Batch_Put_def file_Sync_def file_Close_def file_of_def
        FlushBuffer_def WriteUnbuffered_def set_buffer_def set_file_def empty_file_def flush_buffer_def group_sync_def)
  then obtain rq where q: "ww_queue failing_switch = [rq]" "rq_sequence rq = 3" "length (rq_batch rq) = 1" by auto
  show ?thesis
    using wal_acknowledges_lost_batch [OF s(1,2), of None 0] s q by simp
qed

text \<open>Closing the log abandons queued batches: the flag that stops the group commit thread also makes the
  final round return at once, so the batches queued at that moment are in no file afterwards (a file holds a part of what
  was written to it before), their requests are never answered, and no later round writes them.\<close>

lemma FlushBuffer_keeps:
  "ww_queue (snd (FlushBuffer f v)) = ww_queue v" "ww_promises (snd (FlushBuffer f v)) = ww_promises v"
  "ww_shutdown (snd (FlushBuffer f v)) = ww_shutdown v"
  "\<exists>lost. wf_data (file_of v name) @ wf_buffer (file_of v name) =
     wf_data (file_of (snd (FlushBuffer f v)) name) @ wf_buffer (file_of (snd (FlushBuffer f v)) name) @ lost"
proof -
  have f: "file_of (set_file f x u) name = (if name = f then x else file_of u name)" "file_of (u\<lparr>ww_io := rs\<rparr>) name = file_of u name"
    "ww_queue (set_file f x u) = ww_queue u" "ww_promises (set_file f x u) = ww_promises u" "ww_shutdown (set_file f x u) = ww_shutdown u"
    for x u name rs
    by (simp_all add: file_of_def set_file_def update_conv')
  show "ww_queue (snd (FlushBuffer f v)) = ww_queue v" "ww_promises (snd (FlushBuffer f v)) = ww_promises v"
    "ww_shutdown (snd (FlushBuffer f v)) = ww_shutdown v"
    by (auto simp: FlushBuffer_def WriteUnbuffered_def set_buffer_def io_call_def f Let_def split: list.split)
  have "\<exists>lost. bytes = (case r of None \<Rightarrow> bytes | Some n \<Rightarrow> take n bytes) @ lost" for r :: "nat option" and bytes :: "u8 list"
    by (cases r) (simp_all, metis append_take_drop_id)
  then show "\<exists>lost. wf_data (file_of v name) @ wf_buffer (file_of v name) =
     wf_data (file_of (snd (FlushBuffer f v)) name) @ wf_buffer (file_of (snd (FlushBuffer f v)) name) @ lost"
    by (auto simp: FlushBuffer_def WriteUnbuffered_def set_buffer_def io_call_def f Let_def split: list.split)
qed

lemma file_Sync_keeps:
  "ww_queue (snd (file_Sync f v)) = ww_queue v" "ww_promises (snd (file_Sync f v)) = ww_promises v"
  "ww_shutdown (snd (file_Sync f v)) = ww_shutdown v"
  "wf_data (file_of (snd (file_Sync f v)) name) = wf_data (file_of (snd (FlushBuffer f v)) name)"
  "wf_buffer (file_of (snd (file_Sync f v)) name) = wf_buffer (file_of (snd (FlushBuffer f v)) name)"
proof -
  obtain s v1 where b: "FlushBuffer f v = (s, v1)" by fastforce
  have k: "ww_queue v1 = ww_queue v" "ww_promises v1 = ww_promises v" "ww_shutdown v1 = ww_shutdown v"
    using FlushBuffer_keeps(1-3) [of f v] by (simp_all add: b)
  show "ww_queue (snd (file_Sync f v)) = ww_queue v" "ww_promises (snd (file_Sync f v)) = ww_promises v"
    "ww_shutdown (snd (file_Sync f v)) = ww_shutdown v"
    "wf_data (file_of (snd (file_Sync f v)) name) = wf_data (file_of (snd (FlushBuffer f v)) name)"
    "wf_buffer (file_of (snd (file_Sync f v)) name) = wf_buffer (file_of (snd (FlushBuffer f v)) name)"
    by (auto simp: file_Sync_def b k io_call_def file_of_def set_file_def update_conv' Let_def split: list.split option.split)
qed

lemma wal_close_abandons_queue:
  "ww_queue (snd (WalWriter_Close hw now w)) = ww_queue w \<and>
   ww_promises (snd (WalWriter_Close hw now w)) = ww_promises w \<and>
   (\<exists>lost. wf_data (file_of w name) @ wf_buffer (file_of w name) =
      wf_data (file_of (snd (WalWriter_Close hw now w)) name) @ wf_buffer (file_of (snd (WalWriter_Close hw now w)) name) @ lost) \<and>
   ProcessGroupCommit hw later (snd (WalWriter_Close hw now w)) = snd (WalWriter_Close hw now w)"
proof (cases "ww_shutdown w \<or> ww_current w = None")
  case True
  then show ?thesis by (auto simp: WalWriter_Close_def ProcessGroupCommit_def file_of_def)
next
  case False
  then obtain f where f: "ww_current w = Some f" by auto
  let ?v = "w\<lparr>ww_shutdown := True\<rparr>"
  have fo: "file_of (v\<lparr>ww_current := c\<rparr>) name = file_of v name" "file_of (v\<lparr>ww_shutdown := x\<rparr>) name = file_of v name" for v c x
    by (simp_all add: file_of_def)
  have c: "snd (WalWriter_Close hw now w) = (snd (FlushBuffer f (snd (file_Sync f ?v))))\<lparr>ww_current := None\<rparr>"
    using False f by (simp add: WalWriter_Close_def ProcessGroupCommit_def file_Close_def)
  obtain lost lost' where
    "wf_data (file_of ?v name) @ wf_buffer (file_of ?v name) =
       wf_data (file_of (snd (file_Sync f ?v)) name) @ wf_buffer (file_of (snd (file_Sync f ?v)) name) @ lost"
    "wf_data (file_of (snd (file_Sync f ?v)) name) @ wf_buffer (file_of (snd (file_Sync f ?v)) name) =
       wf_data (file_of (snd (FlushBuffer f (snd (file_Sync f ?v)))) name) @
       wf_buffer (file_of (snd (FlushBuffer f (snd (file_Sync f ?v)))) name) @ lost'"
    using FlushBuffer_keeps(4) [of ?v name f] FlushBuffer_keeps(4) [of "snd (file_Sync f ?v)" name f]
    unfolding file_Sync_keeps(4,5) by blast
  then have "\<exists>lost. wf_data (file_of w name) @ wf_buffer (file_of w name) =
      wf_data (file_of (snd (WalWriter_Close hw now w)) name) @ wf_buffer (file_of (snd (WalWriter_Close hw now w)) name) @ lost"
    unfolding c fo by (metis append.assoc)
  then show ?thesis by (simp add: c file_Sync_keeps FlushBuffer_keeps(1-3) ProcessGroupCommit_def)
qed

end
