(* ===== verification/Wal_Replay.thy ===== *)
theory Wal_Replay
  imports Wal Vsl_Memtable
begin

text \<open>
  Recovery of the storage engine from its write-ahead log: the part of \<open>LsmEngine::Open\<close> in
  \<open>src/src/storage/lsm_engine.cc\<close> that opens the log (\<open>InitWAL\<close>) and replays it (\<open>ReplayWAL\<close>), which reads the log
  files in the order of their numbers, from a first number on, and puts the logged operations into the memtable.
\<close>

subsection \<open>Replay\<close>

definition replay_op :: "wal_op \<Rightarrow> vsl_memtable \<Rightarrow> vsl_memtable" where
  "replay_op op m =
    (if wop_type op = kWalPut then snd (mt_Put (wop_key op) (wop_descriptor op) (wop_txn_version op) m)
     else if wop_type op = kWalDelete then snd (mt_Put (wop_key op) Descriptor_default (wop_txn_version op) m)
     else m)"

lemma ReadNextRecord_progress:
  assumes "ReadNextRecord hw ok batch sequence r = Some (st, batch', sequence', r')" and "st = OK \<or> st = Corruption"
  shows "length (rd_data r') - rd_offset r' < length (rd_data r) - rd_offset r"
proof -
  have "rd_data r' = rd_data r \<and> rd_offset r < rd_offset r' \<and> rd_offset r + kHeaderSize \<le> length (rd_data r)"
    using assms by (auto simp: ReadNextRecord_def Let_def kHeaderSize_def split: if_splits option.splits)
  then show ?thesis by (auto simp: kHeaderSize_def)
qed

text \<open>The loop over the records of one file; \<open>None\<close> is a read behind the end of a record's data.\<close>

function replay_loop ::
  "crc_hw option \<Rightarrow> (nat \<Rightarrow> nat \<Rightarrow> bool) \<Rightarrow> wal_batch \<Rightarrow> u64 \<Rightarrow> wal_reader \<Rightarrow> vsl_memtable \<Rightarrow> vsl_memtable option" where
  "replay_loop hw ok batch sequence r m =
    (case ReadNextRecord hw ok batch sequence r of
       None \<Rightarrow> None
     | Some (st, batch', sequence', r') \<Rightarrow>
         if st = OK then replay_loop hw ok batch' sequence' r' (fold replay_op batch' m)
         else if st = Corruption then replay_loop hw ok batch' sequence' r' m
         else Some m)"
  by pat_completeness auto
termination
  by (relation "measure (\<lambda>(_, _, _, _, r, _). length (rd_data r) - rd_offset r)")
     (auto dest: ReadNextRecord_progress)

declare replay_loop.simps [simp del]

text \<open>\<open>sscanf\<close> with \<open>%lu.wal\<close> counts a match as soon as a number is read, whatever follows it.\<close>

definition sscanf_u64 :: "string \<Rightarrow> u64 option" where
  "sscanf_u64 str =
    (let s = dropWhile is_space str;
         neg = (case s of c # _ \<Rightarrow> c = CHR ''-'' | [] \<Rightarrow> False);
         body = (case s of c # cs \<Rightarrow> if c = CHR ''-'' \<or> c = CHR ''+'' then cs else s | [] \<Rightarrow> []);
         ds = takeWhile is_digit body
     in if ds = [] then None
        else if 2 ^ 64 \<le> digits_value ds then Some u64_max
        else Some (if neg then - of_nat (digits_value ds) else of_nat (digits_value ds)))"

fun replay_files ::
  "crc_hw option \<Rightarrow> (string \<Rightarrow> bool) \<Rightarrow> (string \<Rightarrow> nat \<Rightarrow> nat \<Rightarrow> bool) \<Rightarrow> wal_dir \<Rightarrow> u64 list \<Rightarrow> vsl_memtable \<Rightarrow>
   (Status \<times> vsl_memtable) option" where
  "replay_files hw can_open ok dir [] m = Some (OK, m)"
| "replay_files hw can_open ok dir (n # ns) m =
    (let path = to_string n @ ''.wal'';
         (s, r) = WalReader_Open (map_option wf_data (map_of dir path)) (can_open path)
     in if s \<noteq> OK then Some (s, m)
        else case replay_loop hw (ok path) [] 0 r m of
            None \<Rightarrow> None
          | Some m' \<Rightarrow> replay_files hw can_open ok dir ns m')"

text \<open>\<open>dir = None\<close>: the log directory cannot be listed.\<close>

definition ReplayWAL ::
  "crc_hw option \<Rightarrow> (string \<Rightarrow> bool) \<Rightarrow> (string \<Rightarrow> nat \<Rightarrow> nat \<Rightarrow> bool) \<Rightarrow> bool \<Rightarrow> wal_dir option \<Rightarrow> u64 \<Rightarrow> vsl_memtable \<Rightarrow>
   (Status \<times> vsl_memtable) option" where
  "ReplayWAL hw can_open ok enable_wal dir start_sequence m =
    (if \<not> enable_wal then Some (OK, m)
     else case dir of
         None \<Rightarrow> Some (OK, m)
       | Some d \<Rightarrow>
           replay_files hw can_open ok d
             (sort (filter (\<lambda>n. start_sequence \<le> n) (List.map_filter (\<lambda>(f, _). sscanf_u64 f) d))) m)"

text \<open>The log options of the engine are the defaults of \<open>wal.h\<close>.\<close>

definition WalOptions_default :: wal_options where
  "WalOptions_default = \<lparr>wo_max_file_size = 64 * 1024 * 1024, wo_group_commit_timeout_us = 1000, wo_sync_interval_ms = 100,
     wo_sync_threshold = 1000, wo_sync_on_write = False\<rparr>"

text \<open>\<open>InitWAL\<close> gives the status and the writer; \<open>dir_exists\<close>, \<open>dir\<close> and \<open>io\<close> are the log directory and the outcomes of
  the system calls.\<close>

definition InitWAL :: "nat \<Rightarrow> bool \<Rightarrow> bool \<Rightarrow> wal_dir \<Rightarrow> nat option list \<Rightarrow> Status \<times> wal_writer option" where
  "InitWAL now enable_wal dir_exists dir io =
    (if \<not> enable_wal then (OK, None)
     else let (s, w) = WalWriter_Open now (WalWriter_new WalOptions_default dir_exists dir io) in (s, Some w))"

text \<open>The log part of \<open>LsmEngine::Open\<close>: replay starts with the file number 1. \<open>listed\<close> tells whether the log directory
  can be listed for the replay.\<close>

definition LsmEngine_OpenLog :: "crc_hw option \<Rightarrow> nat \<Rightarrow> bool \<Rightarrow> bool \<Rightarrow> wal_dir \<Rightarrow> nat option list \<Rightarrow> bool \<Rightarrow> (string \<Rightarrow> bool) \<Rightarrow>
    (string \<Rightarrow> nat \<Rightarrow> nat \<Rightarrow> bool) \<Rightarrow> vsl_memtable \<Rightarrow> (Status \<times> vsl_memtable \<times> wal_writer option) option" where
  "LsmEngine_OpenLog hw now enable_wal dir_exists dir io listed can_open ok m =
    (let (s, ww) = InitWAL now enable_wal dir_exists dir io
     in if s \<noteq> OK then Some (s, m, ww)
        else let d = (case ww of None \<Rightarrow> dir | Some w \<Rightarrow> ww_dir w)
             in map_option (\<lambda>(s, m'). (s, m', ww))
                  (ReplayWAL hw can_open ok enable_wal (if listed then Some d else None) 1 m))"

text \<open>Recovery without failing system calls: the status of opening and the memtable it leaves.\<close>

definition recover_log :: "crc_hw option \<Rightarrow> wal_dir \<Rightarrow> vsl_memtable \<Rightarrow> (Status \<times> vsl_memtable) option" where
  "recover_log hw dir m =
     map_option (\<lambda>(s, m', ww). (s, m')) (LsmEngine_OpenLog hw 0 True True dir [] True (\<lambda>_. True) (\<lambda>_ _ _. True) m)"

subsection \<open>Replay of one file\<close>

definition apply_batches :: "wal_batch list \<Rightarrow> vsl_memtable \<Rightarrow> vsl_memtable" where
  "apply_batches bs = fold (fold replay_op) bs"

lemma apply_batches_simps [simp]:
  "apply_batches [] m = m" "apply_batches (b # bs) m = apply_batches bs (fold replay_op b m)"
  "apply_batches (bs @ cs) m = apply_batches cs (apply_batches bs m)"
  by (simp_all add: apply_batches_def)

text \<open>The entries that lie completely within the first \<open>n\<close> bytes.\<close>

fun surviving :: "crc_hw option \<Rightarrow> nat \<Rightarrow> log_entry list \<Rightarrow> log_entry list" where
  "surviving hw n [] = []"
| "surviving hw n (e # es) =
     (if length (entry_bytes hw e) \<le> n then e # surviving hw (n - length (entry_bytes hw e)) es else [])"

lemma surviving_prefix: "\<exists>k \<le> length es. surviving hw n es = take k es"
proof (induction es arbitrary: n)
  case (Cons e es)
  obtain k where "k \<le> length es" "surviving hw (n - length (entry_bytes hw e)) es = take k es" using Cons by blast
  then show ?case by (auto intro: exI [of _ 0] exI [of _ "Suc k"])
qed simp

lemma surviving_length: "i \<le> length es \<Longrightarrow> length (log_bytes hw (take i es)) \<le> n \<Longrightarrow> i \<le> length (surviving hw n es)"
proof (induction es arbitrary: n i)
  case (Cons e es)
  then show ?case by (cases i) auto
qed simp

lemma surviving_all: "length (log_bytes hw es) \<le> n \<Longrightarrow> surviving hw n es = es"
  by (induction es arbitrary: n) auto

lemma replay_end: "length (rd_data r) < rd_offset r + kHeaderSize \<Longrightarrow> replay_loop hw ok batch sq r m = Some m"
  by (subst replay_loop.simps) (simp add: ReadNextRecord_def)

lemma replay_take:
  "\<forall>e \<in> set es. batch_fits (snd e) \<Longrightarrow>
   replay_loop hw (\<lambda>_ _. True) batch sq (reader_at pre (take n (log_bytes hw es))) m =
     Some (apply_batches (map snd (surviving hw n es)) m)"
proof (induction es arbitrary: n pre batch sq m)
  case Nil
  then show ?case by (simp add: replay_end reader_at_def kHeaderSize_def)
next
  case (Cons e es)
  obtain s b where e: "e = (s, b)" by fastforce
  have b: "batch_fits b" using Cons.prems e by simp
  show ?case
  proof (cases "length (entry_bytes hw e) \<le> n")
    case True
    have "take n (log_bytes hw (e # es)) = entry_bytes hw (s, b) @ take (n - length (entry_bytes hw e)) (log_bytes hw es)"
      using True e by simp
    then show ?thesis
      using Cons True e by (subst replay_loop.simps) (simp add: Read_entry [OF b])
  next
    case False
    then have t: "take n (log_bytes hw (e # es)) = take n (entry_bytes hw (s, b))" using e by simp
    show ?thesis
    proof (cases "kHeaderSize \<le> n")
      case True
      have "n < length (entry_bytes hw (s, b))" using False e by simp
      then obtain r where "ReadNextRecord hw (\<lambda>_ _. True) batch sq (reader_at pre (take n (entry_bytes hw (s, b)))) =
          Some (Corruption, batch, ucast (ucast s :: u32), r)" "length (rd_data r) < rd_offset r + kHeaderSize"
        using Read_torn [OF b True] by blast
      then show ?thesis using False unfolding t by (subst replay_loop.simps) (simp add: replay_end)
    next
      case short: False
      then have "length (rd_data (reader_at pre (take n (entry_bytes hw (s, b))))) <
          rd_offset (reader_at pre (take n (entry_bytes hw (s, b)))) + kHeaderSize"
        by (simp add: reader_at_def)
      then show ?thesis using False unfolding t by (simp add: replay_end)
    qed
  qed
qed

subsection \<open>Replay of a directory\<close>

definition paths_of :: "u8 list list \<Rightarrow> (string \<times> u8 list) list" where
  "paths_of datas = map (\<lambda>(i, x). (file_path i, x)) (enumerate 0 datas)"

definition data_dir :: "wal_dir \<Rightarrow> (string \<times> u8 list) list" where
  "data_dir d = map (\<lambda>(n, f). (n, wf_data f)) d"

lemma map_of_data_dir: "map_option wf_data (map_of d p) = map_of (data_dir d) p"
  by (induction d) (auto simp: data_dir_def)

lemma map_of_paths:
  assumes len: "length datas \<le> 2 ^ 32" and i: "i < length datas"
  shows "map_of (paths_of datas) (file_path i) = Some (datas ! i)"
proof (rule map_of_is_SomeI)
  have "inj_on file_path {..<length datas}"
    by (rule inj_onI, rule file_path_inject) (use len in simp_all)
  then have "distinct (map file_path [0..<length datas])" by (simp add: distinct_map lessThan_atLeast0)
  moreover have "map fst (paths_of datas) = map file_path (map fst (enumerate 0 datas))"
    unfolding paths_of_def map_map by (intro map_cong) auto
  ultimately show "distinct (map fst (paths_of datas))" by simp
  show "(file_path i, datas ! i) \<in> set (paths_of datas)"
    using i by (force simp: paths_of_def in_set_enumerate_eq)
qed

lemma to_string_file_path: "i < 2 ^ 32 \<Longrightarrow> to_string (of_nat i) @ ''.wal'' = file_path i"
  by (simp add: to_string_def file_path_def wal_file_name_def unat_of_nat_u32 unsigned_of_nat take_bit_nat_eq_self)

lemma sscanf_file_path:
  assumes "i < 2 ^ 32"
  shows "sscanf_u64 (file_path i) = Some (of_nat i)"
proof -
  let ?s = "to_string_nat i"
  obtain c cs where s: "?s = c # cs" using to_string_nat_digits [of i] by (cases ?s) auto
  have dig: "\<forall>d \<in> set ?s. is_digit d" using to_string_nat_digits [of i] by (simp add: list_all_iff)
  then have c: "is_digit c" by (simp add: s)
  have "takeWhile is_digit (?s @ ''.wal'') = ?s" using dig by (simp add: takeWhile_append is_digit_def)
  moreover have "file_path i = ?s @ ''.wal''" using assms by (simp add: file_path_def wal_file_name_def unat_of_nat_u32)
  moreover have "i < 2 ^ 64" using assms by simp
  ultimately show ?thesis
    using is_digit_not [OF c] digits_value_to_string [of i] by (simp add: sscanf_u64_def Let_def s)
qed

lemma replay_files_append:
  "replay_files hw co ok d (ns @ ms) m =
    (case replay_files hw co ok d ns m of
       None \<Rightarrow> None
     | Some (s, m') \<Rightarrow> if s = OK then replay_files hw co ok d ms m' else Some (s, m'))"
  by (induction ns arbitrary: m) (simp_all add: Let_def split: option.split prod.split)

text \<open>Replay of the contents of files, one after the other.\<close>

fun replay_datas :: "crc_hw option \<Rightarrow> u8 list list \<Rightarrow> vsl_memtable \<Rightarrow> vsl_memtable option" where
  "replay_datas hw [] m = Some m"
| "replay_datas hw (x # xs) m =
     (case replay_loop hw (\<lambda>_ _. True) [] 0 (reader_at [] x) m of None \<Rightarrow> None | Some m' \<Rightarrow> replay_datas hw xs m')"

lemma replay_datas_append:
  "replay_datas hw (xs @ ys) m = (case replay_datas hw xs m of None \<Rightarrow> None | Some m' \<Rightarrow> replay_datas hw ys m')"
  by (induction xs arbitrary: m) (simp_all split: option.split)

lemma replay_datas_logs:
  "\<forall>es \<in> set old. \<forall>e \<in> set es. batch_fits (snd e) \<Longrightarrow>
   replay_datas hw (map (log_bytes hw) old) m = Some (apply_batches (map snd (concat old)) m)"
proof (induction old arbitrary: m)
  case (Cons es old)
  then have "replay_loop hw (\<lambda>_ _. True) [] 0 (reader_at [] (log_bytes hw es)) m = Some (apply_batches (map snd es) m)"
    using replay_take [of es hw "[]" 0 "[]" "length (log_bytes hw es)" m] by (simp add: surviving_all)
  then show ?case using Cons by simp
qed simp

lemma replay_files_datas:
  assumes len: "length datas \<le> 2 ^ 32" and d: "data_dir d = paths_of datas" and j: "j \<le> length datas"
  shows "replay_files hw (\<lambda>_. True) (\<lambda>_ _ _. True) d (map of_nat [j..<length datas]) m =
    map_option (\<lambda>m'. (OK, m')) (replay_datas hw (drop j datas) m)"
  using j
proof (induction "length datas - j" arbitrary: j m)
  case (Suc n)
  then have j: "j < length datas" "j < 2 ^ 32" using len by simp_all
  have "map_option wf_data (map_of d (file_path j)) = Some (datas ! j)"
    using map_of_paths [OF len j(1)] unfolding map_of_data_dir d .
  then obtain f where "map_of d (file_path j) = Some f" "wf_data f = datas ! j" by auto
  moreover have "WalReader_Open (Some data) True = (OK, reader_at [] data)" for data
    by (auto simp: WalReader_Open_def reader_at_def)
  moreover have "[j..<length datas] = j # [Suc j..<length datas]" "drop j datas = datas ! j # drop (Suc j) datas"
    using j(1) by (simp_all add: upt_conv_Cons Cons_nth_drop_Suc)
  moreover have "replay_files hw (\<lambda>_. True) (\<lambda>_ _ _. True) d (map of_nat [Suc j..<length datas]) m' =
      map_option (\<lambda>m'. (OK, m')) (replay_datas hw (drop (Suc j) datas) m')" for m'
    by (rule Suc.hyps(1)) (use Suc.hyps(2) j in simp_all)
  ultimately show ?case by (simp add: to_string_file_path [OF j(2)] split: option.split)
qed simp

text \<open>A crash cuts every file somewhere behind its synchronised part.\<close>

definition crashed :: "wal_dir \<Rightarrow> wal_dir \<Rightarrow> bool" where
  "crashed d d' \<longleftrightarrow> list_all2 (\<lambda>(n, f) (n', f'). n' = n \<and> wf_durable f \<le> length (wf_data f') \<and>
     wf_data f' = take (length (wf_data f')) (wf_data f)) d d'"

lemma data_dir_of: "data_dir (dir_of fs) = paths_of (map wf_data fs)"
  by (induction fs rule: rev_induct) (simp_all add: data_dir_def paths_of_def dir_of_def enumerate_append_eq)

lemma crashed_stored: "crashed (dir_of (map stored_file xs)) d \<Longrightarrow> data_dir d = paths_of xs"
proof (induction xs arbitrary: d rule: rev_induct)
  case (snoc x xs)
  then obtain d1 q g where "d = d1 @ [(q, g)]" "crashed (dir_of (map stored_file xs)) d1" "q = file_path (length xs)"
    "length x \<le> length (wf_data g)" "wf_data g = take (length (wf_data g)) x"
    by (auto simp: crashed_def dir_of_snoc list_all2_append1 list_all2_Cons1)
  then show ?case using snoc.IH [of d1] by (simp add: data_dir_def paths_of_def enumerate_append_eq)
qed (simp add: crashed_def dir_of_def data_dir_def paths_of_def)

lemma crashed_data_dir:
  assumes "crashed (dir_of (closed_files hw prior old @ [open_file hw cur s])) d" and "disk_ok hw (old, cur, s)"
  shows "\<exists>n \<ge> fst s. data_dir d = paths_of (prior @ map (log_bytes hw) old @ [take n (log_bytes hw cur)])"
proof -
  obtain d0 p f where d: "d = d0 @ [(p, f)]" and d0: "crashed (dir_of (closed_files hw prior old)) d0"
    and f: "p = file_path (length prior + length old)" "fst s \<le> length (wf_data f)"
      "wf_data f = take (length (wf_data f)) (take (snd s) (log_bytes hw cur))"
    using assms(1) by (auto simp: crashed_def dir_of_snoc list_all2_append1 list_all2_Cons1 open_file_def)
  have "fst s \<le> snd s" using assms(2) by (cases s) simp
  then have "fst s \<le> min (length (wf_data f)) (snd s)" "wf_data f = take (min (length (wf_data f)) (snd s)) (log_bytes hw cur)"
    using f(2,3) by (simp_all add: min_def split: if_splits)
  then show ?thesis
    using d f(1) crashed_stored [OF d0 [unfolded closed_files_def]]
    by (intro exI [of _ "min (length (wf_data f)) (snd s)"])
       (simp add: data_dir_def paths_of_def enumerate_append_eq add.commute)
qed

lemma paths_names: "data_dir d = paths_of datas \<Longrightarrow> map fst d = map file_path [0..<length datas]"
proof -
  assume d: "data_dir d = paths_of datas"
  have "map fst d = map fst (data_dir d)" by (auto simp: data_dir_def)
  also have "\<dots> = map file_path (map fst (enumerate 0 datas))"
    unfolding d paths_of_def map_map by (intro map_cong) auto
  finally show ?thesis by simp
qed

lemma map_filter_sscanf:
  assumes "length datas \<le> 2 ^ 32" and d: "data_dir d = paths_of datas"
  shows "List.map_filter (\<lambda>(f, _). sscanf_u64 f) d = map of_nat [0..<length datas]"
proof -
  note names = paths_names [OF d]
  have "List.map_filter (\<lambda>(f, _). sscanf_u64 f) d = List.map_filter sscanf_u64 (map fst d)"
    by (simp add: List.map_filter_def filter_map comp_def case_prod_beta)
  also have "\<dots> = List.map_filter (\<lambda>i. Some (of_nat i)) [0..<length datas]"
    unfolding names using assms(1) sscanf_file_path by (simp add: List.map_filter_def filter_map comp_def cong: map_cong filter_cong)
  finally show ?thesis by (simp add: List.map_filter_def comp_def)
qed

lemma sort_numbers: "n \<le> 2 ^ 32 \<Longrightarrow> sort (map of_nat [0..<n]) = (map of_nat [0..<n] :: u64 list)"
proof (rule sorted_sort_id, unfold sorted_map, rule sorted_wrt_mono_rel [OF _ sorted_wrt_upt])
  fix x y :: nat assume n: "n \<le> 2 ^ 32" and "x \<in> set [0..<n]" "y \<in> set [0..<n]" "x < y"
  then show "(of_nat x :: u64) \<le> of_nat y" by (simp add: word_le_nat_alt unsigned_of_nat take_bit_nat_eq_self)
qed

lemma filter_numbers: "n \<le> 2 ^ 32 \<Longrightarrow> filter (\<lambda>k. 1 \<le> k) (map of_nat [0..<n]) = (map of_nat [1..<n] :: u64 list)"
proof (induction n)
  case (Suc n)
  have "(1 :: u64) \<le> of_nat n \<longleftrightarrow> 1 \<le> n"
    using Suc.prems by (simp add: word_le_nat_alt unsigned_of_nat take_bit_nat_eq_self)
  then show ?case using Suc by simp
qed simp

text \<open>Recovery replays every file but the first one.\<close>

lemma recover_log_files:
  assumes len: "length datas < 2 ^ 32 - 1" and d: "data_dir d = paths_of datas"
  shows "recover_log hw d m = map_option (\<lambda>m'. (OK, m')) (replay_datas hw (drop 1 datas) m)"
proof -
  let ?n = "length datas" and ?d = "d @ [(file_path (length datas), empty_file)]"
  have names: "map fst d = map file_path [0..<?n]" by (rule paths_names [OF d])
  have "fold next_file_number (map fst d) 0 = of_nat ?n"
    using fold_next_file_number [of ?n] len unfolding names by simp
  moreover have "file_path ?n \<notin> fst ` set d"
  proof
    assume "file_path ?n \<in> fst ` set d"
    then have "file_path ?n \<in> file_path ` {0..<?n}" using names by (metis image_set set_upt)
    then obtain i where i: "i < ?n" "file_path ?n = file_path i" by auto
    then show False using file_path_inject [OF _ _ i(2)] len by simp
  qed
  ultimately have "InitWAL 0 True True d [] = (OK, Some ((WalWriter_new WalOptions_default True d [])\<lparr>ww_dir := ?d,
      ww_current := Some (file_path ?n), ww_file_number := of_nat (Suc ?n)\<rparr>))"
    by (simp add: InitWAL_def WalWriter_Open_def WalWriter_new_def SwitchWALFile_def io_call_def Let_def set_file_def
        file_path_def [symmetric] AList_update_new)
  moreover have "data_dir ?d = paths_of (datas @ [[]])"
    using d by (simp add: data_dir_def paths_of_def enumerate_append_eq empty_file_def)
  note D = this
  have l: "length (datas @ [[]]) \<le> 2 ^ 32" using len by simp
  have nums: "List.map_filter (\<lambda>(f, _). sscanf_u64 f) ?d = map of_nat [0..<length (datas @ [[]])]"
    by (rule map_filter_sscanf [OF l D])
  have "sort (filter (\<lambda>n. 1 \<le> n) (map of_nat [0..<length (datas @ [[]])])) = (map of_nat [1..<length (datas @ [[]])] :: u64 list)"
    unfolding filter_numbers [OF l] using sorted_wrt_filter sort_numbers [OF l] filter_numbers [OF l]
    by (metis sorted_filter sorted_sort sorted_sort_id map_ident)
  then have "ReplayWAL hw (\<lambda>_. True) (\<lambda>_ _ _. True) True (Some ?d) 1 m =
      map_option (\<lambda>m'. (OK, m')) (replay_datas hw (drop 1 (datas @ [[]])) m)"
    using replay_files_datas [OF l D, of 1 hw m] by (simp add: ReplayWAL_def nums)
  moreover have "replay_datas hw (drop 1 (datas @ [[]])) m = replay_datas hw (drop 1 datas) m"
  proof (cases datas)
    case (Cons x xs)
    have "replay_loop hw (\<lambda>_ _. True) [] 0 (reader_at [] []) m' = Some m'" for m'
      by (simp add: replay_end reader_at_def kHeaderSize_def)
    then show ?thesis by (simp add: Cons replay_datas_append split: option.split)
  qed simp
  ultimately show ?thesis
    by (simp add: recover_log_def LsmEngine_OpenLog_def option.map_comp o_def)
qed

text \<open>All batches of a run fit a record.\<close>

fun call_fits :: "wal_call \<Rightarrow> bool" where
  "call_fits (CWrite now b) = batch_fits b"
| "call_fits (CAsync b) = batch_fits b"
| "call_fits c = True"

lemma log_run_fits:
  assumes "list_all call_fits calls"
  shows "list_all batch_fits (fst (log_run options calls)) \<and> list_all batch_fits (snd (log_run options calls))"
  using assms
proof (induction calls rule: rev_induct)
  case (snoc c calls)
  then show ?case by (cases c; cases "log_run options calls") (auto simp: log_run_def)
qed (simp add: log_run_def)

lemma wal_run_implements:
  assumes "length prior + length calls < 2 ^ 32 - 1"
  shows "\<exists>D. wal_implements hw prior options (length calls) 0 D (wal_run hw options prior calls) (log_run options calls)"
proof -
  have "Suc (length prior) < 2 ^ 32" using assms by simp
  from implements_run [OF implements_start [OF this], of calls] assms show ?thesis by (simp add: wal_run_def log_run_def)
qed

lemma wal_run_synced:
  assumes len: "length prior + length calls + length calls' < 2 ^ 32 - 2"
  shows "\<exists>D. wal_implements hw prior options (length (calls @ [CSync] @ calls')) (length (fst (log_run options calls))) D
    (wal_run hw options prior (calls @ [CSync] @ calls')) (log_run options (calls @ [CSync] @ calls'))"
proof -
  let ?L = "log_run options calls"
  have n: "length prior + length calls < 2 ^ 32 - 1" using len by simp
  obtain D where D: "wal_implements hw prior options (length calls) 0 D (wal_run hw options prior calls) ?L"
    using wal_run_implements [OF n, of hw options] by blast
  from implements_sync [OF D n] obtain D' where
    D': "wal_implements hw prior options (length calls) (length (fst ?L)) D' (snd (WalWriter_Sync (wal_run hw options prior calls))) ?L"
    by blast
  have s: "log_run options (calls @ [CSync]) = ?L" by (cases ?L) (simp add: log_run_def)
  have "wal_implements hw prior options (Suc (length calls)) (length (fst ?L)) D' (wal_run hw options prior (calls @ [CSync]))
      (log_run options (calls @ [CSync]))"
    using implements_mono [OF D', of "Suc (length calls)"] s by (simp add: wal_run_def)
  from implements_run [OF this, of calls'] len show ?thesis by (simp add: wal_run_def log_run_def)
qed

lemma wal_implementsD:
  assumes "wal_implements hw prior options n j (old, cur, s) w L"
  shows "\<exists>w0. w = on_disk hw prior old cur s w0" "map snd (concat old @ cur) = fst L" "length old \<le> length (fst L)"
    "length (fst L) \<le> n" "disk_safe hw j (old, cur, s)"
  using assms by (auto simp: wal_implements_def simp del: disk_safe.simps)

text \<open>What a crash leaves of a run: the files of earlier runs, the finished files, and a part of the current file that
  contains the batches written before the last synchronisation.\<close>

lemma crash_leaves:
  assumes len: "length prior + length calls + length calls' < 2 ^ 32 - 3" and fits: "list_all call_fits (calls @ calls')"
    and crash: "crashed (ww_dir (wal_run hw options prior (calls @ [CSync] @ calls'))) d"
  obtains old cur n k where "data_dir d = paths_of (prior @ map (log_bytes hw) old @ [take n (log_bytes hw cur)])"
    and "map snd (concat old @ cur) = fst (log_run options (calls @ calls'))"
    and "\<forall>e \<in> set (concat old @ cur). batch_fits (snd e)" and "surviving hw n cur = take k cur" and "k \<le> length cur"
    and "length (fst (log_run options calls)) \<le> length (concat old) + k" and "length prior + length old + 1 < 2 ^ 32 - 1"
    and "\<exists>w0 s. wal_run hw options prior (calls @ [CSync] @ calls') = on_disk hw prior old cur s w0"
proof -
  let ?all = "calls @ [CSync] @ calls'" and ?j = "length (fst (log_run options calls))"
  have small: "length prior + length calls + length calls' < 2 ^ 32 - 2" using len by simp
  have same: "log_run options ?all = log_run options (calls @ calls')"
    by (cases "log_run options calls") (simp add: log_run_def)
  obtain old cur s where imp: "wal_implements hw prior options (length ?all) ?j (old, cur, s) (wal_run hw options prior ?all)
      (log_run options (calls @ calls'))"
    using wal_run_synced [OF small, of hw options] unfolding same by (metis prod.exhaust)
  note log = wal_implementsD(2) [OF imp] and lens = wal_implementsD(3,4) [OF imp] and safe = wal_implementsD(5) [OF imp]
  obtain w0 where w: "wal_run hw options prior ?all = on_disk hw prior old cur s w0" using wal_implementsD(1) [OF imp] by blast
  have "list_all batch_fits (map snd (concat old @ cur))" unfolding log using log_run_fits fits by blast
  then have bf: "\<forall>e \<in> set (concat old @ cur). batch_fits (snd e)" by (auto simp: list_all_iff)
  obtain n where n: "fst s \<le> n" "data_dir d = paths_of (prior @ map (log_bytes hw) old @ [take n (log_bytes hw cur)])"
    using crashed_data_dir [of hw prior old cur s d] crash w disk_safe_ok [OF safe] by (auto simp: on_disk_def)
  obtain k where k: "k \<le> length cur" "surviving hw n cur = take k cur" using surviving_prefix by blast
  have j: "?j \<le> length (concat old) + k"
  proof (cases "?j \<le> length (concat old)")
    case False
    then obtain i where i: "i \<le> length cur" "?j \<le> length (concat old) + i" "length (log_bytes hw (take i cur)) \<le> n"
      using safe n(1) by (cases s) auto
    show ?thesis using surviving_length [OF i(1,3)] k i(2) by simp
  qed simp
  have "length prior + length old + 1 < 2 ^ 32 - 1" using lens len by simp
  then show thesis using that [OF n(2) log bf k(2,1) j] w by blast
qed

lemma replay_datas_crashed:
  assumes "\<forall>e \<in> set (concat old @ cur). batch_fits (snd e)"
  shows "replay_datas hw (map (log_bytes hw) old @ [take n (log_bytes hw cur)]) m =
    Some (apply_batches (map snd (concat old @ surviving hw n cur)) m)"
proof -
  have "\<forall>es \<in> set old. \<forall>e \<in> set es. batch_fits (snd e)" "\<forall>e \<in> set cur. batch_fits (snd e)" using assms by auto
  then show ?thesis
    using replay_take [of cur hw "[]" 0 "[]" n] by (simp add: replay_datas_append replay_datas_logs)
qed


text \<open>The worst crash leaves nothing but the synchronised bytes.\<close>

definition power_loss :: "wal_dir \<Rightarrow> wal_dir" where
  "power_loss d = map (\<lambda>(n, f). (n, stored_file (take (wf_durable f) (wf_data f)))) d"

lemma power_loss_crashed:
  assumes "length prior + length calls < 2 ^ 32 - 1"
  shows "crashed (ww_dir (wal_run hw options prior calls)) (power_loss (ww_dir (wal_run hw options prior calls)))"
proof -
  obtain old cur s where imp: "wal_implements hw prior options (length calls) 0 (old, cur, s) (wal_run hw options prior calls) (log_run options calls)"
    using wal_run_implements [OF assms, of hw options] by (metis prod.exhaust)
  obtain w0 where "wal_run hw options prior calls = on_disk hw prior old cur s w0" using wal_implementsD(1) [OF imp] by blast
  then have dir: "ww_dir (wal_run hw options prior calls) = dir_of (closed_files hw prior old @ [open_file hw cur s])"
    by (simp add: on_disk_def)
  have "fst s \<le> length (take (snd s) (log_bytes hw cur))" using wal_implementsD(5) [OF imp] by (cases s) simp
  then have "\<forall>(n, f) \<in> set (ww_dir (wal_run hw options prior calls)). wf_durable f \<le> length (wf_data f)"
    by (auto simp: dir dir_of_snoc open_file_def) (auto simp: dir_of_def closed_files_def in_set_enumerate_eq nth_append)
  then show ?thesis by (auto simp: crashed_def power_loss_def list_all2_map2 list_all2_same)
qed

definition small_files :: wal_options where
  "small_files = \<lparr>wo_max_file_size = 100, wo_group_commit_timeout_us = 0, wo_sync_interval_ms = 0, wo_sync_threshold = 0,
     wo_sync_on_write = False\<rparr>"


lemma zero_name: "wal_file_name 0 = ''0.wal''"
  by code_simp

text \<open>C2. The first log file of a database is never replayed: \<open>Open\<close> replays the files from number 1 on, and the writer of a
  new database starts with the file \<open>0.wal\<close>. After a first run and a crash as in the property before, opening the engine
  ends without error and applies a prefix of the batches written that contains all batches written before the last
  synchronisation, but without the batches whose records are in \<open>0.wal\<close>: they are lost although they were
  synchronised.\<close>

theorem first_log_file_lost:
  assumes "length calls + length calls' < 2 ^ 32 - 3" and "list_all call_fits (calls @ calls')"
    and "crashed (ww_dir (wal_run hw options [] (calls @ [CSync] @ calls'))) d"
  shows "\<exists>es k. (let f = file_of (wal_run hw options [] (calls @ [CSync] @ calls')) ''0.wal'' in wf_data f @ wf_buffer f = log_bytes hw es) \<and>
    map snd es = take (length es) (fst (log_run options (calls @ calls'))) \<and> length (fst (log_run options calls)) \<le> k \<and>
    recover_log hw d m = Some (OK, apply_batches (drop (length es) (take k (fst (log_run options (calls @ calls'))))) m)"
proof -
  have small: "length ([] :: u8 list list) + length calls + length calls' < 2 ^ 32 - 3" using assms(1) by simp
  obtain old cur n k w0 s where left: "data_dir d = paths_of ([] @ map (log_bytes hw) old @ [take n (log_bytes hw cur)])"
    and log: "map snd (concat old @ cur) = fst (log_run options (calls @ calls'))"
    and fits: "\<forall>e \<in> set (concat old @ cur). batch_fits (snd e)" and k: "surviving hw n cur = take k cur" "k \<le> length cur"
    and j: "length (fst (log_run options calls)) \<le> length (concat old) + k"
    and len: "length ([] :: u8 list list) + length old + 1 < 2 ^ 32 - 1"
    and w: "wal_run hw options [] (calls @ [CSync] @ calls') = on_disk hw [] old cur s w0"
    using crash_leaves [OF small assms(2,3)] by metis
  have name: "''0.wal'' = file_path 0" by (simp add: file_path_def zero_name)
  have r: "recover_log hw d m = map_option (\<lambda>m'. (OK, m')) (replay_datas hw (drop 1 (map (log_bytes hw) old @ [take n (log_bytes hw cur)])) m)"
    using recover_log_files [OF _ left, of hw m] len by simp
  have all: "map snd (concat old @ surviving hw n cur) = take (length (concat old) + k) (fst (log_run options (calls @ calls')))"
    unfolding log [symmetric] k(1) by (simp add: take_map)
  show ?thesis
  proof (cases old)
    case Nil
    have f: "file_of (on_disk hw [] old cur s w0) ''0.wal'' = open_file hw cur s"
      by (simp add: Nil name on_disk_def file_of_def dir_of_def closed_files_def)
    have all: "map snd cur = fst (log_run options (calls @ calls'))" using log Nil by simp
    then have "length cur = length (fst (log_run options (calls @ calls')))" by (metis length_map)
    then show ?thesis
      unfolding w f Let_def using r j k(2) all by (intro exI [of _ cur] exI [of _ k]) (simp add: Nil open_file_def)
  next
    case (Cons es rest)
    have f: "file_of (on_disk hw [] old cur s w0) ''0.wal'' = stored_file (log_bytes hw es)"
      by (simp add: Cons name on_disk_def file_of_def dir_of_def closed_files_def)
    have "map snd (concat rest @ surviving hw n cur) = drop (length es) (take (length (concat old) + k) (fst (log_run options (calls @ calls'))))"
      unfolding all [symmetric] by (simp add: Cons)
    moreover have "replay_datas hw (drop 1 (map (log_bytes hw) old @ [take n (log_bytes hw cur)])) m =
        Some (apply_batches (map snd (concat rest @ surviving hw n cur)) m)"
      using replay_datas_crashed [of rest cur hw n m] fits by (simp add: Cons)
    moreover have "map snd es = take (length es) (fst (log_run options (calls @ calls')))"
      unfolding log [symmetric] by (simp add: Cons)
    ultimately show ?thesis
      unfolding w f Let_def using r j by (intro exI [of _ es] exI [of _ "length (concat old) + k"]) simp
  qed
qed

lemma first_log_file_lost_witness:
  "let b = Batch_Put (CedarKey_Vertex 1 2 10 0 0 0 0) 5 10 [];
       d = power_loss (ww_dir (wal_run None small_files [] ([CWrite 0 b] @ [CSync] @ [])))
   in recover_log None d VSLMemTable_new = Some (OK, VSLMemTable_new)"
proof -
  let ?b = "Batch_Put (CedarKey_Vertex 1 2 10 0 0 0 0) 5 10 []" and ?w = "wal_run None small_files [] ([CWrite 0 (Batch_Put (CedarKey_Vertex 1 2 10 0 0 0 0) 5 10 [])] @ [CSync] @ [])"
  have c: "crashed (ww_dir ?w) (power_loss (ww_dir ?w))" by (rule power_loss_crashed) simp
  have fits: "list_all call_fits ([CWrite 0 ?b] @ [])" by (simp add: Batch_Put_def batch_fits_def)
  have "length [CWrite 0 ?b] + length ([] :: wal_call list) < 2 ^ 32 - 3" by simp
  from first_log_file_lost [OF this fits c, of VSLMemTable_new] obtain es k where es: "let f = file_of ?w ''0.wal'' in wf_data f @ wf_buffer f = log_bytes None es"
      "recover_log None (power_loss (ww_dir ?w)) VSLMemTable_new =
        Some (OK, apply_batches (drop (length es) (take k (fst (log_run small_files ([CWrite 0 ?b] @ []))))) VSLMemTable_new)"
    by blast
  have "wf_data (file_of ?w ''0.wal'') @ wf_buffer (file_of ?w ''0.wal'') \<noteq> []"
    by (simp add: wal_run_def dir_of_def WalWriter_Open_def WalWriter_new_def SwitchWALFile_def io_call_def Let_def wal_WriteBatch_def
        small_files_def WriteInternal_def length_make_record Batch_Put_def zero_name entry_bytes_not_Nil [of None "(1, b)" for b, unfolded entry_bytes_def, simplified]
        set_file_def file_Append_def file_of_def empty_file_def set_buffer_def kWritableFileBufferSize_def need_sync_def
        WalWriter_Sync_def file_Sync_def FlushBuffer_def WriteUnbuffered_def)
  then have "es \<noteq> []" using es(1) by (auto simp: Let_def)
  then have "drop (length es) (take k (fst (log_run small_files ([CWrite 0 ?b] @ [])))) = []"
    by (cases es) (simp_all add: log_run_def small_files_def Batch_Put_def)
  then show ?thesis using es(2) by (simp add: Let_def)
qed

text \<open>A record whose length field was changed so that it ends behind the file hides everything that follows it: the
  checksum covers the data only, and the reader continues behind the length it was told.\<close>

lemma damaged_length_hides_rest:
  assumes "length rest < unat (wh_data_length h)"
  shows "replay_loop hw (\<lambda>_ _. True) batch sq (reader_at pre (Header_EncodeTo h @ rest)) m = Some m"
proof -
  have "ReadNextRecord hw (\<lambda>_ _. True) batch sq (reader_at pre (Header_EncodeTo h @ rest)) =
      Some (Corruption, batch, ucast (wh_sequence h),
        (reader_at pre (Header_EncodeTo h @ rest))\<lparr>rd_offset := length pre + kHeaderSize + unat (wh_data_length h)\<rparr>)"
    using assms Header_roundtrip [of h "[]"]
    by (simp add: ReadNextRecord_def reader_at_def kHeaderSize_def [symmetric] Let_def)
  then show ?thesis
    using assms by (subst replay_loop.simps) (simp add: replay_end reader_at_def kHeaderSize_def)
qed

lemma replay_entries:
  "\<forall>e \<in> set es. batch_fits (snd e) \<Longrightarrow>
   \<exists>batch' sq'. replay_loop hw (\<lambda>_ _. True) batch sq (reader_at pre (log_bytes hw es @ rest)) m =
     replay_loop hw (\<lambda>_ _. True) batch' sq' (reader_at (pre @ log_bytes hw es) rest) (apply_batches (map snd es) m)"
proof (induction es arbitrary: pre batch sq m)
  case (Cons e es)
  obtain s b where e: "e = (s, b)" by fastforce
  have b: "batch_fits b" using Cons.prems e by simp
  have "replay_loop hw (\<lambda>_ _. True) batch sq (reader_at pre (log_bytes hw (e # es) @ rest)) m =
      replay_loop hw (\<lambda>_ _. True) b (ucast (ucast s :: u32)) (reader_at (pre @ entry_bytes hw (s, b)) (log_bytes hw es @ rest)) (fold replay_op b m)"
    by (subst replay_loop.simps) (simp add: e Read_entry [OF b])
  then show ?case
    using Cons.IH [of b "ucast (ucast s :: u32)" "pre @ entry_bytes hw (s, b)" "fold replay_op b m"] Cons.prems e by simp
qed auto

text \<open>C12. Damage to the data of a record is confined to the record: when the data of one record, in any log file, was changed
  within four consecutive bytes, opening the engine notices it by the checksum, skips exactly this record and recovers what
  it would recover if the record had not been written, with all the records before and behind it. The checksum does not
  cover the header of a record; a damaged length field hides the records behind it.\<close>

theorem wal_damage_confined:
  assumes "crc_build_ok hw" and "list_all (\<lambda>(_, b). batch_fits b) (es @ [(s, b)] @ es')"
    and "burst_damage (Batch_EncodeTo b) data" and "length before + length after < 2 ^ 32 - 2"
  shows "recover_log hw (dir_of (map stored_file
      (before @ [log_bytes hw es @ damaged_entry hw (s, b) data @ log_bytes hw es'] @ after))) m =
    recover_log hw (dir_of (map stored_file (before @ [log_bytes hw (es @ es')] @ after))) m"
proof -
  let ?f = "log_bytes hw es @ damaged_entry hw (s, b) data @ log_bytes hw es'"
  have fits: "\<forall>e \<in> set es. batch_fits (snd e)" "\<forall>e \<in> set es'. batch_fits (snd e)" "batch_fits b"
    using assms(2) by (auto simp: list_all_iff)
  have loop: "replay_loop hw (\<lambda>_ _. True) [] 0 (reader_at [] ?f) m' = Some (apply_batches (map snd (es @ es')) m')" for m'
  proof -
    obtain batch sq where "replay_loop hw (\<lambda>_ _. True) [] 0 (reader_at [] ?f) m' =
        replay_loop hw (\<lambda>_ _. True) batch sq (reader_at (log_bytes hw es) (damaged_entry hw (s, b) data @ log_bytes hw es'))
          (apply_batches (map snd es) m')"
      using replay_entries [OF fits(1), of hw "[]" 0 "[]" "damaged_entry hw (s, b) data @ log_bytes hw es'" m'] by auto
    also have "\<dots> = replay_loop hw (\<lambda>_ _. True) batch (ucast (ucast s :: u32))
        (reader_at (log_bytes hw es @ damaged_entry hw (s, b) data) (log_bytes hw es')) (apply_batches (map snd es) m')"
      by (subst replay_loop.simps) (simp add: Read_damaged [OF fits(3) assms(1,3)])
    also have "\<dots> = Some (apply_batches (map snd es') (apply_batches (map snd es) m'))"
      using replay_take [OF fits(2), of hw batch "ucast (ucast s :: u32)" "log_bytes hw es @ damaged_entry hw (s, b) data"
          "length (log_bytes hw es')"] by (simp add: surviving_all)
    finally show ?thesis by simp
  qed
  have good: "replay_loop hw (\<lambda>_ _. True) [] 0 (reader_at [] (log_bytes hw (es @ es'))) m' = Some (apply_batches (map snd (es @ es')) m')" for m'
    using replay_take [of "es @ es'" hw "[]" 0 "[]" "length (log_bytes hw (es @ es'))" m'] fits by (auto simp: surviving_all)
  have rec: "recover_log hw (dir_of (map stored_file (before @ [x] @ after))) m =
      map_option (\<lambda>m'. (OK, m')) (replay_datas hw (drop 1 (before @ [x] @ after)) m)" for x
    using assms(4) by (intro recover_log_files) (simp_all add: data_dir_of o_def)
  show ?thesis
    unfolding rec using loop good
    by (cases before) (simp_all only: append.simps drop_0 drop_Suc_Cons One_nat_def replay_datas_append replay_datas.simps cong: option.case_cong)
qed

lemma wal_damage_confined_witness:
  "let b = Batch_Put (CedarKey_Vertex 1 2 10 0 0 0 0) 5 10 []; bad = le_bytes 4 (2 :: u32) @ drop 4 (Batch_EncodeTo b)
   in recover_log None (dir_of (map stored_file ([[]] @ [log_bytes None [(1, b)] @ damaged_entry None (2, b) bad @ log_bytes None [(3, b)]] @ [])))
        VSLMemTable_new =
      recover_log None (dir_of (map stored_file ([[]] @ [log_bytes None ([(1, b)] @ [(3, b)])] @ []))) VSLMemTable_new"
proof -
  let ?b = "Batch_Put (CedarKey_Vertex 1 2 10 0 0 0 0) 5 10 []"
  have "burst_damage (Batch_EncodeTo ?b) (le_bytes 4 (2 :: u32) @ drop 4 (Batch_EncodeTo ?b))"
    unfolding burst_damage_def
    by (rule exI [of _ "[]"], rule exI [of _ "take 4 (Batch_EncodeTo ?b)"], rule exI [of _ "le_bytes 4 (2 :: u32)"],
        rule exI [of _ "drop 4 (Batch_EncodeTo ?b)"])
       (auto simp: Batch_EncodeTo_def Batch_Put_def fixed_defs dest: arg_cong [where f = "le_word :: u8 list \<Rightarrow> u32"])
  moreover have "list_all (\<lambda>(_, b). batch_fits b) ([(1, ?b)] @ [(2, ?b)] @ [(3, ?b)])" by (simp add: batch_fits_def Batch_Put_def)
  ultimately show ?thesis
    using wal_damage_confined [of None "[(1, ?b)]" 2 ?b "[(3, ?b)]" _ "[[]]" "[]" VSLMemTable_new]
    unfolding Let_def by (simp add: crc_build_ok_def del: log_bytes_simps)
qed

end
