(* ===== verification/Lnd_Occ.thy ===== *)
theory Lnd_Occ
  imports Txn_State Wal Vsl_Memtable
begin

text \<open>
  Optimistic transactions over partitions (\<open>src/include/cedar/dtx/lsm_native_occ.h\<close>,
  \<open>src/src/dtx/protocol/lsm_native_occ.cc\<close>): the coordinator of one partition, which validates with the
  conflict detection engine and writes to the log and the memtable, and the engine above the coordinators with its
  commit paths for one partition, for several partitions with one temporal window, and full two-phase
  commit. Clock readings and the outcomes of the storage clients are inputs; the messages sent to clients
  are recorded. Contexts are never null, and metrics and latencies are left out.
\<close>

subsection \<open>Coordinator of one partition\<close>

record lnd_result =
  lr_success :: bool
  lr_commit_ts :: u64
  lr_status :: Status

definition LndOk :: "u64 \<Rightarrow> lnd_result" where
  "LndOk ts = \<lparr>lr_success = True, lr_commit_ts = ts, lr_status = OK\<rparr>"

definition LndError :: "Status \<Rightarrow> lnd_result" where
  "LndError s = \<lparr>lr_success = False, lr_commit_ts = 0, lr_status = s\<rparr>"

record local_coordinator =
  lc_partition :: partition_id
  lc_memtable :: "vsl_memtable option"
  lc_wal :: "wal_writer option"
  lc_total :: u64
  lc_committed :: u64
  lc_aborted :: u64
  lc_retries :: u64

text \<open>What the coordinators share: the conflict detection engine and the two counters of transaction ids.\<close>

record lnd_shared =
  sh_twcd :: "twcd_engine option"
  sh_txn_counter :: u64
  sh_inline_counter :: u64

definition LocalCoordinator_new :: "partition_id \<Rightarrow> vsl_memtable option \<Rightarrow> wal_writer option \<Rightarrow> local_coordinator" where
  "LocalCoordinator_new pid memtable wal =
     \<lparr>lc_partition = pid, lc_memtable = memtable, lc_wal = wal, lc_total = 0, lc_committed = 0, lc_aborted = 0, lc_retries = 0\<rparr>"

definition GenerateTxnID :: "lnd_shared \<Rightarrow> txn_id \<times> lnd_shared" where
  "GenerateTxnID sh = (sh_txn_counter sh, sh\<lparr>sh_txn_counter := sh_txn_counter sh + 1\<rparr>)"

definition GenerateTxnIDInline :: "lnd_shared \<Rightarrow> txn_id \<times> lnd_shared" where
  "GenerateTxnIDInline sh = (sh_inline_counter sh, sh\<lparr>sh_inline_counter := sh_inline_counter sh + 1\<rparr>)"

text \<open>The readings of the clocks during one attempt.\<close>

record clocks =
  ck_start :: u64
  ck_register :: timestamp
  ck_latency :: u64
  ck_commit :: u64
  ck_wal :: nat

definition lnd_BeginTransaction ::
  "clocks \<Rightarrow> txn_context \<Rightarrow> local_coordinator \<Rightarrow> lnd_shared \<Rightarrow>
   Status \<times> txn_context \<times> local_coordinator \<times> lnd_shared" where
  "lnd_BeginTransaction ck ctx0 lc sh0 =
    (let (ctx1, sh1) = (if ctx_txn_id ctx0 = kInvalidTxnID
           then let (id, sh) = GenerateTxnID sh0 in (ctx0\<lparr>ctx_txn_id := id\<rparr>, sh) else (ctx0, sh0));
         ctx2 = (if ctx_start_ts ctx1 = 0 then ctx1\<lparr>ctx_start_ts := ck_start ck\<rparr> else ctx1);
         ctx3 = SetPartitionLeader (lc_partition lc) 0 (AddParticipant (lc_partition lc) ctx2);
         (st, sh2) = (case sh_twcd sh1 of
             None \<Rightarrow> (OK, sh1)
           | Some e \<Rightarrow> let (s, e') = RegisterWindow (ctx_txn_id ctx3) (ctx_window ctx3) (ck_register ck) e
                      in (s, sh1\<lparr>sh_twcd := Some e'\<rparr>))
     in if st \<noteq> OK then (st, ctx3, lc, sh2)
        else (OK, ctx3\<lparr>ctx_state := kStarted\<rparr>, lc\<lparr>lc_total := lc_total lc + 1\<rparr>, sh2))"

definition lnd_Validate :: "clocks \<Rightarrow> txn_context \<Rightarrow> lnd_shared \<Rightarrow> Status \<times> txn_context \<times> lnd_shared" where
  "lnd_Validate ck ctx0 sh =
    (let ctx = ctx0\<lparr>ctx_state := kPreparing\<rparr> in
     case sh_twcd sh of
       None \<Rightarrow> (OK, ctx, sh)
     | Some e0 \<Rightarrow>
         (let reads = map rsi_key (ctx_read_set ctx); writes = map wsi_key (ctx_write_set ctx);
              (s1, e1) = (if writes \<noteq> [] then RegisterWriteSet (ctx_txn_id ctx) writes e0 else (OK, e0))
          in if s1 \<noteq> OK then (s1, ctx, sh\<lparr>sh_twcd := Some e1\<rparr>)
             else let (r, e2) = CheckConflict (ctx_txn_id ctx) (ctx_window ctx) reads writes (ck_latency ck) e1
                  in (if has_conflict r then IOError else OK, ctx, sh\<lparr>sh_twcd := Some e2\<rparr>)))"

definition clear_registration :: "txn_id \<Rightarrow> lnd_shared \<Rightarrow> lnd_shared" where
  "clear_registration txn sh =
     sh\<lparr>sh_twcd := map_option (\<lambda>e. UnregisterWindow txn (UnregisterWriteSet txn e)) (sh_twcd sh)\<rparr>"

definition lnd_Abort ::
  "txn_context \<Rightarrow> local_coordinator \<Rightarrow> lnd_shared \<Rightarrow> Status \<times> txn_context \<times> local_coordinator \<times> lnd_shared" where
  "lnd_Abort ctx lc sh =
     (OK, ctx\<lparr>ctx_state := kAborted\<rparr>, lc\<lparr>lc_aborted := lc_aborted lc + 1\<rparr>, clear_registration (ctx_txn_id ctx) sh)"

text \<open>A blocking \<open>WriteBatch\<close>: with group commit the caller waits for a round of the commit thread; \<open>None\<close> waits
  for ever.\<close>

definition WriteBatch_wait :: "crc_hw option \<Rightarrow> nat \<Rightarrow> wal_batch \<Rightarrow> wal_writer \<Rightarrow> (Status \<times> wal_writer) option" where
  "WriteBatch_wait hw now batch w =
    (case wal_WriteBatch hw now batch w of
       (WDone s, w1) \<Rightarrow> Some (s, w1)
     | (WPending sequence, w1) \<Rightarrow>
         (let w2 = ProcessGroupCommit hw now w1
          in map_option (\<lambda>s. (s, w2)) (map_of (ww_promises w2) sequence)))"

fun put_all :: "cedar_key list \<Rightarrow> timestamp \<Rightarrow> vsl_memtable \<Rightarrow> Status \<times> vsl_memtable" where
  "put_all [] ts m = (OK, m)"
| "put_all (k # ks) ts m =
     (let (s, m') = mt_Put k Descriptor_default ts m in if s \<noteq> OK then (s, m') else put_all ks ts m')"

definition write_wal :: "crc_hw option \<Rightarrow> clocks \<Rightarrow> txn_context \<Rightarrow> local_coordinator \<Rightarrow> (Status \<times> local_coordinator) option" where
  "write_wal hw ck ctx lc =
    (case lc_wal lc of
       None \<Rightarrow> Some (OK, lc)
     | Some w \<Rightarrow>
         (let batch = fold (\<lambda>item. Batch_Put (wsi_key item) Descriptor_default (ck_commit ck)) (ctx_write_set ctx) []
          in case WriteBatch_wait hw (ck_wal ck) batch w of
               None \<Rightarrow> None
             | Some (s, w1) \<Rightarrow>
                 if s \<noteq> OK then Some (s, lc\<lparr>lc_wal := Some w1\<rparr>)
                 else (let (s2, w2) = WalWriter_Sync w1 in Some (s2, lc\<lparr>lc_wal := Some w2\<rparr>))))"

definition write_memtable :: "clocks \<Rightarrow> txn_context \<Rightarrow> local_coordinator \<Rightarrow> Status \<times> local_coordinator" where
  "write_memtable ck ctx lc =
    (case lc_memtable lc of
       None \<Rightarrow> (OK, lc)
     | Some m \<Rightarrow> (let (s, m') = put_all (map wsi_key (ctx_write_set ctx)) (ck_commit ck) m
                 in (s, lc\<lparr>lc_memtable := Some m'\<rparr>)))"

type_synonym commit_state = "txn_context \<times> local_coordinator \<times> lnd_shared"

definition lnd_Commit ::
  "crc_hw option \<Rightarrow> clocks \<Rightarrow> txn_context \<Rightarrow> local_coordinator \<Rightarrow> lnd_shared \<Rightarrow> (lnd_result \<times> commit_state) option" where
  "lnd_Commit hw ck ctx0 lc0 sh0 =
    (let (s1, ctx1, sh1) = lnd_Validate ck ctx0 sh0 in
     if s1 \<noteq> OK then Some (LndError s1, snd (lnd_Abort ctx1 lc0 sh1))
     else let ctx2 = ctx1\<lparr>ctx_commit_ts := ck_commit ck, ctx_state := kCommitting\<rparr> in
       case write_wal hw ck ctx2 lc0 of
         None \<Rightarrow> None
       | Some (s2, lc1) \<Rightarrow>
           if s2 \<noteq> OK then Some (LndError s2, snd (lnd_Abort ctx2 lc1 sh1))
           else let (s3, lc2) = write_memtable ck ctx2 lc1 in
             if s3 \<noteq> OK then Some (LndError s3, snd (lnd_Abort ctx2 lc2 sh1))
             else Some (LndOk (ck_commit ck),
                    (ctx2\<lparr>ctx_state := kCommitted\<rparr>, lc2\<lparr>lc_committed := lc_committed lc2 + 1\<rparr>,
                     clear_registration (ctx_txn_id ctx2) sh1)))"

definition lc_ResetStats :: "local_coordinator \<Rightarrow> local_coordinator" where
  "lc_ResetStats lc = lc\<lparr>lc_total := 0, lc_committed := 0, lc_aborted := 0, lc_retries := 0\<rparr>"

text \<open>\<open>Execute\<close> with its retries: \<open>func\<close> is the user's code, which answers or throws; attempt \<open>n\<close> reads the
  clocks \<open>cks n\<close>. The bound on the retries is below the largest value of its 32 bit counter.\<close>

datatype user_outcome = UTrue | UFalse | UThrow

fun execute_loop ::
  "crc_hw option \<Rightarrow> (nat \<Rightarrow> clocks) \<Rightarrow> (nat \<Rightarrow> txn_context \<Rightarrow> user_outcome \<times> txn_context) \<Rightarrow> temporal_window \<Rightarrow>
   nat \<Rightarrow> nat \<Rightarrow> local_coordinator \<Rightarrow> lnd_shared \<Rightarrow> (lnd_result \<times> local_coordinator \<times> lnd_shared) option" where
  "execute_loop hw cks func window attempt 0 lc sh = Some (LndError IOError, lc, sh)"
| "execute_loop hw cks func window attempt (Suc left) lc0 sh0 =
    (let lc1 = (if 0 < attempt then lc0\<lparr>lc_retries := lc_retries lc0 + 1\<rparr> else lc0);
         (id, sh1) = GenerateTxnIDInline sh0; ck = cks attempt;
         ctx0 = TxnContext_default\<lparr>ctx_txn_id := id, ctx_start_ts := ck_start ck, ctx_window := window,
           ctx_type := kSinglePartition\<rparr>;
         (s2, ctx2, lc2, sh2) = lnd_BeginTransaction ck ctx0 lc1 sh1
     in if s2 \<noteq> OK then Some (LndError s2, lc2, sh2)
        else let (answer, ctx3) = func attempt ctx2 in
          if answer \<noteq> UTrue then
            (let (_, _, lc3, sh3) = lnd_Abort ctx3 lc2 sh2 in Some (LndError IOError, lc3, sh3))
          else case lnd_Commit hw ck ctx3 lc2 sh2 of
              None \<Rightarrow> None
            | Some (result, _, lc3, sh3) \<Rightarrow>
                if lr_success result then Some (result, lc3, sh3)
                else execute_loop hw cks func window (Suc attempt) left lc3 sh3)"

definition lnd_Execute ::
  "crc_hw option \<Rightarrow> (nat \<Rightarrow> clocks) \<Rightarrow> (nat \<Rightarrow> txn_context \<Rightarrow> user_outcome \<times> txn_context) \<Rightarrow> temporal_window \<Rightarrow> nat \<Rightarrow>
   local_coordinator \<Rightarrow> lnd_shared \<Rightarrow> (lnd_result \<times> local_coordinator \<times> lnd_shared) option" where
  "lnd_Execute hw cks func window max_retries lc sh = execute_loop hw cks func window 0 (Suc max_retries) lc sh"

subsection \<open>Engine\<close>

record lnd_engine =
  en_shared :: lnd_shared
  en_coordinators :: "(partition_id \<times> local_coordinator) list"
  en_sm :: "state_manager option"
  en_sm_io :: "io_outcome list"
  en_single_commits :: u64
  en_same_range_commits :: u64
  en_full_commits :: u64

definition LndOccEngine_new :: "bool \<Rightarrow> lnd_engine" where
  "LndOccEngine_new enable_twcd =
     \<lparr>en_shared = \<lparr>sh_twcd = (if enable_twcd then Some TwcdEngine_init else None), sh_txn_counter = 1000, sh_inline_counter = 1000\<rparr>,
      en_coordinators = [], en_sm = None, en_sm_io = [], en_single_commits = 0, en_same_range_commits = 0, en_full_commits = 0\<rparr>"

definition lnd_Initialize ::
  "(partition_id \<times> vsl_memtable option \<times> wal_writer option) list \<Rightarrow> lnd_engine \<Rightarrow> Status \<times> lnd_engine" where
  "lnd_Initialize stores en =
     (OK, en\<lparr>en_coordinators := fold (\<lambda>(pid, m, w). AList.update pid (LocalCoordinator_new pid m w)) stores (en_coordinators en)\<rparr>)"

definition SetTransactionStateManager :: "state_manager option \<Rightarrow> lnd_engine \<Rightarrow> lnd_engine" where
  "SetTransactionStateManager sm en = en\<lparr>en_sm := sm\<rparr>"

definition GetCoordinator :: "partition_id \<Rightarrow> lnd_engine \<Rightarrow> local_coordinator option" where
  "GetCoordinator pid en = map_of (en_coordinators en) pid"

definition put_coordinator :: "partition_id \<Rightarrow> local_coordinator \<Rightarrow> lnd_shared \<Rightarrow> lnd_engine \<Rightarrow> lnd_engine" where
  "put_coordinator pid lc sh en = en\<lparr>en_coordinators := AList.update pid lc (en_coordinators en), en_shared := sh\<rparr>"

text \<open>A call of the state manager, when there is one, with the outcome of its write to the state log.\<close>

definition sm_call :: "(io_outcome \<Rightarrow> state_manager \<Rightarrow> Status \<times> state_manager) \<Rightarrow> lnd_engine \<Rightarrow> Status \<times> lnd_engine" where
  "sm_call f en =
    (case en_sm en of
       None \<Rightarrow> (OK, en)
     | Some sm \<Rightarrow>
         (let (io, ios) = (case en_sm_io en of [] \<Rightarrow> (IoOk, []) | x # xs \<Rightarrow> (x, xs));
              (s, sm') = f io sm
          in (s, en\<lparr>en_sm := Some sm', en_sm_io := ios\<rparr>)))"

definition sm_set_state :: "txn_id \<Rightarrow> u32 \<Rightarrow> lnd_engine \<Rightarrow> lnd_engine" where
  "sm_set_state txn st en = snd (sm_call (\<lambda>io. UpdateState io txn st) en)"

definition SinglePartitionCommit ::
  "crc_hw option \<Rightarrow> clocks \<Rightarrow> txn_context \<Rightarrow> lnd_engine \<Rightarrow> (lnd_result \<times> txn_context \<times> lnd_engine) option" where
  "SinglePartitionCommit hw ck ctx0 en =
    (if length (ctx_participants ctx0) \<noteq> 1 then Some (LndError InvalidArgument, ctx0, en)
     else let pid = hd (ctx_participants ctx0) in
       case GetCoordinator pid en of
         None \<Rightarrow> Some (LndError NotFound, ctx0, en)
       | Some lc0 \<Rightarrow>
           (let (s1, ctx1, lc1, sh1) =
              (if ctx_txn_id ctx0 = kInvalidTxnID \<or> ctx_start_ts ctx0 = 0 \<or> ctx_state ctx0 \<noteq> kStarted
               then lnd_BeginTransaction ck ctx0 lc0 (en_shared en) else (OK, ctx0, lc0, en_shared en))
            in if s1 \<noteq> OK then Some (LndError s1, ctx1, put_coordinator pid lc1 sh1 en)
               else case lnd_Commit hw ck ctx1 lc1 sh1 of
                   None \<Rightarrow> None
                 | Some (result, ctx2, lc2, sh2) \<Rightarrow>
                     (let en2 = put_coordinator pid lc2 sh2 en
                      in Some (result, ctx2, if lr_success result
                           then en2\<lparr>en_single_commits := en_single_commits en2 + 1\<rparr> else en2))))"

text \<open>Phase one of the commit over one temporal window: whether all validated, and the partitions that did.
  Position \<open>i\<close> in the list of participants reads the clocks \<open>cks i\<close>.\<close>

fun validate_all ::
  "(nat \<Rightarrow> clocks) \<Rightarrow> partition_id list \<Rightarrow> txn_context \<Rightarrow> lnd_engine \<Rightarrow> bool \<times> partition_id list \<times> txn_context \<times> lnd_engine" where
  "validate_all cks [] ctx en = (True, [], ctx, en)"
| "validate_all cks (pid # pids) ctx0 en0 =
    (case GetCoordinator pid en0 of
       None \<Rightarrow> (False, [], ctx0, en0)
     | Some _ \<Rightarrow>
         (let (s, ctx1, sh1) = lnd_Validate (cks 0) ctx0 (en_shared en0); en1 = en0\<lparr>en_shared := sh1\<rparr>
          in if s \<noteq> OK then (False, [], ctx1, en1)
             else let (ok, done, ctx2, en2) = validate_all (\<lambda>i. cks (Suc i)) pids ctx1 en1 in (ok, pid # done, ctx2, en2)))"

fun abort_all :: "partition_id list \<Rightarrow> txn_context \<Rightarrow> lnd_engine \<Rightarrow> txn_context \<times> lnd_engine" where
  "abort_all [] ctx en = (ctx, en)"
| "abort_all (pid # pids) ctx en =
    (case GetCoordinator pid en of
       None \<Rightarrow> abort_all pids ctx en
     | Some lc \<Rightarrow> (let (_, ctx1, lc1, sh1) = lnd_Abort ctx lc (en_shared en)
                  in abort_all pids ctx1 (put_coordinator pid lc1 sh1 en)))"

fun commit_all ::
  "crc_hw option \<Rightarrow> (nat \<Rightarrow> clocks) \<Rightarrow> partition_id list \<Rightarrow> lnd_result \<Rightarrow> bool \<Rightarrow> txn_context \<Rightarrow> lnd_engine \<Rightarrow>
   (lnd_result \<times> bool \<times> txn_context \<times> lnd_engine) option" where
  "commit_all hw cks [] overall all ctx en = Some (overall, all, ctx, en)"
| "commit_all hw cks (pid # pids) overall all ctx en =
    (case GetCoordinator pid en of
       None \<Rightarrow> commit_all hw (\<lambda>i. cks (Suc i)) pids overall all ctx en
     | Some lc \<Rightarrow>
         (case lnd_Commit hw (cks 0) ctx lc (en_shared en) of
            None \<Rightarrow> None
          | Some (result, ctx1, lc1, sh1) \<Rightarrow>
              commit_all hw (\<lambda>i. cks (Suc i)) pids (if lr_success result then overall else result) (all \<and> lr_success result)
                ctx1 (put_coordinator pid lc1 sh1 en)))"

definition SameTemporalRangeCommit ::
  "crc_hw option \<Rightarrow> (nat \<Rightarrow> clocks) \<Rightarrow> (nat \<Rightarrow> clocks) \<Rightarrow> partition_id list \<Rightarrow> txn_context \<Rightarrow> lnd_engine \<Rightarrow>
   (lnd_result \<times> txn_context \<times> lnd_engine) option" where
  "SameTemporalRangeCommit hw vks cks participants ctx0 en00 =
    (let en0 = en00\<lparr>en_same_range_commits := en_same_range_commits en00 + 1\<rparr>; txn = ctx_txn_id ctx0 in
     if participants = [] then Some (LndError InvalidArgument, ctx0, en0)
     else let (s1, en1) = sm_call (\<lambda>io. CreateTransaction io txn participants) en0 in
       if s1 \<noteq> OK then Some (LndError s1, ctx0, en1)
       else let en2 = sm_set_state txn kTxnPreparing en1;
                (ok, validated, ctx3, en3) = validate_all vks participants ctx0 en2
            in if \<not> ok then
                 (let (ctx4, en4) = abort_all validated ctx3 en3
                  in Some (LndError IOError, ctx4, sm_set_state txn kTxnAborted en4))
               else case commit_all hw cks participants (LndOk (ctx_commit_ts ctx3)) True ctx3 (sm_set_state txn kTxnCommitting en3) of
                   None \<Rightarrow> None
                 | Some (overall, all, ctx5, en5) \<Rightarrow>
                     Some (overall, ctx5, sm_set_state txn (if all then kTxnCommitted else kTxnCommitting) en5))"

subsection \<open>Two-phase commit with storage clients\<close>

text \<open>What a client answers: a vote or an error to \<open>Prepare\<close>, a status to \<open>Commit\<close> and \<open>Abort\<close>.\<close>

record storage_client =
  cl_prepare :: "Status + bool"
  cl_commit :: Status
  cl_abort :: Status

datatype message = MPrepare | MCommit | MAbort

text \<open>The messages sent, each with the state manager at that moment.\<close>

type_synonym trace = "(partition_id \<times> message \<times> state_manager option) list"

definition sm_txn_state :: "txn_id \<Rightarrow> state_manager option \<Rightarrow> u32 option" where
  "sm_txn_state txn sm = Option.bind sm (\<lambda>s. map_option tr_state (GetTransaction txn s))"

abbreviation txn_state :: "txn_id \<Rightarrow> lnd_engine \<Rightarrow> u32 option" where
  "txn_state txn en \<equiv> sm_txn_state txn (en_sm en)"

definition vote_yes :: "storage_client \<Rightarrow> bool" where
  "vote_yes c \<longleftrightarrow> cl_prepare c = Inr True"

definition prepare_error :: "(Status \<Rightarrow> u8 list) \<Rightarrow> storage_client \<Rightarrow> u8 list option" where
  "prepare_error describe c = (case cl_prepare c of Inl s \<Rightarrow> Some (describe s) | Inr _ \<Rightarrow> None)"

fun prepare_loop ::
  "(Status \<Rightarrow> u8 list) \<Rightarrow> (partition_id \<Rightarrow> storage_client option) \<Rightarrow> txn_id \<Rightarrow> partition_id list \<Rightarrow> lnd_engine \<Rightarrow>
   bool \<times> trace \<times> lnd_engine" where
  "prepare_loop describe clients txn [] en = (True, [], en)"
| "prepare_loop describe clients txn (pid # pids) en =
    (case clients pid of
       None \<Rightarrow> (let (_, tr, en') = prepare_loop describe clients txn pids en in (False, tr, en'))
     | Some c \<Rightarrow>
         (let en1 = snd (sm_call (\<lambda>io. UpdateParticipantState io txn pid (if vote_yes c then kPartPrepared else kPartAborted)
                           (prepare_error describe c)) en);
              (ok, tr, en2) = prepare_loop describe clients txn pids en1
          in (vote_yes c \<and> ok, (pid, MPrepare, en_sm en) # tr, en2)))"

definition abort_messages :: "(partition_id \<Rightarrow> storage_client option) \<Rightarrow> txn_id \<Rightarrow> partition_id list \<Rightarrow> lnd_engine \<Rightarrow> trace" where
  "abort_messages clients txn pids en =
     map (\<lambda>pid. (pid, MAbort, en_sm en)) (filter (\<lambda>pid. clients pid \<noteq> None) pids)"

fun commit_loop ::
  "(Status \<Rightarrow> u8 list) \<Rightarrow> (partition_id \<Rightarrow> storage_client option) \<Rightarrow> txn_id \<Rightarrow> partition_id list \<Rightarrow> lnd_engine \<Rightarrow>
   bool \<times> trace \<times> lnd_engine" where
  "commit_loop describe clients txn [] en = (True, [], en)"
| "commit_loop describe clients txn (pid # pids) en =
    (case clients pid of
       None \<Rightarrow> (let (_, tr, en') = commit_loop describe clients txn pids en in (False, tr, en'))
     | Some c \<Rightarrow>
         (let en1 = snd (sm_call (\<lambda>io. UpdateParticipantState io txn pid (if cl_commit c = OK then kPartCommitted else kPartFailed)
                           (if cl_commit c = OK then None else Some (describe (cl_commit c)))) en);
              (ok, tr, en2) = commit_loop describe clients txn pids en1
          in (cl_commit c = OK \<and> ok, (pid, MCommit, en_sm en) # tr, en2)))"

definition FullTwoPhaseCommit ::
  "(Status \<Rightarrow> u8 list) \<Rightarrow> (partition_id \<Rightarrow> storage_client option) \<Rightarrow> clocks \<Rightarrow> partition_id list \<Rightarrow> txn_context \<Rightarrow> lnd_engine \<Rightarrow>
   lnd_result \<times> trace \<times> lnd_engine" where
  "FullTwoPhaseCommit describe clients ck participants ctx en00 =
    (if participants = [] then (LndError InvalidArgument, [], en00)
     else let en0 = en00\<lparr>en_full_commits := en_full_commits en00 + 1\<rparr>; txn = ctx_txn_id ctx;
              (s1, en1) = sm_call (\<lambda>io. CreateTransaction io txn participants) en0
          in if s1 \<noteq> OK then (LndError s1, [], en1)
             else let (ok, prepares, en3) = prepare_loop describe clients txn participants (sm_set_state txn kTxnPreparing en1);
                      en4 = sm_set_state txn (if ok then kTxnPrepared else kTxnAborting) en3
                  in if \<not> ok then
                       (LndError IOError, prepares @ abort_messages clients txn participants en4, sm_set_state txn kTxnAborting en4)
                     else let (all, commits, en6) = commit_loop describe clients txn participants (sm_set_state txn kTxnCommitting en4)
                          in (if all then LndOk (ck_commit ck) else LndError IOError, prepares @ commits,
                              sm_set_state txn (if all then kTxnCommitted else kTxnCommitting) en6))"

subsection \<open>Routing\<close>

text \<open>The loops over the read and the write set keep the first window and compare the others with it.\<close>

fun same_window :: "temporal_window option \<Rightarrow> temporal_window list \<Rightarrow> temporal_window option option" where
  "same_window common [] = Some common"
| "same_window None (w # ws) = same_window (Some w) ws"
| "same_window (Some c) (w # ws) =
     (if tw_start w \<noteq> tw_start c \<or> tw_end w \<noteq> tw_end c then None else same_window (Some c) ws)"

definition ClassifyTransaction :: "txn_context \<Rightarrow> TxnType" where
  "ClassifyTransaction ctx =
    (if length (ctx_participants ctx) = 1 then kSinglePartition
     else if ctx_read_set ctx = [] \<and> ctx_write_set ctx = [] then kCrossTemporalRange
     else case same_window None (map rsi_window (ctx_read_set ctx)) of
         None \<Rightarrow> kCrossTemporalRange
       | Some common \<Rightarrow>
           (case same_window common (map wsi_window (ctx_write_set ctx)) of
              None \<Rightarrow> kCrossTemporalRange
            | Some _ \<Rightarrow> kSameTemporalRange))"

text \<open>Each transaction comes with the clock readings and the answers of the clients during its commit.\<close>

fun BatchCommit ::
  "crc_hw option \<Rightarrow> (Status \<Rightarrow> u8 list) \<Rightarrow> (clocks \<times> (partition_id \<Rightarrow> storage_client option) \<times> txn_context) list \<Rightarrow> lnd_engine \<Rightarrow>
   (lnd_result list \<times> lnd_engine) option" where
  "BatchCommit hw describe [] en = Some ([], en)"
| "BatchCommit hw describe ((ck, clients, ctx) # items) en =
    (case (if IsSinglePartition ctx then map_option (\<lambda>(r, _, en'). (r, en')) (SinglePartitionCommit hw ck ctx en)
           else let (r, _, en') = FullTwoPhaseCommit describe clients ck (ctx_participants ctx) ctx en in Some (r, en')) of
       None \<Rightarrow> None
     | Some (r, en1) \<Rightarrow> map_option (\<lambda>(rs, en2). (r # rs, en2)) (BatchCommit hw describe items en1))"

datatype ZoneID = kTopology | kTemporal | kMetadata | kProperty

definition GetZoneForKey :: "cedar_key \<Rightarrow> ZoneID" where
  "GetZoneForKey key =
    (let col_id = column_id key
     in if col_id < 10 then kTopology else if col_id < 20 then kTemporal else if col_id < 30 then kMetadata else kProperty)"

text \<open>The ordered map from zones to keys, as the function that the source builds by appending.\<close>

fun GroupByZone :: "cedar_key list \<Rightarrow> (ZoneID \<Rightarrow> cedar_key list) \<Rightarrow> ZoneID \<Rightarrow> cedar_key list" where
  "GroupByZone [] m = m"
| "GroupByZone (key # keys) m = GroupByZone keys (m(GetZoneForKey key := m (GetZoneForKey key) @ [key]))"

subsection \<open>One partition\<close>

lemma Validate_ctx: "lnd_Validate ck ctx sh = (s, ctx', sh') \<Longrightarrow> ctx' = ctx\<lparr>ctx_state := kPreparing\<rparr>"
  by (auto simp: lnd_Validate_def Let_def split: option.splits prod.splits if_splits)

lemma Commit_success:
  assumes "lnd_Commit hw ck ctx lc sh = Some (result, ctx', lc', sh')" "lr_success result"
  obtains sh1 lc1 lc2 where "lnd_Validate ck ctx sh = (OK, ctx\<lparr>ctx_state := kPreparing\<rparr>, sh1)"
    "write_wal hw ck (ctx\<lparr>ctx_commit_ts := ck_commit ck, ctx_state := kCommitting\<rparr>) lc = Some (OK, lc1)"
    "write_memtable ck (ctx\<lparr>ctx_commit_ts := ck_commit ck, ctx_state := kCommitting\<rparr>) lc1 = (OK, lc2)"
    "result = LndOk (ck_commit ck)" "lc' = lc2\<lparr>lc_committed := lc_committed lc2 + 1\<rparr>"
    "sh' = clear_registration (ctx_txn_id ctx) sh1"
proof -
  obtain s1 ctx1 sh1 where v: "lnd_Validate ck ctx sh = (s1, ctx1, sh1)" by (metis prod_cases3)
  note c = Validate_ctx [OF v]
  have s1: "s1 = OK" using assms v by (auto simp: lnd_Commit_def lnd_Abort_def LndError_def split: if_splits)
  let ?ctx = "ctx\<lparr>ctx_commit_ts := ck_commit ck, ctx_state := kCommitting\<rparr>"
  have ctx: "ctx1\<lparr>ctx_commit_ts := ck_commit ck, ctx_state := kCommitting\<rparr> = ?ctx" by (simp add: c)
  obtain s2 lc1 where w: "write_wal hw ck ?ctx lc = Some (s2, lc1)"
    using assms v s1 by (cases "write_wal hw ck ?ctx lc") (auto simp: lnd_Commit_def Let_def c)
  have s2: "s2 = OK" using assms v s1 w by (auto simp: lnd_Commit_def lnd_Abort_def LndError_def Let_def c split: if_splits)
  obtain s3 lc2 where m: "write_memtable ck ?ctx lc1 = (s3, lc2)" by (metis prod.exhaust)
  have s3: "s3 = OK" using assms v s1 w s2 m by (auto simp: lnd_Commit_def lnd_Abort_def LndError_def Let_def c split: if_splits)
  show thesis
    using assms v s1 w s2 m s3 that [of sh1 lc1 lc2] by (simp add: lnd_Commit_def Let_def c)
qed

lemma write_wal_memtable: "write_wal hw ck ctx lc = Some (s, lc') \<Longrightarrow> lc_memtable lc' = lc_memtable lc"
  by (auto simp: write_wal_def Let_def split: option.splits prod.splits if_splits)

lemma put_all_run:
  "mt_skiplist m = vsl_run hs \<Longrightarrow> \<exists>m'. put_all ks ts m = (OK, m') \<and>
     mt_skiplist m' = vsl_run (hs @ map (\<lambda>k. (k, Descriptor_default, ts)) ks)"
proof (induction ks arbitrary: m hs)
  case (Cons k ks)
  obtain m1 where m1: "mt_Put k Descriptor_default ts m = (OK, m1)" "mt_skiplist m1 = vsl_run (hs @ [(k, Descriptor_default, ts)])"
    using Cons.prems by (simp add: mt_Put_def vsl_run_snoc split_beta)
  from Cons.IH [OF m1(2)] m1(1) show ?case by simp
qed simp

text \<open>C26. A successful commit deletes the keys it writes: the write set carries no values, and when a written key
  is not older than the versions in the memtable of the partition, the memtable answers the latest
  read of it with a tombstone after the commit.\<close>

theorem lnd_commit_writes_tombstones:
  assumes "lc_memtable lc = Some m" "mt_skiplist m = vsl_run hs"
    "lnd_Commit hw ck ctx lc sh = Some (result, ctx', lc', sh')" "lr_success result"
    "item \<in> set (ctx_write_set ctx)" "k = wsi_key item"
    "\<forall>(k', d, x) \<in> set hs. timestamp_of k' \<le> timestamp_of k"
  shows "\<exists>m' d. lc_memtable lc' = Some m' \<and> IsTombstone_d d \<and>
    vsl_GetLatest_target (entity_id k) (entity_type_f k) (column_id k) (target_id k) (mt_skiplist m') = Some d"
proof -
  let ?ctx = "ctx\<lparr>ctx_commit_ts := ck_commit ck, ctx_state := kCommitting\<rparr>"
  let ?P = "key_match (entity_id k) (entity_type_f k) (column_id k) (target_id k)"
  obtain lc1 lc2 where w: "write_wal hw ck ?ctx lc = Some (OK, lc1)" and m: "write_memtable ck ?ctx lc1 = (OK, lc2)"
    and lc': "lc' = lc2\<lparr>lc_committed := lc_committed lc2 + 1\<rparr>"
    using Commit_success [OF assms(3,4)] by metis
  obtain m' where put: "put_all (map wsi_key (ctx_write_set ctx)) (ck_commit ck) m = (OK, m')"
    and run: "mt_skiplist m' = vsl_run (hs @ map (\<lambda>k. (k, Descriptor_default, ck_commit ck)) (map wsi_key (ctx_write_set ctx)))"
    using put_all_run [OF assms(2)] by blast
  have "lc_memtable lc' = Some m'"
    using m put write_wal_memtable [OF w] assms(1) by (auto simp: lc' write_memtable_def)
  moreover have "?P (LFNode_new k Descriptor_default 0 (ck_commit ck))" by (simp add: key_match_def LFNode_new_def)
  then obtain t where "newest_put ?P (hs @ map (\<lambda>k. (k, Descriptor_default, ck_commit ck)) (map wsi_key (ctx_write_set ctx)))
      = Some (t, Descriptor_default)"
    using newest_put_tail [of hs ?P k "map wsi_key (ctx_write_set ctx)"] assms(5,6,7) by fastforce
  moreover have "IsTombstone_d Descriptor_default"
    by (simp add: IsTombstone_d_def Descriptor_default_def GetKind_def SetKind_def)
  ultimately show ?thesis by (simp add: run GetLatest_run)
qed

subsection \<open>Isolation\<close>

lemma Validate_registers:
  assumes "lnd_Validate ck ctx sh = (OK, ctx', sh')" "sh_twcd sh = Some e"
  defines "e1 \<equiv> (if ctx_write_set ctx \<noteq> [] then snd (RegisterWriteSet (ctx_txn_id ctx) (map wsi_key (ctx_write_set ctx)) e) else e)"
  shows "\<not> has_conflict (fst (CheckConflict (ctx_txn_id ctx) (ctx_window ctx) (map rsi_key (ctx_read_set ctx))
      (map wsi_key (ctx_write_set ctx)) (ck_latency ck) e1))"
  using assms by (auto simp: lnd_Validate_def Let_def split: prod.splits if_splits)

lemma no_conflict_safe:
  assumes "refines e r" "\<not> has_conflict (fst (CheckConflict t w rs ws lat e))"
    "u \<noteq> t" "r u = Some (v, K)" "tw_end v \<noteq> 0" "Overlaps v w"
  shows "\<not> wrote_some r u (rs @ ws)"
  using assms refines_query [OF assms(1,4,5,6)] refinesD(5) [OF assms(1)]
  by (fastforce simp: CheckConflict_has_conflict wrote_some_def list_ex_iff)

text \<open>C8. Committed transactions are isolated: when the commit of a partition succeeds, no other transaction that is
  registered with the conflict detection engine, with a bounded window overlapping that of the
  committed one, has announced a write of a key which the committed one reads or writes.\<close>

theorem lnd_commit_isolated:
  assumes "sh_twcd sh = Some (twcd_run ops)" "lnd_Commit hw ck ctx lc sh = Some (result, ctx', lc', sh')" "lr_success result"
    "u \<noteq> ctx_txn_id ctx" "registry_run ops u = Some (v, K)" "tw_end v \<noteq> 0" "Overlaps v (ctx_window ctx)"
  shows "\<not> wrote_some (registry_run ops) u (map rsi_key (ctx_read_set ctx) @ map wsi_key (ctx_write_set ctx))"
proof -
  obtain sh1 where "lnd_Validate ck ctx sh = (OK, ctx\<lparr>ctx_state := kPreparing\<rparr>, sh1)"
    using Commit_success [OF assms(2,3)] by metis
  note safe = Validate_registers [OF this assms(1)]
  let ?ws = "map wsi_key (ctx_write_set ctx)"
  let ?e = "if ctx_write_set ctx \<noteq> [] then snd (RegisterWriteSet (ctx_txn_id ctx) ?ws (twcd_run ops)) else twcd_run ops"
  let ?r = "if ctx_write_set ctx \<noteq> [] then registry_step (OWrites (ctx_txn_id ctx) ?ws) (registry_run ops) else registry_run ops"
  have "refines ?e ?r" using refines_run refines_Writes [OF refines_run] by simp
  moreover have u: "?r u = registry_run ops u" using assms(4) by (simp split: option.split prod.split)
  ultimately show ?thesis
    using no_conflict_safe [OF _ safe assms(4) _ assms(6,7)] assms(5) by (simp add: wrote_some_def)
qed

subsection \<open>The path for one temporal window\<close>

lemma commit_all_failed:
  "commit_all hw cks pids overall all ctx en = Some (result, all', ctx', en') \<Longrightarrow> \<not> lr_success overall \<Longrightarrow> \<not> lr_success result"
  by (induction pids arbitrary: cks overall all ctx en) (auto split: option.splits if_splits)

lemma registered_cleared:
  "sh_twcd (clear_registration txn sh) = Some e \<Longrightarrow> active_txns e txn = None"
  by (auto simp: clear_registration_def UnregisterWindow_def UnregisterWriteSet_def Let_def split: option.splits)

text \<open>The transaction has a write set, and the conflict detection engine does not know it.\<close>

definition unregistered :: "txn_context \<Rightarrow> lnd_shared \<Rightarrow> bool" where
  "unregistered ctx sh \<longleftrightarrow> ctx_write_set ctx \<noteq> [] \<and> (\<exists>e. sh_twcd sh = Some e \<and> active_txns e (ctx_txn_id ctx) = None)"

lemma Commit_unregistered:
  "unregistered ctx sh \<Longrightarrow> \<exists>st. lnd_Commit hw ck ctx lc sh = Some (LndError NotFound, st)"
  by (auto simp: unregistered_def lnd_Commit_def lnd_Validate_def RegisterWriteSet_def lnd_Abort_def)

lemma Validate_keeps:
  assumes "lnd_Validate ck ctx sh = (s, ctx', sh')"
  shows "ctx_txn_id ctx' = ctx_txn_id ctx" "ctx_write_set ctx' = ctx_write_set ctx" "sh_twcd sh' = None \<longleftrightarrow> sh_twcd sh = None"
  using assms by (auto simp: lnd_Validate_def Let_def split: option.splits prod.splits if_splits)

lemma Commit_unregisters:
  assumes "lnd_Commit hw ck ctx lc sh = Some (result, ctx', lc', sh')" "sh_twcd sh \<noteq> None" "ctx_write_set ctx \<noteq> []"
  shows "unregistered ctx' sh'"
proof -
  obtain s1 ctx1 sh1 where v: "lnd_Validate ck ctx sh = (s1, ctx1, sh1)" by (metis prod_cases3)
  note keeps = Validate_keeps [OF v]
  have "ctx_txn_id ctx' = ctx_txn_id ctx" "ctx_write_set ctx' = ctx_write_set ctx" "sh' = clear_registration (ctx_txn_id ctx) sh1"
    using assms(1) v keeps
    by (auto simp: lnd_Commit_def lnd_Abort_def Let_def split: if_splits option.splits prod.splits)
  moreover obtain e where "sh_twcd (clear_registration (ctx_txn_id ctx) sh1) = Some e"
    using keeps(3) assms(2) by (auto simp: clear_registration_def)
  ultimately show ?thesis using assms(3) registered_cleared by (auto simp: unregistered_def)
qed

lemma validate_all_keeps:
  "validate_all cks pids ctx en = (ok, pids', ctx', en') \<Longrightarrow>
     ctx_write_set ctx' = ctx_write_set ctx \<and> (sh_twcd (en_shared en') = None \<longleftrightarrow> sh_twcd (en_shared en) = None) \<and>
     en_coordinators en' = en_coordinators en"
  by (induction cks pids ctx en arbitrary: ok pids' ctx' en' rule: validate_all.induct)
    (auto simp: Let_def Validate_keeps split: option.splits prod.splits if_splits dest: Validate_keeps)

lemma sm_set_state_keeps [simp]:
  "en_shared (sm_set_state txn st en) = en_shared en" "en_coordinators (sm_set_state txn st en) = en_coordinators en"
  by (simp_all add: sm_set_state_def sm_call_def Let_def split: option.split prod.split)

lemma commit_all_two:
  assumes "commit_all hw cks (p # q # pids) overall all ctx en = Some (result, all', ctx', en')"
    "GetCoordinator p en \<noteq> None" "GetCoordinator q en \<noteq> None" "sh_twcd (en_shared en) \<noteq> None" "ctx_write_set ctx \<noteq> []"
  shows "\<not> lr_success result"
proof -
  obtain lc where lc: "GetCoordinator p en = Some lc" using assms(2) by blast
  obtain r ctx1 lc1 sh1 where c1: "lnd_Commit hw (cks 0) ctx lc (en_shared en) = Some (r, ctx1, lc1, sh1)"
    using assms(1) lc by (cases "lnd_Commit hw (cks 0) ctx lc (en_shared en)") auto
  let ?en = "put_coordinator p lc1 sh1 en"
  obtain lc' where lc': "GetCoordinator q ?en = Some lc'"
    using assms(3) by (cases "q = p") (auto simp: GetCoordinator_def put_coordinator_def update_conv')
  have "unregistered ctx1 (en_shared ?en)"
    using Commit_unregisters [OF c1 assms(4,5)] by (simp add: put_coordinator_def)
  from Commit_unregistered [OF this] obtain ctx2 lc2 sh2
    where c2: "lnd_Commit hw (cks (Suc 0)) ctx1 lc' (en_shared ?en) = Some (LndError NotFound, ctx2, lc2, sh2)"
    by (metis prod_cases3)
  have "\<not> lr_success (LndError NotFound)" by (simp add: LndError_def)
  then show ?thesis
    using assms(1) lc c1 lc' c2 commit_all_failed by (fastforce simp: put_coordinator_def)
qed

text \<open>C25. The commit path for several partitions with one temporal window cannot commit a write: with conflict
  detection on, at least two participants known to the engine and a non-empty write set, a call
  that returns reports failure, because the commit of the first participant removes the
  registration which the validation of the next one needs. What the first participant has
  written stays.\<close>

theorem lnd_same_range_never_commits:
  assumes "SameTemporalRangeCommit hw vks cks (p # q # pids) ctx en = Some (result, ctx', en')"
    "sh_twcd (en_shared en) \<noteq> None" "ctx_write_set ctx \<noteq> []" "GetCoordinator p en \<noteq> None" "GetCoordinator q en \<noteq> None"
  shows "\<not> lr_success result"
proof -
  let ?txn = "ctx_txn_id ctx" and ?P = "p # q # pids"
  obtain s1 en1 where create: "sm_call (\<lambda>io. CreateTransaction io ?txn ?P)
      (en\<lparr>en_same_range_commits := en_same_range_commits en + 1\<rparr>) = (s1, en1)" by (metis prod.exhaust)
  have en1: "en_shared en1 = en_shared en" "en_coordinators en1 = en_coordinators en"
    using create by (auto simp: sm_call_def split: option.splits prod.splits list.splits)
  show ?thesis
  proof (cases "s1 = OK")
    case True
    obtain ok validated ctx3 en3 where v: "validate_all vks ?P ctx (sm_set_state ?txn kTxnPreparing en1) = (ok, validated, ctx3, en3)"
      by (metis prod_cases4)
    note keeps = validate_all_keeps [OF v]
    show ?thesis
    proof (cases ok)
      case ok: True
      obtain overall all ctx5 en5 where
        c: "commit_all hw cks ?P (LndOk (ctx_commit_ts ctx3)) True ctx3 (sm_set_state ?txn kTxnCommitting en3) = Some (overall, all, ctx5, en5)"
        and "result = overall"
        using assms(1) create True v ok by (auto simp: SameTemporalRangeCommit_def Let_def split: option.splits)
      then show ?thesis
        using commit_all_two [OF c] keeps en1 assms(2-5) by (simp add: GetCoordinator_def)
    next
      case False
      then show ?thesis
        using assms(1) create True v by (auto simp: SameTemporalRangeCommit_def LndError_def split: prod.splits)
    qed
  qed (use assms(1) create in \<open>auto simp: SameTemporalRangeCommit_def LndError_def\<close>)
qed

subsection \<open>Concrete commits\<close>

text \<open>Transaction 7 writes one key in a window from 10 to 20.\<close>

definition sample_writer :: txn_context where
  "sample_writer = TxnContext_default\<lparr>ctx_txn_id := 7, ctx_window := mk_window 10 20,
     ctx_write_set := [\<lparr>wsi_key = CedarKey_default, wsi_window = mk_window 10 20, wsi_version = 0\<rparr>]\<rparr>"

definition sample_clocks :: clocks where
  "sample_clocks = \<lparr>ck_start = 1, ck_register = 1, ck_latency = 0, ck_commit = 50, ck_wal = 0\<rparr>"

definition sample_shared :: "twcd_op list \<Rightarrow> lnd_shared" where
  "sample_shared ops = \<lparr>sh_twcd = Some (twcd_run ops), sh_txn_counter = 1000, sh_inline_counter = 1000\<rparr>"

lemmas lnd_eval = lnd_Commit_def lnd_Validate_def lnd_Abort_def sample_writer_def sample_clocks_def sample_shared_def
  TxnContext_default_def write_wal_def write_memtable_def LocalCoordinator_new_def CheckConflict_def NoConflict_def
  DetectReadWriteConflicts_def DetectWriteWriteConflicts_def key_conflicts_def clear_registration_def Let_def

lemma lnd_commit_isolated_witness:
  "\<not> wrote_some (registry_run [ORegister 7 (mk_window 10 20) 0, ORegister 8 (mk_window 15 30) 0,
     OWrites 8 [CedarKey_default\<lparr>entity_id_f := 3\<rparr>]]) 8 [CedarKey_default]"
proof -
  let ?ops = "[ORegister 7 (mk_window 10 20) 0, ORegister 8 (mk_window 15 30) 0, OWrites 8 [CedarKey_default\<lparr>entity_id_f := 3\<rparr>]]"
  let ?lc = "LocalCoordinator_new 1 None None"
  have "\<exists>ctx' lc' sh'. lnd_Commit None sample_clocks sample_writer ?lc (sample_shared ?ops) = Some (LndOk 50, ctx', lc', sh')"
    by (simp add: lnd_eval twcd_eval key_norm_def CedarKey_default_def)
  then obtain ctx' lc' sh' where
    run: "lnd_Commit None sample_clocks sample_writer ?lc (sample_shared ?ops) = Some (LndOk 50, ctx', lc', sh')" by blast
  have "registry_run ?ops 8 = Some (mk_window 15 30, {key_norm (CedarKey_default\<lparr>entity_id_f := 3\<rparr>)})"
    by (simp add: twcd_eval)
  from lnd_commit_isolated [OF _ run _ _ this] show ?thesis
    by (simp add: sample_shared_def LndOk_def sample_writer_def TxnContext_default_def Overlaps_def IsEmpty_def)
qed

lemma lnd_commit_writes_tombstones_witness:
  "\<exists>ctx' lc' sh' m' d. lnd_Commit None sample_clocks sample_writer (LocalCoordinator_new 1 (Some VSLMemTable_new) None)
       \<lparr>sh_twcd = None, sh_txn_counter = 1000, sh_inline_counter = 1000\<rparr> = Some (LndOk 50, ctx', lc', sh') \<and>
     lc_memtable lc' = Some m' \<and> IsTombstone_d d \<and>
     vsl_GetLatest_target (entity_id CedarKey_default) (entity_type_f CedarKey_default) (column_id CedarKey_default) (target_id CedarKey_default) (mt_skiplist m') = Some d"
proof -
  let ?lc = "LocalCoordinator_new 1 (Some VSLMemTable_new) None"
  let ?sh = "\<lparr>sh_twcd = None, sh_txn_counter = 1000, sh_inline_counter = 1000\<rparr>"
  have new: "mt_skiplist VSLMemTable_new = vsl_run []" by (simp add: VSLMemTable_new_def vsl_run_def)
  obtain m' where "put_all [CedarKey_default] 50 VSLMemTable_new = (OK, m')"
    using put_all_run [OF new] by blast
  then obtain ctx' lc' sh' where
    run: "lnd_Commit None sample_clocks sample_writer ?lc ?sh = Some (LndOk 50, ctx', lc', sh')"
    by (simp add: lnd_eval del: put_all.simps)
  from lnd_commit_writes_tombstones [OF _ new run, where k = CedarKey_default] run show ?thesis
    by (simp add: LocalCoordinator_new_def LndOk_def sample_writer_def)
qed

lemma lnd_same_range_never_commits_witness:
  "\<exists>result ctx' en' a b. SameTemporalRangeCommit None (\<lambda>_. sample_clocks) (\<lambda>_. sample_clocks) [1, 2] sample_writer
       (LndOccEngine_new True\<lparr>en_shared := sample_shared [ORegister 7 (mk_window 10 20) 0],
          en_coordinators := [(1, LocalCoordinator_new 1 None None), (2, LocalCoordinator_new 2 None None)]\<rparr>) =
       Some (result, ctx', en') \<and> \<not> lr_success result \<and>
     GetCoordinator 1 en' = Some a \<and> lc_committed a = 1 \<and> GetCoordinator 2 en' = Some b \<and> lc_aborted b = 1"
proof -
  let ?en = "LndOccEngine_new True\<lparr>en_shared := sample_shared [ORegister 7 (mk_window 10 20) 0],
          en_coordinators := [(1, LocalCoordinator_new 1 None None), (2, LocalCoordinator_new 2 None None)]\<rparr>"
  have "\<exists>result ctx' en' a b. SameTemporalRangeCommit None (\<lambda>_. sample_clocks) (\<lambda>_. sample_clocks) [1, 2] sample_writer ?en =
       Some (result, ctx', en') \<and> GetCoordinator 1 en' = Some a \<and> lc_committed a = 1 \<and> GetCoordinator 2 en' = Some b \<and> lc_aborted b = 1"
    by (simp add: SameTemporalRangeCommit_def lnd_eval twcd_eval LndOccEngine_new_def sm_call_def sm_set_state_def
        GetCoordinator_def put_coordinator_def LndOk_def LndError_def)
  then obtain result ctx' en' a b where
    run: "SameTemporalRangeCommit None (\<lambda>_. sample_clocks) (\<lambda>_. sample_clocks) [1, 2] sample_writer ?en = Some (result, ctx', en')"
    and ab: "GetCoordinator 1 en' = Some a" "lc_committed a = 1" "GetCoordinator 2 en' = Some b" "lc_aborted b = 1"
    by blast
  have "\<not> lr_success result"
    using lnd_same_range_never_commits [OF run] by (simp add: sample_shared_def sample_writer_def GetCoordinator_def)
  with run ab show ?thesis by blast
qed

subsection \<open>The state manager during a commit\<close>

lemma PersistState_map [simp]: "sm_transactions (snd (PersistStateUnlocked io r s)) = sm_transactions s"
  by (simp add: PersistStateUnlocked_def Let_def split: prod.split)

lemma sm_call_Some:
  "en_sm en = Some sm \<Longrightarrow> \<exists>io ios. sm_call f en = (fst (f io sm), en\<lparr>en_sm := Some (snd (f io sm)), en_sm_io := ios\<rparr>)"
  unfolding sm_call_def
  by (rule exI [of _ "case en_sm_io en of [] \<Rightarrow> IoOk | x # _ \<Rightarrow> x"], rule exI [of _ "tl (en_sm_io en)"],
      cases "en_sm_io en") (simp_all add: split_beta)

lemma sm_call_None: "en_sm en = None \<Longrightarrow> sm_call f en = (OK, en)"
  by (simp add: sm_call_def)

lemma sm_call_None_iff [simp]: "en_sm (snd (sm_call f en)) = None \<longleftrightarrow> en_sm en = None"
  by (simp add: sm_call_def Let_def split: option.split prod.split)

lemma sm_set_state_None_iff [simp]: "en_sm (sm_set_state txn st en) = None \<longleftrightarrow> en_sm en = None"
  by (simp add: sm_set_state_def)

lemma UpdateState_txn:
  "GetTransaction txn (snd (UpdateState io txn st s)) = map_option (\<lambda>r. r\<lparr>tr_state := st\<rparr>) (GetTransaction txn s)"
  by (simp add: UpdateState_def GetTransaction_def Let_def split: option.split)

lemma UpdateParticipantState_txn:
  "map_option tr_state (GetTransaction txn (snd (UpdateParticipantState io txn pid st err s))) =
   map_option tr_state (GetTransaction txn s)"
  by (simp add: UpdateParticipantState_def GetTransaction_def Let_def split: option.split)

lemma txn_state_set: "txn_state txn (sm_set_state txn st en) = map_option (\<lambda>_. st) (txn_state txn en)"
proof (cases "en_sm en")
  case (Some sm)
  from sm_call_Some [OF this, of "\<lambda>io. UpdateState io txn st"] show ?thesis
    by (auto simp: sm_txn_state_def sm_set_state_def UpdateState_txn Some option.map_comp comp_def)
qed (simp add: sm_set_state_def sm_call_None sm_txn_state_def)

lemma txn_state_participant:
  "txn_state txn (snd (sm_call (\<lambda>io. UpdateParticipantState io txn pid st err) en)) = txn_state txn en"
proof (cases "en_sm en")
  case (Some sm)
  from sm_call_Some [OF this, of "\<lambda>io. UpdateParticipantState io txn pid st err"] show ?thesis
    by (auto simp: sm_txn_state_def UpdateParticipantState_txn Some)
qed (simp add: sm_call_None)

lemma txn_state_create:
  assumes "sm_call (\<lambda>io. CreateTransaction io txn pids) en = (OK, en1)"
  shows "txn_state txn en1 = (if en_sm en = None then None else Some kTxnActive)"
proof (cases "en_sm en")
  case (Some sm)
  from sm_call_Some [OF this, of "\<lambda>io. CreateTransaction io txn pids"] assms show ?thesis
    by (auto simp: sm_txn_state_def CreateTransaction_def GetTransaction_def new_record_def Let_def Some
        split: prod.splits if_splits)
qed (use assms in \<open>auto simp: sm_call_None sm_txn_state_def\<close>)

lemma prepare_loop_spec:
  "prepare_loop describe clients txn pids en = (ok, tr, en') \<Longrightarrow>
     (ok \<longleftrightarrow> (\<forall>pid \<in> set pids. \<exists>c. clients pid = Some c \<and> vote_yes c)) \<and>
     list_all (\<lambda>x. fst (snd x) = MPrepare) tr \<and> txn_state txn en' = txn_state txn en \<and> (en_sm en' = None \<longleftrightarrow> en_sm en = None)"
proof (induction pids arbitrary: en ok tr en')
  case (Cons pid pids)
  show ?case
  proof (cases "clients pid")
    case None
    then show ?thesis using Cons.prems Cons.IH [of en] by (auto split: prod.splits)
  next
    case (Some c)
    let ?en = "snd (sm_call (\<lambda>io. UpdateParticipantState io txn pid (if vote_yes c then kPartPrepared else kPartAborted)
                           (prepare_error describe c)) en)"
    obtain ok2 tr2 en2 where rest: "prepare_loop describe clients txn pids ?en = (ok2, tr2, en2)"
      by (metis prod_cases3)
    from Cons.IH [OF rest] Cons.prems show ?thesis
      by (simp add: Some rest txn_state_participant) auto
  qed
qed simp

lemma commit_loop_spec:
  "commit_loop describe clients txn pids en = (ok, tr, en') \<Longrightarrow>
     (ok \<longleftrightarrow> (\<forall>pid \<in> set pids. \<exists>c. clients pid = Some c \<and> cl_commit c = OK)) \<and>
     map fst tr = filter (\<lambda>pid. clients pid \<noteq> None) pids \<and>
     list_all (\<lambda>x. fst (snd x) = MCommit \<and> sm_txn_state txn (snd (snd x)) = txn_state txn en) tr \<and>
     txn_state txn en' = txn_state txn en \<and> (en_sm en' = None \<longleftrightarrow> en_sm en = None)"
proof (induction pids arbitrary: en ok tr en')
  case (Cons pid pids)
  show ?case
  proof (cases "clients pid")
    case None
    then show ?thesis using Cons.prems Cons.IH [of en] by (auto split: prod.splits)
  next
    case (Some c)
    let ?en = "snd (sm_call (\<lambda>io. UpdateParticipantState io txn pid (if cl_commit c = OK then kPartCommitted else kPartFailed)
                           (if cl_commit c = OK then None else Some (describe (cl_commit c)))) en)"
    obtain ok2 tr2 en2 where rest: "commit_loop describe clients txn pids ?en = (ok2, tr2, en2)"
      by (metis prod_cases3)
    from Cons.IH [OF rest] Cons.prems show ?thesis
      by (simp add: Some rest txn_state_participant) auto
  qed
qed simp

lemma commit_loop_sent:
  assumes "commit_loop describe clients txn pids en = (ok, tr, en')"
  shows "p \<in> set pids \<Longrightarrow> clients p \<noteq> None \<Longrightarrow> \<exists>sm. (p, MCommit, sm) \<in> set tr"
    "(p, m, sm) \<in> set tr \<Longrightarrow> m = MCommit \<and> sm_txn_state txn sm = txn_state txn en"
proof -
  note C = commit_loop_spec [OF assms]
  show sent: "(p, m, sm) \<in> set tr \<Longrightarrow> m = MCommit \<and> sm_txn_state txn sm = txn_state txn en" for p m sm
    using C by (auto simp: list_all_iff)
  assume "p \<in> set pids" "clients p \<noteq> None"
  then have "p \<in> set (map fst tr)" using C by simp
  then show "\<exists>sm. (p, MCommit, sm) \<in> set tr" using sent by fastforce
qed

text \<open>C9. Two-phase commit is safe. A commit message is sent only when every participant has a client and has voted
  to commit, and only after the state manager, if there is one, holds the decision; then every
  participant is sent one and none is told to abort. Success is reported only when every
  participant has acknowledged its commit, and the transaction is then recorded as committed.\<close>

theorem lnd_two_phase_commit_safe:
  assumes "FullTwoPhaseCommit describe clients ck participants ctx en = (result, tr, en')"
  shows "((pid, MCommit, sm) \<in> set tr \<longrightarrow>
        (\<forall>p \<in> set participants. \<exists>c. clients p = Some c \<and> vote_yes c) \<and>
        (en_sm en \<noteq> None \<longrightarrow> sm_txn_state (ctx_txn_id ctx) sm = Some kTxnCommitting) \<and>
        (\<forall>p \<in> set participants. \<exists>sm'. (p, MCommit, sm') \<in> set tr) \<and> (\<forall>p sm'. (p, MAbort, sm') \<notin> set tr)) \<and>
    (lr_success result \<longrightarrow>
        (\<forall>p \<in> set participants. \<exists>c. clients p = Some c \<and> vote_yes c \<and> cl_commit c = OK) \<and>
        (en_sm en \<noteq> None \<longrightarrow> txn_state (ctx_txn_id ctx) en' = Some kTxnCommitted))"
proof (cases "participants = []")
  case False
  let ?txn = "ctx_txn_id ctx"
  let ?en0 = "en\<lparr>en_full_commits := en_full_commits en + 1\<rparr>"
  obtain s1 en1 where create: "sm_call (\<lambda>io. CreateTransaction io ?txn participants) ?en0 = (s1, en1)"
    by (metis prod.exhaust)
  note D = FullTwoPhaseCommit_def False create
  show ?thesis
  proof (cases "s1 = OK")
    case True
    have active: "txn_state ?txn en1 = (if en_sm en = None then None else Some kTxnActive)"
      using txn_state_create [of ?txn participants ?en0 en1] create True by simp
    obtain ok prepares en3 where prep:
      "prepare_loop describe clients ?txn participants (sm_set_state ?txn kTxnPreparing en1) = (ok, prepares, en3)"
      by (metis prod_cases3)
    note P = prepare_loop_spec [OF prep]
    have no: "(p, MCommit, s) \<notin> set prepares" "(p, MAbort, s) \<notin> set prepares" for p s
      using P by (auto simp: list_all_iff)
    show ?thesis
    proof (cases ok)
      case ok: True
      let ?en5 = "sm_set_state ?txn kTxnCommitting (sm_set_state ?txn kTxnPrepared en3)"
      obtain all commits en6 where com: "commit_loop describe clients ?txn participants ?en5 = (all, commits, en6)"
        by (metis prod_cases3)
      note C = commit_loop_spec [OF com] and sent = commit_loop_sent [OF com]
      have st: "en_sm en \<noteq> None \<Longrightarrow> txn_state ?txn ?en5 = Some kTxnCommitting"
        using P active by (simp add: txn_state_set)
      have res: "result = (if all then LndOk (ck_commit ck) else LndError IOError)" "tr = prepares @ commits"
        "en' = sm_set_state ?txn (if all then kTxnCommitted else kTxnCommitting) en6"
        using assms D True prep ok com by (simp_all add: Let_def split: if_splits)
      have both: "\<forall>p \<in> set participants. \<exists>c. clients p = Some c \<and> vote_yes c \<and> cl_commit c = OK" if all
        using P C ok that by fastforce
      have yes: "\<forall>p \<in> set participants. \<exists>c. clients p = Some c \<and> vote_yes c" using P ok by simp
      then have "\<forall>p \<in> set participants. \<exists>sm'. (p, MCommit, sm') \<in> set tr" using sent(1) by (fastforce simp: res)
      moreover have "\<forall>p sm'. (p, MAbort, sm') \<notin> set tr" using no sent(2) by (fastforce simp: res)
      moreover have "sm_txn_state ?txn sm = Some kTxnCommitting" if "(pid, MCommit, sm) \<in> set tr" "en_sm en \<noteq> None"
        using that no sent(2) st by (fastforce simp: res)
      moreover have "en_sm en \<noteq> None \<Longrightarrow> txn_state ?txn en' = Some (if all then kTxnCommitted else kTxnCommitting)"
        using C st by (simp add: res txn_state_set)
      ultimately show ?thesis using yes both by (auto simp: res LndError_def LndOk_def)
    next
      case bad: False
      then have "result = LndError IOError" "tr = prepares @ abort_messages clients ?txn participants (sm_set_state ?txn kTxnAborting en3)"
        using assms D True prep by (simp_all add: Let_def)
      then show ?thesis using no by (auto simp: LndError_def abort_messages_def)
    qed
  qed (use assms D in \<open>auto simp: LndError_def\<close>)
qed (use assms in \<open>auto simp: FullTwoPhaseCommit_def LndError_def\<close>)

subsection \<open>Failing writes of the state log\<close>

text \<open>The next \<open>n\<close> writes of the state log fail; its content is \<open>f\<close>.\<close>

definition log_fails :: "nat \<Rightarrow> u8 list \<Rightarrow> lnd_engine \<Rightarrow> bool" where
  "log_fails n f en \<longleftrightarrow> (case en_sm en of None \<Rightarrow> False | Some sm \<Rightarrow> sm_file sm = f) \<and>
     n \<le> length (takeWhile (\<lambda>io. io = IoWriteError) (en_sm_io en))"

lemma PersistState_fails: "sm_file (snd (PersistStateUnlocked IoWriteError r s)) = sm_file s"
  by (simp add: PersistStateUnlocked_def TransactionWAL_Append_def Let_def)

lemma log_fails_call:
  assumes "log_fails (Suc n) f en" "\<And>sm. sm_file (snd (g IoWriteError sm)) = sm_file sm"
  shows "log_fails n f (snd (sm_call g en))"
proof -
  obtain sm where sm: "en_sm en = Some sm" "sm_file sm = f"
    using assms(1) by (auto simp: log_fails_def split: option.splits)
  from assms(1) obtain ios where "en_sm_io en = IoWriteError # ios"
    by (cases "en_sm_io en") (auto simp: log_fails_def split: if_splits)
  with assms sm show ?thesis by (simp add: log_fails_def sm_call_def split_beta)
qed

lemma log_fails_state: "log_fails (Suc n) f en \<Longrightarrow> log_fails n f (sm_set_state txn st en)"
  unfolding sm_set_state_def
  by (erule log_fails_call) (simp add: UpdateState_def Let_def PersistState_fails split: option.split)

lemma log_fails_participant:
  "log_fails (Suc n) f en \<Longrightarrow> log_fails n f (snd (sm_call (\<lambda>io. UpdateParticipantState io txn pid st err) en))"
  by (erule log_fails_call) (simp add: UpdateParticipantState_def Let_def PersistState_fails split: option.split)

lemma log_fails_prepare:
  "log_fails (length pids + n) f en \<Longrightarrow> \<forall>pid \<in> set pids. clients pid \<noteq> None \<Longrightarrow>
   log_fails n f (snd (snd (prepare_loop describe clients txn pids en)))"
  by (induction pids arbitrary: en) (auto simp: Let_def split_beta log_fails_participant)

lemma log_fails_commit:
  "log_fails (length pids + n) f en \<Longrightarrow> \<forall>pid \<in> set pids. clients pid \<noteq> None \<Longrightarrow>
   log_fails n f (snd (snd (commit_loop describe clients txn pids en)))"
  by (induction pids arbitrary: en) (auto simp: Let_def split_beta log_fails_participant)

lemma create_recovers:
  assumes "list_all sm_op_small ops" "GetTransaction txn (sm_run ops) = None" "length pids \<le> 2 ^ 20"
  shows "\<exists>sm. CreateTransaction IoOk txn pids (sm_run ops) = (OK, sm) \<and>
    GetTransaction txn (snd (SM_Initialize True (StateManager_new (sm_file sm)))) = Some (new_record txn pids)"
proof -
  let ?s = "sm_run ops" and ?r = "new_record txn pids"
  note small = new_record_small [OF assms(3), of txn]
  have id: "tr_txn_id ?r = txn" "?r\<lparr>tr_timeout_at := None\<rparr> = ?r" by (simp_all add: new_record_def)
  note P = sm_inv_persist [OF sm_inv_run [OF assms(1)] small]
  let ?sm = "?s\<lparr>sm_file := sm_file ?s @ wal_frame (Record_Serialize ?r), sm_transactions := omap_put txn ?r (sm_transactions ?s)\<rparr>"
  have "CreateTransaction IoOk txn pids ?s = (OK, ?sm)"
    using P(1) assms(2) by (simp add: CreateTransaction_def GetTransaction_def Let_def)
  moreover have "sm_inv ?sm" using P(2) by (simp add: id sm_update_swap)
  then have "RecoverFromWAL (sm_file ?sm @ []) [] = RecoverFromWAL [] (strip_timeouts (sm_transactions ?sm))"
    unfolding sm_inv_def by blast
  ultimately show ?thesis
    by (simp add: SM_Initialize_def StateManager_new_def GetTransaction_def strip_timeouts_put id)
qed

lemma two_phase_all_yes:
  assumes "participants \<noteq> []" "\<forall>p \<in> set participants. \<exists>c. clients p = Some c \<and> vote_yes c \<and> cl_commit c = OK"
    "sm_call (\<lambda>io. CreateTransaction io (ctx_txn_id ctx) participants) (en\<lparr>en_full_commits := en_full_commits en + 1\<rparr>) = (OK, en1)"
  obtains prepares en3 commits en6 where
    "prepare_loop describe clients (ctx_txn_id ctx) participants (sm_set_state (ctx_txn_id ctx) kTxnPreparing en1) = (True, prepares, en3)"
    "commit_loop describe clients (ctx_txn_id ctx) participants
       (sm_set_state (ctx_txn_id ctx) kTxnCommitting (sm_set_state (ctx_txn_id ctx) kTxnPrepared en3)) = (True, commits, en6)"
    "FullTwoPhaseCommit describe clients ck participants ctx en =
       (LndOk (ck_commit ck), prepares @ commits, sm_set_state (ctx_txn_id ctx) kTxnCommitted en6)"
proof -
  let ?txn = "ctx_txn_id ctx"
  obtain ok prepares en3 where prep:
    "prepare_loop describe clients ?txn participants (sm_set_state ?txn kTxnPreparing en1) = (ok, prepares, en3)"
    by (metis prod_cases3)
  obtain all commits en6 where com: "commit_loop describe clients ?txn participants
      (sm_set_state ?txn kTxnCommitting (sm_set_state ?txn kTxnPrepared en3)) = (all, commits, en6)"
    by (metis prod_cases3)
  have "ok" "all" using prepare_loop_spec [OF prep] commit_loop_spec [OF com] assms(2) by blast+
  with prep com assms(1,3) show thesis
    by (intro that [of prepares en3 commits en6]) (simp_all add: FullTwoPhaseCommit_def Let_def)
qed

text \<open>When every write of the state log after the creation of the transaction fails, the commit messages are sent
  and success is reported all the same; the log left behind still holds the transaction as it was created.\<close>

lemma commit_decision_not_durable:
  assumes "list_all sm_op_small ops" "en_sm en = Some (sm_run ops)" "GetTransaction (ctx_txn_id ctx) (sm_run ops) = None"
    "participants \<noteq> []" "length participants \<le> 2 ^ 20"
    "\<forall>p \<in> set participants. \<exists>c. clients p = Some c \<and> vote_yes c \<and> cl_commit c = OK"
    "en_sm_io en = IoOk # replicate (2 * length participants + 4) IoWriteError"
  shows "\<exists>tr en' sm'. FullTwoPhaseCommit describe clients ck participants ctx en = (LndOk (ck_commit ck), tr, en') \<and>
    (\<forall>p \<in> set participants. \<exists>sm. (p, MCommit, sm) \<in> set tr) \<and> en_sm en' = Some sm' \<and>
    GetTransaction (ctx_txn_id ctx) (snd (SM_Initialize True (StateManager_new (sm_file sm')))) =
      Some (new_record (ctx_txn_id ctx) participants)"
proof -
  let ?txn = "ctx_txn_id ctx" and ?n = "length participants"
  let ?en0 = "en\<lparr>en_full_commits := en_full_commits en + 1\<rparr>"
  obtain sm where sm: "CreateTransaction IoOk ?txn participants (sm_run ops) = (OK, sm)"
    and rec: "GetTransaction ?txn (snd (SM_Initialize True (StateManager_new (sm_file sm)))) = Some (new_record ?txn participants)"
    using create_recovers [OF assms(1,3,5)] by blast
  define en1 where "en1 = ?en0\<lparr>en_sm := Some sm, en_sm_io := replicate (2 * ?n + 4) IoWriteError\<rparr>"
  have create: "sm_call (\<lambda>io. CreateTransaction io ?txn participants) ?en0 = (OK, en1)"
    using assms(2,7) sm by (simp add: sm_call_def en1_def)
  have f1: "log_fails (2 * ?n + 4) (sm_file sm) en1" by (simp add: log_fails_def en1_def)
  let ?en5 = "\<lambda>en3. sm_set_state ?txn kTxnCommitting (sm_set_state ?txn kTxnPrepared en3)"
  obtain prepares en3 commits en6 where prep:
    "prepare_loop describe clients ?txn participants (sm_set_state ?txn kTxnPreparing en1) = (True, prepares, en3)"
    and com: "commit_loop describe clients ?txn participants (?en5 en3) = (True, commits, en6)"
    and run: "FullTwoPhaseCommit describe clients ck participants ctx en =
      (LndOk (ck_commit ck), prepares @ commits, sm_set_state ?txn kTxnCommitted en6)"
    by (rule two_phase_all_yes [OF assms(4,6) create])
  have some: "\<forall>p \<in> set participants. clients p \<noteq> None" using assms(6) by auto
  have "log_fails (?n + 3) (sm_file sm) en3"
    using log_fails_prepare [OF _ some, of "?n + 3" "sm_file sm" "sm_set_state ?txn kTxnPreparing en1" describe ?txn]
      log_fails_state [of "?n + (?n + 3)"] f1 prep by (simp add: numeral_eq_Suc mult_2)
  then have "log_fails (?n + 1) (sm_file sm) (?en5 en3)" by (simp add: log_fails_state numeral_eq_Suc)
  then have "log_fails 1 (sm_file sm) en6"
    using log_fails_commit [OF _ some, of 1 "sm_file sm" "?en5 en3" describe ?txn] com by simp
  then have "log_fails 0 (sm_file sm) (sm_set_state ?txn kTxnCommitted en6)" by (simp add: log_fails_state)
  then obtain sm' where sm': "en_sm (sm_set_state ?txn kTxnCommitted en6) = Some sm'" "sm_file sm' = sm_file sm"
    by (auto simp: log_fails_def split: option.splits)
  have "\<forall>p \<in> set participants. \<exists>sm. (p, MCommit, sm) \<in> set (prepares @ commits)"
    using commit_loop_sent(1) [OF com] some by fastforce
  then show ?thesis using run sm' rec by auto
qed

definition sample_client :: storage_client where
  "sample_client = \<lparr>cl_prepare = Inr True, cl_commit = OK, cl_abort = OK\<rparr>"

definition sample_engine :: "io_outcome list \<Rightarrow> lnd_engine" where
  "sample_engine ios = (LndOccEngine_new True)\<lparr>en_sm := Some (sm_run []), en_sm_io := ios\<rparr>"

definition sample_ctx :: txn_context where
  "sample_ctx = TxnContext_default\<lparr>ctx_txn_id := 7\<rparr>"

lemma sample_commit_run:
  "\<exists>tr en' sm. FullTwoPhaseCommit (\<lambda>_. []) (\<lambda>_. Some sample_client) sample_clocks [1, 2] sample_ctx (sample_engine []) =
       (LndOk 50, tr, en') \<and> (2, MCommit, sm) \<in> set tr"
proof -
  let ?en = "sample_engine []" and ?clients = "\<lambda>_. Some sample_client"
  have sm: "ctx_txn_id sample_ctx = 7" "ck_commit sample_clocks = 50"
    and yes: "\<forall>p \<in> set [1, 2]. \<exists>c. ?clients p = Some c \<and> vote_yes c \<and> cl_commit c = OK"
    by (simp_all add: sample_ctx_def sample_clocks_def sample_client_def vote_yes_def)
  have "fst (sm_call (\<lambda>io. CreateTransaction io 7 [1, 2]) (?en\<lparr>en_full_commits := en_full_commits ?en + 1\<rparr>)) = OK"
    by (simp add: sample_engine_def LndOccEngine_new_def sm_call_def CreateTransaction_def PersistStateUnlocked_def
        TransactionWAL_Append_def TransactionWAL_Sync_def sm_run_def SM_Initialize_def StateManager_new_def Let_def)
  then obtain en1 where "sm_call (\<lambda>io. CreateTransaction io (ctx_txn_id sample_ctx) [1, 2])
      (?en\<lparr>en_full_commits := en_full_commits ?en + 1\<rparr>) = (OK, en1)"
    by (metis prod.collapse sm(1))
  then obtain prepares en3 commits en6 where
    com: "commit_loop (\<lambda>_. []) ?clients 7 [1, 2] (sm_set_state 7 kTxnCommitting (sm_set_state 7 kTxnPrepared en3)) = (True, commits, en6)"
    and run: "FullTwoPhaseCommit (\<lambda>_. []) ?clients sample_clocks [1, 2] sample_ctx ?en =
      (LndOk 50, prepares @ commits, sm_set_state 7 kTxnCommitted en6)"
    using two_phase_all_yes [OF _ yes] sm by (metis list.distinct(1))
  show ?thesis using run commit_loop_sent(1) [OF com, of 2] by auto
qed

lemma lnd_two_phase_commit_safe_witness:
  "\<exists>tr en'. FullTwoPhaseCommit (\<lambda>_. []) (\<lambda>_. Some sample_client) sample_clocks [1, 2] sample_ctx (sample_engine []) =
       (LndOk 50, tr, en') \<and> (\<exists>sm. (2, MCommit, sm) \<in> set tr \<and> sm_txn_state 7 sm = Some kTxnCommitting) \<and>
     txn_state 7 en' = Some kTxnCommitted"
proof -
  obtain tr en' sm where run: "FullTwoPhaseCommit (\<lambda>_. []) (\<lambda>_. Some sample_client) sample_clocks [1, 2] sample_ctx
      (sample_engine []) = (LndOk 50, tr, en')" and "(2, MCommit, sm) \<in> set tr"
    using sample_commit_run by blast
  with lnd_two_phase_commit_safe [OF run, of 2 sm] show ?thesis
    by (auto simp: sample_engine_def sample_ctx_def LndOk_def)
qed

end
