(* ===== verification/Deadlock.thy ===== *)
theory Deadlock
  imports Txn_State Version_Chain "HOL-Library.Multiset"
begin

text \<open>
  Deadlock detection (\<open>src/include/cedar/dtx/deadlock_detector.h\<close>,
  \<open>src/src/dtx/deadlock_detector.cc\<close>): the wait-for graph with its two edge indexes, the depth limited search
  for a cycle, and the detector that registers waits and reports victims. The hash tables of the
  source are association lists; the order in which the set of nodes is traversed is an argument.
  Every call is one atomic step under its lock.
\<close>

subsection \<open>Wait-for graph\<close>

record wait_edge =
  we_waiter :: txn_id
  we_holder :: txn_id
  we_partition :: partition_id
  we_created :: nat
  we_resource :: "u8 list"

text \<open>Time points are nanoseconds of the steady clock; the elapsed milliseconds are cut towards zero and compared with the
  timeout read as a signed number, so a timeout of \<open>2 ^ 63\<close> or more is negative and every wait counts as expired.\<close>

definition IsExpired :: "nat \<Rightarrow> u64 \<Rightarrow> wait_edge \<Rightarrow> bool" where
  "IsExpired now timeout_ms e \<longleftrightarrow>
     (let diff = int now - int (we_created e); elapsed = (if diff < 0 then - (- diff div 1000000) else diff div 1000000)
      in sint timeout_ms < elapsed)"

record deadlock_result =
  dr_has_deadlock :: bool
  dr_cycle :: "txn_id list"
  dr_victim :: txn_id

definition no_deadlock :: deadlock_result where
  "no_deadlock = \<lparr>dr_has_deadlock = False, dr_cycle = [], dr_victim = 0\<rparr>"

type_synonym edge_index = "(txn_id \<times> wait_edge list) list"

record wait_graph =
  wg_outgoing :: edge_index
  wg_incoming :: edge_index
  wg_nodes :: "txn_id set"

definition WaitForGraph_new :: wait_graph where
  "WaitForGraph_new = \<lparr>wg_outgoing = [], wg_incoming = [], wg_nodes = {}\<rparr>"

definition edges_at :: "txn_id \<Rightarrow> edge_index \<Rightarrow> wait_edge list" where
  "edges_at t m = (case map_of m t of None \<Rightarrow> [] | Some es \<Rightarrow> es)"

definition AddEdge :: "wait_edge \<Rightarrow> wait_graph \<Rightarrow> wait_graph" where
  "AddEdge e g =
     \<lparr>wg_outgoing = AList.update (we_waiter e) (edges_at (we_waiter e) (wg_outgoing g) @ [e]) (wg_outgoing g),
      wg_incoming = AList.update (we_holder e) (edges_at (we_holder e) (wg_incoming g) @ [e]) (wg_incoming g),
      wg_nodes = insert (we_holder e) (insert (we_waiter e) (wg_nodes g))\<rparr>"

text \<open>Erase the matching edges of one entry, and the entry when no edge is left.\<close>

definition erase_edges :: "txn_id \<Rightarrow> (wait_edge \<Rightarrow> bool) \<Rightarrow> edge_index \<Rightarrow> edge_index" where
  "erase_edges t P m =
    (case map_of m t of
       None \<Rightarrow> m
     | Some es \<Rightarrow> (let es' = filter (\<lambda>e. \<not> P e) es in if es' = [] then AList.delete t m else AList.update t es' m))"

definition RemoveEdge :: "txn_id \<Rightarrow> txn_id \<Rightarrow> wait_graph \<Rightarrow> wait_graph" where
  "RemoveEdge waiter holder g =
     g\<lparr>wg_outgoing := erase_edges waiter (\<lambda>e. we_holder e = holder) (wg_outgoing g),
       wg_incoming := erase_edges holder (\<lambda>e. we_waiter e = waiter) (wg_incoming g)\<rparr>"

definition RemoveTxn :: "txn_id \<Rightarrow> wait_graph \<Rightarrow> wait_graph" where
  "RemoveTxn t g =
     \<lparr>wg_outgoing = map (\<lambda>(i, es). (i, filter (\<lambda>e. we_holder e \<noteq> t) es)) (AList.delete t (wg_outgoing g)),
      wg_incoming = map (\<lambda>(i, es). (i, filter (\<lambda>e. we_waiter e \<noteq> t) es)) (AList.delete t (wg_incoming g)),
      wg_nodes = wg_nodes g - {t}\<rparr>"

subsection \<open>Search for a cycle\<close>

text \<open>The variables that the recursive search shares.\<close>

record search_state =
  ss_visited :: "txn_id set"
  ss_in_stack :: "txn_id set"
  ss_path :: "txn_id list"
  ss_cycle :: "txn_id list"

definition search_init :: search_state where
  "search_init = \<lparr>ss_visited = {}, ss_in_stack = {}, ss_path = [], ss_cycle = []\<rparr>"

text \<open>\<open>left\<close> is \<open>max_depth - depth\<close>: it counts down where the source counts up. \<open>search_edges\<close> is the loop over the
  outgoing edges.\<close>

function (sequential) FindCycle :: "edge_index \<Rightarrow> nat \<Rightarrow> txn_id \<Rightarrow> search_state \<Rightarrow> bool \<times> search_state"
  and search_edges :: "edge_index \<Rightarrow> nat \<Rightarrow> wait_edge list \<Rightarrow> search_state \<Rightarrow> bool \<times> search_state" where
  "FindCycle out 0 start st = (False, st)"
| "FindCycle out (Suc left) start st =
    (let (found, st') = search_edges out left (edges_at start out)
           (st\<lparr>ss_visited := insert start (ss_visited st), ss_in_stack := insert start (ss_in_stack st),
               ss_path := ss_path st @ [start]\<rparr>)
     in if found then (True, st')
        else (False, st'\<lparr>ss_path := butlast (ss_path st'), ss_in_stack := ss_in_stack st' - {start}\<rparr>))"
| "search_edges out left [] st = (False, st)"
| "search_edges out left (e # es) st =
    (if we_holder e \<in> ss_in_stack st then
       (True, st\<lparr>ss_cycle := dropWhile (\<lambda>t. t \<noteq> we_holder e) (ss_path st)\<rparr>)
     else if we_holder e \<in> ss_visited st then search_edges out left es st
     else (let (found, st') = FindCycle out left (we_holder e) st
           in if found then (True, st') else search_edges out left es st'))"
  by pat_completeness auto
termination
  by (relation "measures [\<lambda>x. case x of Inl (_, n, _) \<Rightarrow> n | Inr (_, n, _) \<Rightarrow> n,
        \<lambda>x. case x of Inl _ \<Rightarrow> 0 | Inr (_, _, es, _) \<Rightarrow> Suc (length es)]") auto

definition kDefaultMaxDepth :: nat where
  "kDefaultMaxDepth = 256"

definition depth_limit :: "nat \<Rightarrow> nat" where
  "depth_limit max_cycle_size = (if max_cycle_size = 0 then kDefaultMaxDepth else max_cycle_size)"

definition SelectVictim :: "txn_id list \<Rightarrow> txn_id" where
  "SelectVictim cycle = (if cycle = [] then 0 else Max (set cycle))"

definition deadlock_found :: "txn_id list \<Rightarrow> deadlock_result" where
  "deadlock_found cycle = \<lparr>dr_has_deadlock = True, dr_cycle = cycle, dr_victim = SelectVictim cycle\<rparr>"

fun detect_loop :: "edge_index \<Rightarrow> nat \<Rightarrow> txn_id list \<Rightarrow> search_state \<Rightarrow> deadlock_result" where
  "detect_loop out limit [] st = no_deadlock"
| "detect_loop out limit (node # nodes) st =
    (if node \<in> ss_visited st then detect_loop out limit nodes st
     else (let (found, st') = FindCycle out limit node st
           in if found then deadlock_found (ss_cycle st') else detect_loop out limit nodes st'))"

text \<open>\<open>order\<close> is the order in which the set of nodes is traversed.\<close>

definition DetectDeadlock :: "txn_id list \<Rightarrow> nat \<Rightarrow> wait_graph \<Rightarrow> deadlock_result" where
  "DetectDeadlock order max_cycle_size g = detect_loop (wg_outgoing g) (depth_limit max_cycle_size) order search_init"

definition DetectDeadlockForTxn :: "txn_id \<Rightarrow> nat \<Rightarrow> wait_graph \<Rightarrow> deadlock_result" where
  "DetectDeadlockForTxn t max_cycle_size g =
    (if t \<notin> wg_nodes g then no_deadlock
     else let (found, st) = FindCycle (wg_outgoing g) (depth_limit max_cycle_size) t search_init
          in if found then deadlock_found (ss_cycle st) else no_deadlock)"

definition GetWaitsFor :: "txn_id \<Rightarrow> wait_graph \<Rightarrow> wait_edge list" where
  "GetWaitsFor t g = edges_at t (wg_outgoing g)"

definition GetWaitsBy :: "txn_id \<Rightarrow> wait_graph \<Rightarrow> wait_edge list" where
  "GetWaitsBy t g = edges_at t (wg_incoming g)"

definition GetEdgeCount :: "wait_graph \<Rightarrow> nat" where
  "GetEdgeCount g = sum_list (map (\<lambda>(_, es). length es) (wg_outgoing g))"

definition GetNodeCount :: "wait_graph \<Rightarrow> nat" where
  "GetNodeCount g = card (wg_nodes g)"

definition CleanupExpiredEdges :: "nat \<Rightarrow> u64 \<Rightarrow> wait_graph \<Rightarrow> nat \<times> wait_graph" where
  "CleanupExpiredEdges now timeout_ms g =
    (let expired = filter (IsExpired now timeout_ms) (concat (map snd (wg_outgoing g)))
     in (length expired, fold (\<lambda>e. RemoveEdge (we_waiter e) (we_holder e)) expired g))"

subsection \<open>Detector\<close>

record detector_config =
  dc_edge_timeout_ms :: u64
  dc_max_cycle_size :: nat

definition DetectorConfig_default :: detector_config where
  "DetectorConfig_default = \<lparr>dc_edge_timeout_ms = 30000, dc_max_cycle_size = 10\<rparr>"

record detector_stats =
  ds_total_deadlocks :: u64
  ds_victims_aborted :: u64
  ds_edges_added :: u64
  ds_edges_removed :: u64
  ds_detections_run :: u64
  ds_expired_edges_cleaned :: u64

definition DetectorStats_new :: detector_stats where
  "DetectorStats_new = \<lparr>ds_total_deadlocks = 0, ds_victims_aborted = 0, ds_edges_added = 0, ds_edges_removed = 0,
     ds_detections_run = 0, ds_expired_edges_cleaned = 0\<rparr>"

text \<open>The victim handler answers whether it returned; \<open>dd_notified\<close> records the transactions it was called with.\<close>

record deadlock_detector =
  dd_config :: detector_config
  dd_graph :: wait_graph
  dd_handler :: "(txn_id \<Rightarrow> bool) option"
  dd_running :: bool
  dd_stats :: detector_stats
  dd_notified :: "txn_id list"

definition DeadlockDetector_new :: deadlock_detector where
  "DeadlockDetector_new = \<lparr>dd_config = DetectorConfig_default, dd_graph = WaitForGraph_new, dd_handler = None,
     dd_running = False, dd_stats = DetectorStats_new, dd_notified = []\<rparr>"

definition DD_Initialize :: "detector_config \<Rightarrow> deadlock_detector \<Rightarrow> Status \<times> deadlock_detector" where
  "DD_Initialize config d =
     (if dd_running d then (InvalidArgument, d) else (OK, d\<lparr>dd_running := True, dd_config := config\<rparr>))"

definition DD_Shutdown :: "deadlock_detector \<Rightarrow> deadlock_detector" where
  "DD_Shutdown d = d\<lparr>dd_running := False\<rparr>"

definition SetVictimHandler :: "(txn_id \<Rightarrow> bool) option \<Rightarrow> deadlock_detector \<Rightarrow> deadlock_detector" where
  "SetVictimHandler handler d = d\<lparr>dd_handler := handler\<rparr>"

definition HandleDeadlock :: "deadlock_result \<Rightarrow> deadlock_detector \<Rightarrow> deadlock_detector" where
  "HandleDeadlock r d =
    (if \<not> dr_has_deadlock r then d
     else case dd_handler d of
         None \<Rightarrow> d
       | Some handler \<Rightarrow>
           if dr_victim r = 0 then d
           else (let d1 = d\<lparr>dd_notified := dd_notified d @ [dr_victim r]\<rparr>
                 in if handler (dr_victim r)
                    then d1\<lparr>dd_stats := (dd_stats d1)\<lparr>ds_victims_aborted := ds_victims_aborted (dd_stats d1) + 1\<rparr>\<rparr> else d1))"

definition RegisterWait :: "nat \<Rightarrow> txn_id \<Rightarrow> txn_id \<Rightarrow> partition_id \<Rightarrow> u8 list \<Rightarrow> deadlock_detector \<Rightarrow> deadlock_detector" where
  "RegisterWait now t holder pid resource d =
    (if \<not> dd_running d then d
     else let e = \<lparr>we_waiter = t, we_holder = holder, we_partition = pid, we_created = now, we_resource = resource\<rparr>;
              d1 = d\<lparr>dd_graph := AddEdge e (dd_graph d),
                     dd_stats := (dd_stats d)\<lparr>ds_edges_added := ds_edges_added (dd_stats d) + 1\<rparr>\<rparr>;
              result = DetectDeadlockForTxn t (dc_max_cycle_size (dd_config d1)) (dd_graph d1)
          in if dr_has_deadlock result then HandleDeadlock result d1 else d1)"

definition count_removed :: "deadlock_detector \<Rightarrow> deadlock_detector" where
  "count_removed d = d\<lparr>dd_stats := (dd_stats d)\<lparr>ds_edges_removed := ds_edges_removed (dd_stats d) + 1\<rparr>\<rparr>"

definition UnregisterWait :: "txn_id \<Rightarrow> txn_id \<Rightarrow> deadlock_detector \<Rightarrow> deadlock_detector" where
  "UnregisterWait t holder d =
     (if \<not> dd_running d then d else count_removed (d\<lparr>dd_graph := RemoveEdge t holder (dd_graph d)\<rparr>))"

definition UnregisterTxn :: "txn_id \<Rightarrow> deadlock_detector \<Rightarrow> deadlock_detector" where
  "UnregisterTxn t d =
     (if \<not> dd_running d then d else count_removed (d\<lparr>dd_graph := RemoveTxn t (dd_graph d)\<rparr>))"

text \<open>One detection, as \<open>DetectNow\<close> and a round of \<open>DetectionLoop\<close> run it.\<close>

definition detection_round :: "txn_id list \<Rightarrow> nat \<Rightarrow> deadlock_detector \<Rightarrow> deadlock_result \<times> deadlock_detector" where
  "detection_round order max_cycle_size d =
    (let result = DetectDeadlock order max_cycle_size (dd_graph d);
         s1 = (dd_stats d)\<lparr>ds_detections_run := ds_detections_run (dd_stats d) + 1\<rparr>;
         s2 = (if dr_has_deadlock result then s1\<lparr>ds_total_deadlocks := ds_total_deadlocks s1 + 1\<rparr> else s1)
     in (result, HandleDeadlock result (d\<lparr>dd_stats := s2\<rparr>)))"

definition DetectNow :: "txn_id list \<Rightarrow> deadlock_detector \<Rightarrow> deadlock_result \<times> deadlock_detector" where
  "DetectNow order d = (if \<not> dd_running d then (no_deadlock, d) else detection_round order 0 d)"

definition DetectionLoop_round :: "txn_id list \<Rightarrow> deadlock_detector \<Rightarrow> deadlock_detector" where
  "DetectionLoop_round order d =
     (if \<not> dd_running d then d else snd (detection_round order (dc_max_cycle_size (dd_config d)) d))"

definition CheckTxn :: "txn_id \<Rightarrow> deadlock_detector \<Rightarrow> deadlock_result" where
  "CheckTxn t d = (if \<not> dd_running d then no_deadlock else DetectDeadlockForTxn t 0 (dd_graph d))"

definition CleanupLoop_round :: "nat \<Rightarrow> deadlock_detector \<Rightarrow> deadlock_detector" where
  "CleanupLoop_round now d =
    (if \<not> dd_running d then d
     else let (removed, g) = CleanupExpiredEdges now (dc_edge_timeout_ms (dd_config d)) (dd_graph d)
          in d\<lparr>dd_graph := g, dd_stats := (if 0 < removed
                 then (dd_stats d)\<lparr>ds_expired_edges_cleaned := ds_expired_edges_cleaned (dd_stats d) + of_nat removed\<rparr>
                 else dd_stats d)\<rparr>)"

definition DD_ResetStats :: "deadlock_detector \<Rightarrow> deadlock_detector" where
  "DD_ResetStats d = d\<lparr>dd_stats := DetectorStats_new\<rparr>"

subsection \<open>The graph refines the list of waits\<close>

text \<open>The contract of the graph: the waits registered and not yet removed, in the order of their registration. A removal takes
  away all waits between the two transactions. So does a clean-up once one of them has expired: it also drops later waits of
  the same pair that have not expired.\<close>

datatype graph_op = GAdd wait_edge | GRemove txn_id txn_id | GRemoveTxn txn_id | GCleanup nat u64

fun graph_step :: "graph_op \<Rightarrow> wait_graph \<Rightarrow> wait_graph" where
  "graph_step (GAdd e) g = AddEdge e g"
| "graph_step (GRemove w h) g = RemoveEdge w h g"
| "graph_step (GRemoveTxn t) g = RemoveTxn t g"
| "graph_step (GCleanup now timeout) g = snd (CleanupExpiredEdges now timeout g)"

definition same_pair :: "wait_edge \<Rightarrow> wait_edge \<Rightarrow> bool" where
  "same_pair e f \<longleftrightarrow> we_waiter e = we_waiter f \<and> we_holder e = we_holder f"

fun wait_step :: "graph_op \<Rightarrow> wait_edge list \<Rightarrow> wait_edge list" where
  "wait_step (GAdd e) es = es @ [e]"
| "wait_step (GRemove w h) es = filter (\<lambda>e. \<not> (we_waiter e = w \<and> we_holder e = h)) es"
| "wait_step (GRemoveTxn t) es = filter (\<lambda>e. we_waiter e \<noteq> t \<and> we_holder e \<noteq> t) es"
| "wait_step (GCleanup now timeout) es = filter (\<lambda>e. \<not> list_ex (\<lambda>f. IsExpired now timeout f \<and> same_pair e f) es) es"

definition graph_run :: "graph_op list \<Rightarrow> wait_graph" where
  "graph_run ops = fold graph_step ops WaitForGraph_new"

definition wait_run :: "graph_op list \<Rightarrow> wait_edge list" where
  "wait_run ops = fold wait_step ops []"

definition index_of :: "(wait_edge \<Rightarrow> txn_id) \<Rightarrow> edge_index \<Rightarrow> wait_edge list \<Rightarrow> bool" where
  "index_of f m es \<longleftrightarrow> distinct (map fst m) \<and> (\<forall>t. edges_at t m = filter (\<lambda>e. f e = t) es)"

lemma index_ofD: "index_of f m es \<Longrightarrow> edges_at t m = filter (\<lambda>e. f e = t) es"
  by (simp add: index_of_def)

lemma edges_at_update [simp]: "edges_at t (AList.update k v m) = (if t = k then v else edges_at t m)"
  by (simp add: edges_at_def update_conv')

lemma edges_at_delete [simp]: "edges_at t (AList.delete k m) = (if t = k then [] else edges_at t m)"
  by (simp add: edges_at_def delete_conv')

lemma edges_at_map: "edges_at t (map (\<lambda>(i, es). (i, filter P es)) m) = filter P (edges_at t m)"
  by (induction m) (auto simp: edges_at_def)

lemma edges_at_erase: "edges_at t (erase_edges k P m) = (if t = k then filter (\<lambda>e. \<not> P e) (edges_at t m) else edges_at t m)"
  by (auto simp: erase_edges_def Let_def split: option.split) (auto simp: edges_at_def)

lemma index_of_add:
  "index_of f m es \<Longrightarrow> index_of f (AList.update (f e) (edges_at (f e) m @ [e]) m) (es @ [e])"
  by (auto simp: index_of_def distinct_update)

lemma index_of_erase:
  assumes "index_of f m es"
  shows "index_of f (erase_edges k P m) (filter (\<lambda>e. \<not> (f e = k \<and> P e)) es)"
proof -
  have "distinct (map fst (erase_edges k P m))"
    using assms by (auto simp: index_of_def erase_edges_def Let_def distinct_update distinct_delete split: option.split)
  moreover have "edges_at t (erase_edges k P m) = filter (\<lambda>e. f e = t) (filter (\<lambda>e. \<not> (f e = k \<and> P e)) es)" for t
    unfolding edges_at_erase index_ofD [OF assms] filter_filter by (auto intro: filter_cong)
  ultimately show ?thesis by (simp add: index_of_def)
qed

lemma index_of_remove:
  assumes "index_of f m es"
  shows "index_of f (map (\<lambda>(i, es). (i, filter P es)) (AList.delete t m)) (filter (\<lambda>e. f e \<noteq> t \<and> P e) es)"
proof -
  have "map fst (map (\<lambda>(i, es). (i, filter P es)) (AList.delete t m)) = map fst (AList.delete t m)"
    by (simp add: comp_def split_beta)
  then have "distinct (map fst (map (\<lambda>(i, es). (i, filter P es)) (AList.delete t m)))"
    using assms by (simp add: index_of_def distinct_delete)
  moreover have "edges_at u (map (\<lambda>(i, es). (i, filter P es)) (AList.delete t m)) =
      filter (\<lambda>e. f e = u) (filter (\<lambda>e. f e \<noteq> t \<and> P e) es)" for u
    unfolding edges_at_map edges_at_delete index_ofD [OF assms] filter_filter by (auto intro: filter_cong)
  ultimately show ?thesis by (simp add: index_of_def)
qed

definition graph_rep :: "wait_graph \<Rightarrow> wait_edge list \<Rightarrow> bool" where
  "graph_rep g es \<longleftrightarrow> index_of we_waiter (wg_outgoing g) es \<and> index_of we_holder (wg_incoming g) es \<and>
     we_waiter ` set es \<union> we_holder ` set es \<subseteq> wg_nodes g \<and> finite (wg_nodes g)"

lemma graph_rep_remove:
  "graph_rep g es \<Longrightarrow> graph_rep (RemoveEdge w h g) (filter (\<lambda>e. \<not> (we_waiter e = w \<and> we_holder e = h)) es)"
  using index_of_erase [of we_waiter "wg_outgoing g" es w "\<lambda>e. we_holder e = h"]
    index_of_erase [of we_holder "wg_incoming g" es h "\<lambda>e. we_waiter e = w"]
  by (auto simp: graph_rep_def RemoveEdge_def conj_commute)

lemma graph_rep_remove_all:
  "graph_rep g es \<Longrightarrow> graph_rep (fold (\<lambda>e. RemoveEdge (we_waiter e) (we_holder e)) fs g)
     (filter (\<lambda>e. \<not> list_ex (same_pair e) fs) es)"
proof (induction fs arbitrary: g es)
  case (Cons f fs)
  from Cons.IH [OF graph_rep_remove [OF Cons.prems]] show ?case
    by (simp add: same_pair_def conj_commute)
qed simp

lemma mset_index:
  "index_of f m es \<Longrightarrow> mset (concat (map snd m)) = mset es"
proof (induction m arbitrary: es)
  case Nil
  then have "filter (\<lambda>e. f e = t) es = []" for t by (simp add: index_of_def edges_at_def)
  then have "es = []" by (metis (mono_tags, lifting) filter_empty_conv list.set_intros(1) neq_Nil_conv)
  then show ?case by simp
next
  case (Cons x m)
  obtain t v where x: "x = (t, v)" by fastforce
  have v: "v = filter (\<lambda>e. f e = t) es" using index_ofD [OF Cons.prems, of t] by (simp add: x edges_at_def)
  have fresh: "map_of m t = None" using Cons.prems by (auto simp: index_of_def x map_of_eq_None_iff)
  have "edges_at u m = filter (\<lambda>e. f e = u) (filter (\<lambda>e. f e \<noteq> t) es)" for u
  proof (cases "u = t")
    case True
    then show ?thesis using fresh by (simp add: edges_at_def)
  next
    case False
    then have "edges_at u m = filter (\<lambda>e. f e = u) es"
      using index_ofD [OF Cons.prems, of u] by (simp add: x edges_at_def)
    with False show ?thesis by (auto intro: filter_cong)
  qed
  then have "index_of f m (filter (\<lambda>e. f e \<noteq> t) es)" using Cons.prems by (simp add: index_of_def)
  from Cons.IH [OF this] show ?case by (simp add: x v)
qed

lemma graph_rep_step: "graph_rep g es \<Longrightarrow> graph_rep (graph_step op g) (wait_step op es)"
proof (cases op)
  case (GAdd e)
  moreover assume "graph_rep g es"
  ultimately show ?thesis
    using index_of_add [of we_waiter "wg_outgoing g" es e] index_of_add [of we_holder "wg_incoming g" es e]
    by (auto simp: graph_rep_def AddEdge_def)
next
  case (GRemoveTxn t)
  moreover assume "graph_rep g es"
  ultimately show ?thesis
    using index_of_remove [of we_waiter "wg_outgoing g" es "\<lambda>e. we_holder e \<noteq> t" t]
      index_of_remove [of we_holder "wg_incoming g" es "\<lambda>e. we_waiter e \<noteq> t" t]
    by (auto simp: graph_rep_def RemoveTxn_def conj_commute)
next
  case (GCleanup now timeout)
  assume rep: "graph_rep g es"
  then have "index_of we_waiter (wg_outgoing g) es" by (simp add: graph_rep_def)
  from mset_eq_setD [OF mset_index [OF this]] have "set (concat (map snd (wg_outgoing g))) = set es" .
  then have "list_ex (same_pair e) (filter (IsExpired now timeout) (concat (map snd (wg_outgoing g)))) \<longleftrightarrow>
      list_ex (\<lambda>f. IsExpired now timeout f \<and> same_pair e f) es" for e
    by (auto simp: list_ex_iff)
  with graph_rep_remove_all [OF rep, of "filter (IsExpired now timeout) (concat (map snd (wg_outgoing g)))"]
  show ?thesis by (simp add: GCleanup CleanupExpiredEdges_def Let_def)
qed (use graph_rep_remove [of g es] in simp)

lemma graph_rep_run: "graph_rep (graph_run ops) (wait_run ops)"
proof -
  have "graph_rep g es \<Longrightarrow> graph_rep (fold graph_step ops g) (fold wait_step ops es)" for g es
    by (induction ops arbitrary: g es) (auto simp: graph_rep_step)
  moreover have "graph_rep WaitForGraph_new []"
    by (simp add: graph_rep_def index_of_def WaitForGraph_new_def edges_at_def)
  ultimately show ?thesis by (simp add: graph_run_def wait_run_def)
qed

text \<open>C20. The two edge indexes of the wait-for graph stand for one list of waits: after any sequence of additions,
  removals, transaction ends and clean-ups, the waits of a transaction and the waits for it are
  exactly those registered and not removed, in the order of registration, the edge count is their
  number, every transaction of a wait is a node, and a clean-up reports the number of expired waits. A clean-up removes more
  than it reports: with an expired wait it removes every wait between the same two transactions, expired or not.\<close>

theorem wait_graph_refines_list:
  "GetWaitsFor t (graph_run ops) = filter (\<lambda>e. we_waiter e = t) (wait_run ops) \<and>
   GetWaitsBy t (graph_run ops) = filter (\<lambda>e. we_holder e = t) (wait_run ops) \<and>
   GetEdgeCount (graph_run ops) = length (wait_run ops) \<and>
   we_waiter ` set (wait_run ops) \<union> we_holder ` set (wait_run ops) \<subseteq> wg_nodes (graph_run ops) \<and>
   fst (CleanupExpiredEdges now timeout (graph_run ops)) = length (filter (IsExpired now timeout) (wait_run ops))"
proof -
  have rep: "index_of we_waiter (wg_outgoing (graph_run ops)) (wait_run ops)"
    "index_of we_holder (wg_incoming (graph_run ops)) (wait_run ops)"
    "we_waiter ` set (wait_run ops) \<union> we_holder ` set (wait_run ops) \<subseteq> wg_nodes (graph_run ops)"
    using graph_rep_run [of ops] by (simp_all add: graph_rep_def)
  note all = mset_index [OF rep(1)]
  have "GetEdgeCount (graph_run ops) = length (wait_run ops)"
    using arg_cong [OF all, of size] by (simp add: GetEdgeCount_def length_concat comp_def case_prod_beta')
  moreover have "length (filter (IsExpired now timeout) (concat (map snd (wg_outgoing (graph_run ops))))) =
      length (filter (IsExpired now timeout) (wait_run ops))"
    by (rule mset_eq_length) (simp only: mset_filter all)
  ultimately show ?thesis
    using rep(3) by (simp add: GetWaitsFor_def GetWaitsBy_def index_ofD [OF rep(1)] index_ofD [OF rep(2)]
        CleanupExpiredEdges_def Let_def)
qed

subsection \<open>The search finds exactly the cycles\<close>

definition waits_in :: "edge_index \<Rightarrow> (txn_id \<times> txn_id) set" where
  "waits_in out = {(a, we_holder e) | a e. e \<in> set (edges_at a out)}"

text \<open>A closed walk: every transaction waits for the next one, and the last one for the first.\<close>

definition wait_cycle :: "(txn_id \<times> txn_id) set \<Rightarrow> txn_id list \<Rightarrow> bool" where
  "wait_cycle r c \<longleftrightarrow> c \<noteq> [] \<and> distinct c \<and> successively (\<lambda>a b. (a, b) \<in> r) c \<and> (last c, hd c) \<in> r"

text \<open>The search state while the path is open: the path is a walk, and its transactions are the stack.\<close>

definition path_ok :: "edge_index \<Rightarrow> search_state \<Rightarrow> bool" where
  "path_ok out st \<longleftrightarrow> distinct (ss_path st) \<and> ss_in_stack st = set (ss_path st) \<and> ss_in_stack st \<subseteq> ss_visited st \<and>
     successively (\<lambda>a b. (a, b) \<in> waits_in out) (ss_path st)"

text \<open>The finished transactions: whom they wait for is finished, too, and they are on no cycle.\<close>

definition finished :: "search_state \<Rightarrow> txn_id set" where
  "finished st = ss_visited st - ss_in_stack st"

definition finished_ok :: "edge_index \<Rightarrow> search_state \<Rightarrow> bool" where
  "finished_ok out st \<longleftrightarrow> waits_in out `` finished st \<subseteq> finished st \<and> acyclic (waits_in out \<inter> finished st \<times> UNIV)"

lemma acyclic_new_source:
  assumes "r `` S \<subseteq> S" "acyclic (r \<inter> S \<times> UNIV)" "r `` {x} \<subseteq> S" "x \<notin> S"
  shows "acyclic (r \<inter> insert x S \<times> UNIV)"
proof -
  let ?r = "r \<inter> insert x S \<times> UNIV"
  have closed: "(a, b) \<in> ?r\<^sup>+ \<Longrightarrow> b \<in> S" for a b
    by (induction rule: trancl_induct) (use assms in auto)
  have old: "(a, b) \<in> ?r\<^sup>+ \<Longrightarrow> a \<in> S \<Longrightarrow> (a, b) \<in> (r \<inter> S \<times> UNIV)\<^sup>+" for a b
  proof (induction rule: trancl_induct)
    case (step b c)
    then have "(b, c) \<in> r \<inter> S \<times> UNIV" using closed by blast
    with step show ?case by (meson trancl_into_trancl)
  qed (auto simp: assms)
  show ?thesis
    using assms(2,4) closed old unfolding acyclic_def by blast
qed

lemma waits_inI: "e \<in> set (edges_at a out) \<Longrightarrow> (a, we_holder e) \<in> waits_in out"
  by (auto simp: waits_in_def)

lemma waits_Image: "waits_in out `` {a} = we_holder ` set (edges_at a out)"
  by (auto simp: waits_in_def)

text \<open>A search that ends without a cycle restores the path and finishes what it has visited. The limit is not
  reached as long as it allows for all transactions \<open>N\<close>.\<close>

definition room :: "txn_id set \<Rightarrow> nat \<Rightarrow> search_state \<Rightarrow> bool" where
  "room N left st \<longleftrightarrow> finite N \<and> ss_in_stack st \<subseteq> N \<and> card N \<le> length (ss_path st) + left"

lemma search_fails:
  "FindCycle out left start st = (False, st') \<Longrightarrow> path_ok out st \<Longrightarrow> finished_ok out st \<Longrightarrow> start \<notin> ss_visited st \<Longrightarrow>
     start \<in> N \<Longrightarrow> waits_in out \<subseteq> N \<times> N \<Longrightarrow> room N left st \<Longrightarrow>
     successively (\<lambda>a b. (a, b) \<in> waits_in out) (ss_path st @ [start]) \<Longrightarrow>
     path_ok out st' \<and> finished_ok out st' \<and> ss_path st' = ss_path st \<and> insert start (ss_visited st) \<subseteq> ss_visited st'"
  "search_edges out left es st = (False, st') \<Longrightarrow> path_ok out st \<Longrightarrow> finished_ok out st \<Longrightarrow> ss_path st \<noteq> [] \<Longrightarrow>
     (\<forall>e \<in> set es. (last (ss_path st), we_holder e) \<in> waits_in out) \<Longrightarrow> waits_in out \<subseteq> N \<times> N \<Longrightarrow> room N left st \<Longrightarrow>
     path_ok out st' \<and> finished_ok out st' \<and> ss_path st' = ss_path st \<and> ss_visited st \<subseteq> ss_visited st' \<and>
     we_holder ` set es \<subseteq> finished st'"
proof (induction out left start st and out left es st arbitrary: st' and st' rule: FindCycle_search_edges.induct)
  case (1 out start st)
  have "card (insert start (set (ss_path st))) \<le> card N"
    using 1 by (intro card_mono) (auto simp: room_def path_ok_def)
  moreover have "start \<notin> set (ss_path st)" "distinct (ss_path st)" using 1 by (auto simp: path_ok_def)
  ultimately have "length (ss_path st) < card N" by (simp add: distinct_card)
  then show ?case using 1 by (simp add: room_def)
next
  case (2 out left start st)
  let ?st1 = "st\<lparr>ss_visited := insert start (ss_visited st), ss_in_stack := insert start (ss_in_stack st),
    ss_path := ss_path st @ [start]\<rparr>"
  obtain st2 where run: "search_edges out left (edges_at start out) ?st1 = (False, st2)"
    and st': "st' = st2\<lparr>ss_path := butlast (ss_path st2), ss_in_stack := ss_in_stack st2 - {start}\<rparr>"
    using 2(2) by (auto simp: Let_def split: prod.splits if_splits)
  have new: "start \<notin> set (ss_path st)" using 2(3,5) by (auto simp: path_ok_def)
  have "finished ?st1 = finished st" using 2(5) by (auto simp: finished_def)
  then have "path_ok out ?st1" "finished_ok out ?st1" "room N left ?st1"
    using 2(3,4,6,8,9) new by (auto simp: path_ok_def finished_ok_def room_def)
  then have IH: "path_ok out st2" "finished_ok out st2" "ss_path st2 = ss_path st @ [start]"
    "insert start (ss_visited st) \<subseteq> ss_visited st2" "we_holder ` set (edges_at start out) \<subseteq> finished st2"
    using 2(1) [OF run] 2(7) by (auto simp: waits_in_def)
  have fin: "finished st' = insert start (finished st2)" "start \<notin> finished st2"
    using IH(1,3,4) by (auto simp: finished_def st' path_ok_def)
  have "waits_in out `` {start} \<subseteq> finished st2" using IH(5) by (simp add: waits_Image)
  then have "finished_ok out st'"
    using acyclic_new_source [of "waits_in out" "finished st2" start] IH(2) fin by (auto simp: finished_ok_def)
  moreover have "path_ok out st'"
    using IH(1,3,4) 2(3) new by (auto simp: path_ok_def st')
  ultimately show ?case using IH(3,4) by (simp add: st')
next
  case (3 out left st)
  then show ?case by simp
next
  case (4 out left e es st)
  let ?h = "we_holder e"
  have h: "?h \<notin> ss_in_stack st" using 4(4) by (auto split: if_splits)
  have keep: "?h \<in> finished st'" if "path_ok out st'" "ss_path st' = ss_path st" "?h \<in> ss_visited st'"
    using that h 4(5) by (auto simp: finished_def path_ok_def)
  show ?case
  proof (cases "?h \<in> ss_visited st")
    case True
    then have "search_edges out left es st = (False, st')" using 4(4) h by simp
    from 4(1) [OF h True this] 4(5-10) True keep show ?thesis by auto
  next
    case False
    obtain st1 where run: "FindCycle out left ?h st = (False, st1)" "search_edges out left es st1 = (False, st')"
      using 4(4) h False by (auto split: prod.splits if_splits)
    have "successively (\<lambda>a b. (a, b) \<in> waits_in out) (ss_path st @ [?h])"
      using 4(5,7,8) by (auto simp: path_ok_def successively_append_iff)
    then have IH: "path_ok out st1" "finished_ok out st1" "ss_path st1 = ss_path st" "insert ?h (ss_visited st) \<subseteq> ss_visited st1"
      using 4(2) [OF h False run(1)] 4(5-10) False by auto
    then have "room N left st1" using 4(5,10) by (auto simp: room_def path_ok_def)
    with 4(3) [OF h False run(1) [symmetric] refl _ run(2)] IH 4(7,8,9) keep show ?thesis by auto
  qed
qed

lemma dropWhile_until: "x \<notin> set xs \<Longrightarrow> dropWhile (\<lambda>t. t \<noteq> x) (xs @ x # ys) = x # ys"
  by (induction xs) auto

text \<open>A search that reports a cycle has found one; one that does not restores the path.\<close>

lemma search_result:
  "FindCycle out left start st = (found, st') \<Longrightarrow> path_ok out st \<Longrightarrow> start \<notin> ss_visited st \<Longrightarrow>
     successively (\<lambda>a b. (a, b) \<in> waits_in out) (ss_path st @ [start]) \<Longrightarrow>
     (if found then wait_cycle (waits_in out) (ss_cycle st') else path_ok out st' \<and> ss_path st' = ss_path st)"
  "search_edges out left es st = (found, st') \<Longrightarrow> path_ok out st \<Longrightarrow> ss_path st \<noteq> [] \<Longrightarrow>
     (\<forall>e \<in> set es. (last (ss_path st), we_holder e) \<in> waits_in out) \<Longrightarrow>
     (if found then wait_cycle (waits_in out) (ss_cycle st') else path_ok out st' \<and> ss_path st' = ss_path st)"
proof (induction out left start st and out left es st arbitrary: found st' and found st' rule: FindCycle_search_edges.induct)
  case (2 out left start st)
  let ?st1 = "st\<lparr>ss_visited := insert start (ss_visited st), ss_in_stack := insert start (ss_in_stack st),
    ss_path := ss_path st @ [start]\<rparr>"
  obtain found2 st2 where run: "search_edges out left (edges_at start out) ?st1 = (found2, st2)" by fastforce
  have new: "start \<notin> set (ss_path st)" using 2(3,4) by (auto simp: path_ok_def)
  then have "path_ok out ?st1" using 2(3,5) by (auto simp: path_ok_def)
  then have IH: "if found2 then wait_cycle (waits_in out) (ss_cycle st2) else path_ok out st2 \<and> ss_path st2 = ss_path st @ [start]"
    using 2(1) [OF run] by (simp add: waits_inI)
  show ?case
  proof (cases found2)
    case True
    then show ?thesis using IH 2(2) run by simp
  next
    case False
    then have "st' = st2\<lparr>ss_path := butlast (ss_path st2), ss_in_stack := ss_in_stack st2 - {start}\<rparr>" "\<not> found"
      using 2(2) run by simp_all
    then show ?thesis using False IH 2(3) new by (auto simp: path_ok_def)
  qed
next
  case (4 out left e es st)
  let ?h = "we_holder e"
  show ?case
  proof (cases "?h \<in> ss_in_stack st")
    case True
    have "?h \<in> set (ss_path st)" using True 4(5) by (simp add: path_ok_def)
    then obtain xs ys where path: "ss_path st = xs @ ?h # ys" "?h \<notin> set xs"
      by (meson split_list_first)
    then have "dropWhile (\<lambda>t. t \<noteq> ?h) (ss_path st) = ?h # ys" by (simp add: dropWhile_until)
    then have c: "ss_cycle st' = ?h # ys" "found" using 4(4) True by auto
    have "(last (?h # ys), ?h) \<in> waits_in out" using 4(7) path(1) by auto
    moreover have "successively (\<lambda>a b. (a, b) \<in> waits_in out) (xs @ ?h # ys)" "distinct (xs @ ?h # ys)"
      using 4(5) path(1) by (simp_all add: path_ok_def)
    ultimately show ?thesis using c by (simp add: wait_cycle_def successively_append_iff)
  next
    case h: False
    show ?thesis
    proof (cases "?h \<in> ss_visited st")
      case True
      then have "search_edges out left es st = (found, st')" using 4(4) h by simp
      from 4(1) [OF h True this 4(5,6)] 4(7) show ?thesis by simp
    next
      case False
      obtain found1 st1 where run: "FindCycle out left ?h st = (found1, st1)" by fastforce
      have "successively (\<lambda>a b. (a, b) \<in> waits_in out) (ss_path st @ [?h])"
        using 4(5,6,7) by (auto simp: path_ok_def successively_append_iff)
      note IH = 4(2) [OF h False run 4(5) False this]
      show ?thesis
      proof (cases found1)
        case True
        then show ?thesis using IH 4(4) h False run by simp
      next
        case no: False
        then have "search_edges out left es st1 = (found, st')" using 4(4) h False run by simp
        with 4(3) [OF h False run [symmetric] refl no] IH no 4(6,7) show ?thesis by simp
      qed
    qed
  qed
qed auto

lemma cycle_not_acyclic: "wait_cycle r c \<Longrightarrow> \<not> acyclic r"
proof -
  assume c: "wait_cycle r c"
  have walk: "successively (\<lambda>a b. (a, b) \<in> r) xs \<Longrightarrow> xs \<noteq> [] \<Longrightarrow> (hd xs, last xs) \<in> r\<^sup>*" for xs
    by (induction xs rule: induct_list012) (auto intro: converse_rtrancl_into_rtrancl)
  have "(hd c, last c) \<in> r\<^sup>*" using c walk by (auto simp: wait_cycle_def)
  with c have "(hd c, hd c) \<in> r\<^sup>+" by (auto simp: wait_cycle_def intro: rtrancl_into_trancl1)
  then show ?thesis by (auto simp: acyclic_def)
qed

lemma trancl_closed:
  assumes "(a, b) \<in> r\<^sup>+" "a \<in> S" "r `` S \<subseteq> S"
  shows "(a, b) \<in> (r \<inter> S \<times> UNIV)\<^sup>+ \<and> b \<in> S"
  using assms(1)
proof (induction rule: trancl_induct)
  case (step b c)
  then show ?case using assms(3) by (auto intro: trancl_into_trancl)
qed (use assms in auto)

lemma finished_acyclic:
  assumes "finished_ok out st" "a \<in> finished st"
  shows "(a, a) \<notin> (waits_in out)\<^sup>+"
  using assms trancl_closed [of a a "waits_in out" "finished st"] unfolding finished_ok_def acyclic_def by blast

text \<open>A graph that stands for the waits \<open>es\<close>, and the relation between its transactions.\<close>

definition waits :: "wait_edge list \<Rightarrow> (txn_id \<times> txn_id) set" where
  "waits es = (\<lambda>e. (we_waiter e, we_holder e)) ` set es"

lemma graph_rep_waits:
  assumes "graph_rep g es"
  shows "waits_in (wg_outgoing g) = waits es" "waits es \<subseteq> wg_nodes g \<times> wg_nodes g" "finite (wg_nodes g)"
proof -
  have "edges_at a (wg_outgoing g) = filter (\<lambda>e. we_waiter e = a) es" for a
    using assms index_ofD by (simp add: graph_rep_def)
  then show "waits_in (wg_outgoing g) = waits es" by (auto simp: waits_in_def waits_def)
  show "waits es \<subseteq> wg_nodes g \<times> wg_nodes g" "finite (wg_nodes g)"
    using assms by (auto simp: graph_rep_def waits_def)
qed

lemma search_init_ok: "path_ok out search_init" "finished_ok out search_init" "ss_path search_init = []"
  by (auto simp: search_init_def path_ok_def finished_ok_def finished_def acyclic_def)

lemma detect_loop_sound:
  "path_ok out st \<Longrightarrow> ss_path st = [] \<Longrightarrow> dr_has_deadlock (detect_loop out limit order st) \<Longrightarrow>
     \<exists>c. wait_cycle (waits_in out) c \<and> detect_loop out limit order st = deadlock_found c"
proof (induction out limit order st rule: detect_loop.induct)
  case (2 out limit node nodes st)
  show ?case
  proof (cases "node \<in> ss_visited st")
    case False
    obtain found st' where run: "FindCycle out limit node st = (found, st')" by fastforce
    note res = search_result(1) [OF run 2(3) False]
    show ?thesis
    proof (cases found)
      case True
      then show ?thesis using res 2(4) False run by auto
    next
      case no: False
      with res 2(4) have "path_ok out st'" "ss_path st' = []" by simp_all
      from 2(2) [OF False run [symmetric] refl no this] 2(5) False run no show ?thesis by simp
    qed
  qed (use 2(1,3-5) in simp)
qed (simp add: no_deadlock_def)

lemma detect_loop_complete:
  "path_ok out st \<Longrightarrow> ss_path st = [] \<Longrightarrow> finished_ok out st \<Longrightarrow> waits_in out \<subseteq> N \<times> N \<Longrightarrow> finite N \<Longrightarrow> card N \<le> limit \<Longrightarrow>
     set order \<subseteq> N \<Longrightarrow> N \<subseteq> set order \<union> ss_visited st \<Longrightarrow> \<not> dr_has_deadlock (detect_loop out limit order st) \<Longrightarrow> acyclic (waits_in out)"
proof (induction out limit order st rule: detect_loop.induct)
  case (1 out limit st)
  then have "N \<subseteq> finished st" by (auto simp: finished_def path_ok_def)
  moreover have "(x, x) \<in> (waits_in out)\<^sup>+ \<Longrightarrow> x \<in> N" for x
    using 1(4) by (meson mem_Sigma_iff subsetD tranclD)
  ultimately show ?case using finished_acyclic [OF 1(3)] by (auto simp: acyclic_def)
next
  case (2 out limit node nodes st)
  show ?case
  proof (cases "node \<in> ss_visited st")
    case True
    then have "set nodes \<subseteq> N" "N \<subseteq> set nodes \<union> ss_visited st" "\<not> dr_has_deadlock (detect_loop out limit nodes st)"
      using 2(9-11) by auto
    with 2(1) [OF True 2(3-8)] show ?thesis by simp
  next
    case False
    obtain st' where run: "FindCycle out limit node st = (False, st')"
      using 2(11) False by (auto simp: deadlock_found_def split: prod.splits if_splits)
    have "room N limit st" using 2(3,4,7,8) by (simp add: room_def path_ok_def)
    note res = search_fails(1) [OF run 2(3,5) False _ 2(6) this]
    have st': "path_ok out st'" "finished_ok out st'" "ss_path st' = []" "insert node (ss_visited st) \<subseteq> ss_visited st'"
      using res 2(4,9) by simp_all
    have "set nodes \<subseteq> N" "N \<subseteq> set nodes \<union> ss_visited st'" using 2(9,10) st'(4) by auto
    moreover have "\<not> dr_has_deadlock (detect_loop out limit nodes st')" using 2(11) False run by simp
    ultimately show ?thesis using 2(2) [OF False run [symmetric] refl _ st'(1,3,2) 2(6-8)] by simp
  qed
qed

text \<open>C5. Deadlock detection is exact up to the depth limit: whatever sequence of operations built the graph and in
  whatever order its transactions are traversed, a reported cycle is a cycle of registered waits
  and the victim is its youngest transaction, and as long as there are not more transactions
  than the limit, a deadlock is reported whenever the waits have a cycle.\<close>

theorem deadlock_detection_exact:
  assumes "set order = wg_nodes (graph_run ops)"
  shows "(dr_has_deadlock (DetectDeadlock order limit (graph_run ops)) \<longrightarrow>
      (\<exists>c. wait_cycle (waits (wait_run ops)) c \<and> dr_cycle (DetectDeadlock order limit (graph_run ops)) = c \<and>
           dr_victim (DetectDeadlock order limit (graph_run ops)) = Max (set c))) \<and>
    (GetNodeCount (graph_run ops) \<le> depth_limit limit \<longrightarrow>
      dr_has_deadlock (DetectDeadlock order limit (graph_run ops)) = (\<not> acyclic (waits (wait_run ops))))"
proof -
  let ?g = "graph_run ops"
  note rep = graph_rep_waits [OF graph_rep_run [of ops]]
  have sound: "dr_has_deadlock (DetectDeadlock order limit ?g) \<Longrightarrow>
      \<exists>c. wait_cycle (waits (wait_run ops)) c \<and> DetectDeadlock order limit ?g = deadlock_found c"
    using detect_loop_sound [OF search_init_ok(1,3)] rep(1) by (metis DetectDeadlock_def)
  moreover have "acyclic (waits (wait_run ops))"
    if "GetNodeCount ?g \<le> depth_limit limit" "\<not> dr_has_deadlock (DetectDeadlock order limit ?g)"
    using detect_loop_complete [OF search_init_ok(1,3,2), of "wg_outgoing ?g" "wg_nodes ?g" "depth_limit limit" order] that rep assms
    by (simp add: GetNodeCount_def DetectDeadlock_def)
  ultimately show ?thesis
    using cycle_not_acyclic by (fastforce simp: deadlock_found_def SelectVictim_def wait_cycle_def)
qed

subsection \<open>Registering a wait\<close>

lemma detect_for_txn:
  assumes "graph_rep g es" "t \<in> wg_nodes g" "GetNodeCount g \<le> depth_limit limit" "(t, t) \<in> (waits es)\<^sup>+"
  shows "\<exists>c. wait_cycle (waits es) c \<and> DetectDeadlockForTxn t limit g = deadlock_found c"
proof -
  note rep = graph_rep_waits [OF assms(1)]
  obtain found st where run: "FindCycle (wg_outgoing g) (depth_limit limit) t search_init = (found, st)" by fastforce
  have room: "room (wg_nodes g) (depth_limit limit) search_init"
    using rep(3) assms(3) by (simp add: room_def search_init_def GetNodeCount_def)
  have fresh: "t \<notin> ss_visited search_init" by (simp add: search_init_def)
  have found
  proof (rule ccontr)
    assume "\<not> found"
    with search_fails(1) [OF _ search_init_ok(1,2) fresh assms(2) _ room] run rep(1,2)
    have "path_ok (wg_outgoing g) st" "finished_ok (wg_outgoing g) st" "ss_path st = []" "t \<in> ss_visited st"
      by (simp_all add: search_init_ok(3))
    then have "(t, t) \<notin> (waits_in (wg_outgoing g))\<^sup>+"
      using finished_acyclic [of "wg_outgoing g" st t] by (simp add: finished_def path_ok_def)
    then show False using assms(4) rep(1) by simp
  qed
  with search_result(1) [OF run search_init_ok(1) fresh] run rep(1) assms(2) show ?thesis
    by (auto simp: DetectDeadlockForTxn_def search_init_ok(3))
qed

lemma wait_cycle_nodes: "wait_cycle r c \<Longrightarrow> r \<subseteq> N \<times> N \<Longrightarrow> set c \<subseteq> N"
proof
  fix x assume c: "wait_cycle r c" and r: "r \<subseteq> N \<times> N" and "x \<in> set c"
  then obtain xs ys where split: "c = xs @ x # ys" by (meson split_list)
  show "x \<in> N"
  proof (cases ys)
    case Nil
    then have "last c = x" by (simp add: split)
    then show ?thesis using c r by (auto simp: wait_cycle_def)
  next
    case (Cons y ys')
    then have "(x, y) \<in> r" using c by (auto simp: wait_cycle_def split successively_append_iff)
    then show ?thesis using r by auto
  qed
qed

text \<open>C19. A wait that closes a cycle is answered at once: when the waits registered so far have no cycle, the new one
  makes one, and there are not more transactions than the configured cycle size, registering it
  calls the victim handler with the youngest transaction of a cycle of waits. Transaction ids are not 0.\<close>

theorem register_wait_reports_cycle:
  assumes "dd_running d" "dd_graph d = graph_run ops" "dd_handler d = Some handler"
    "acyclic (waits (wait_run ops))" "\<not> acyclic (insert (t, holder) (waits (wait_run ops)))"
    "0 \<notin> insert t (insert holder (wg_nodes (graph_run ops)))"
    "card (insert t (insert holder (wg_nodes (graph_run ops)))) \<le> depth_limit (dc_max_cycle_size (dd_config d))"
  shows "\<exists>c. wait_cycle (insert (t, holder) (waits (wait_run ops))) c \<and>
    dd_notified (RegisterWait now t holder pid resource d) = dd_notified d @ [Max (set c)]"
proof -
  let ?e = "\<lparr>we_waiter = t, we_holder = holder, we_partition = pid, we_created = now, we_resource = resource\<rparr>"
  let ?g = "AddEdge ?e (graph_run ops)" and ?es = "wait_run ops @ [?e]"
  have rep: "graph_rep ?g ?es" using graph_rep_step [OF graph_rep_run [of ops], of "GAdd ?e"] by simp
  have w: "waits ?es = insert (t, holder) (waits (wait_run ops))" by (auto simp: waits_def)
  have nodes: "wg_nodes ?g = insert t (insert holder (wg_nodes (graph_run ops)))" by (auto simp: AddEdge_def)
  have "(holder, t) \<in> (waits (wait_run ops))\<^sup>*" using assms(4,5) by (simp add: acyclic_insert)
  then have "(holder, t) \<in> (waits ?es)\<^sup>*" unfolding w by (meson rtrancl_mono subsetD subset_insertI)
  then have "(t, t) \<in> (waits ?es)\<^sup>+" unfolding w by (meson insertI1 rtrancl_into_trancl2)
  then obtain c where c: "wait_cycle (waits ?es) c"
    and run: "DetectDeadlockForTxn t (dc_max_cycle_size (dd_config d)) ?g = deadlock_found c"
    using detect_for_txn [OF rep] assms(7) by (auto simp: GetNodeCount_def nodes)
  have "set c \<subseteq> wg_nodes ?g" "c \<noteq> []"
    using wait_cycle_nodes [OF c graph_rep_waits(2) [OF rep]] c by (simp_all add: wait_cycle_def)
  then have "Max (set c) \<in> wg_nodes ?g" using Max_in [of "set c"] by auto
  then have "Max (set c) \<noteq> 0" using assms(6) unfolding nodes by metis
  then have "dd_notified (RegisterWait now t holder pid resource d) = dd_notified d @ [Max (set c)]"
    using assms(1,2,3) run \<open>c \<noteq> []\<close>
    by (simp add: RegisterWait_def Let_def HandleDeadlock_def deadlock_found_def SelectVictim_def)
  then show ?thesis using c w by auto
qed

subsection \<open>The depth limit hides short cycles\<close>

text \<open>A chain of \<open>n\<close> waits that ends in two transactions waiting for each other.\<close>

definition chain_ops :: "nat \<Rightarrow> graph_op list" where
  "chain_ops n = map (\<lambda>i. GAdd \<lparr>we_waiter = of_nat i, we_holder = of_nat (i + 1), we_partition = 0, we_created = 0,
     we_resource = []\<rparr>) [1..<n + 1] @ [GAdd \<lparr>we_waiter = of_nat (n + 1), we_holder = of_nat n, we_partition = 0,
     we_created = 0, we_resource = []\<rparr>]"

lemma deep_cycle_missed:
  "\<not> dr_has_deadlock (DetectDeadlock (map of_nat [1..<12]) (dc_max_cycle_size DetectorConfig_default) (graph_run (chain_ops 10))) \<and>
   wait_cycle (waits (wait_run (chain_ops 10))) [10, 11]"
  by code_simp

subsection \<open>Two transactions that wait for each other\<close>

definition sample_wait :: "txn_id \<Rightarrow> txn_id \<Rightarrow> wait_edge" where
  "sample_wait w h = \<lparr>we_waiter = w, we_holder = h, we_partition = 0, we_created = 0, we_resource = []\<rparr>"

lemma deadlock_detection_exact_witness:
  "dr_has_deadlock (DetectDeadlock [5, 7] 0 (graph_run [GAdd (sample_wait 5 7), GAdd (sample_wait 7 5)]))"
proof -
  let ?ops = "[GAdd (sample_wait 5 7), GAdd (sample_wait 7 5)]"
  have nodes: "wg_nodes (graph_run ?ops) = {5, 7}"
    by (auto simp: graph_run_def AddEdge_def WaitForGraph_new_def sample_wait_def)
  have "wait_cycle (waits (wait_run ?ops)) [5, 7]"
    by (simp add: wait_cycle_def waits_def wait_run_def sample_wait_def)
  then have "\<not> acyclic (waits (wait_run ?ops))" by (rule cycle_not_acyclic)
  moreover have "set [5, 7] = wg_nodes (graph_run ?ops)" by (simp add: nodes)
  ultimately show ?thesis
    using deadlock_detection_exact [of "[5, 7]" ?ops 0] nodes by (simp add: GetNodeCount_def depth_limit_def kDefaultMaxDepth_def)
qed

lemma register_wait_reports_cycle_witness:
  "dd_notified (RegisterWait 3 7 5 0 [] (DeadlockDetector_new\<lparr>dd_running := True, dd_handler := Some (\<lambda>_. True),
     dd_graph := graph_run [GAdd (sample_wait 5 7)]\<rparr>)) \<noteq> []"
proof -
  let ?ops = "[GAdd (sample_wait 5 7)]"
  let ?d = "DeadlockDetector_new\<lparr>dd_running := True, dd_handler := Some (\<lambda>_. True), dd_graph := graph_run ?ops\<rparr>"
  have w: "waits (wait_run ?ops) = {(5, 7)}" by (simp add: waits_def wait_run_def sample_wait_def)
  have nodes: "wg_nodes (graph_run ?ops) = {5, 7}"
    by (auto simp: graph_run_def AddEdge_def WaitForGraph_new_def sample_wait_def)
  have "acyclic {(5 :: txn_id, 7 :: txn_id)}" by (rule acyclicI_order [of _ "\<lambda>t. 0 - t"]) (simp add: word_less_def)
  moreover have "wait_cycle (insert (7, 5) {(5, 7)}) [5, 7 :: txn_id]" by (simp add: wait_cycle_def)
  then have "\<not> acyclic (insert (7, 5) {(5 :: txn_id, 7)})" by (rule cycle_not_acyclic)
  ultimately show ?thesis
    using register_wait_reports_cycle [of ?d ?ops "\<lambda>_. True" 7 5 3 0 "[]"]
    by (auto simp: w nodes depth_limit_def DeadlockDetector_new_def DetectorConfig_default_def card_insert_if)
qed

end
