(* ===== verification/Txn_Recovery.thy ===== *)
theory Txn_Recovery
  imports Lnd_Occ "HOL-Library.Sublist"
begin

text \<open>
  Recovery of two-phase commits (\<open>src/include/cedar/dtx/transaction_recovery_manager.h\<close>,
  \<open>src/src/dtx/transaction_recovery_manager.cc\<close>): the decision for a transaction found in the state log, the
  messages that carry it out, and the rounds of the recovery thread with its retries. The answers
  of the remote nodes are an argument and the messages sent to them are recorded; waiting between the
  retries is left out.
\<close>

subsection \<open>Recovery manager\<close>

datatype RecoveryAction = kRecNone | kRecCommit | kRecAbort | kRecInquire | kRecWait

record recovery_result =
  rr_success :: bool
  rr_action :: RecoveryAction
  rr_pending :: "partition_id list"
  rr_commit_ts :: timestamp

definition RecoveryResult_new :: recovery_result where
  "RecoveryResult_new = \<lparr>rr_success = False, rr_action = kRecNone, rr_pending = [], rr_commit_ts = 0\<rparr>"

text \<open>The answers of a node to each call.\<close>

record rpc_client =
  rpc_Commit :: "node_id \<Rightarrow> Status"
  rpc_Abort :: "node_id \<Rightarrow> Status"
  rpc_Inquire :: "node_id \<Rightarrow> Status"

datatype rpc_message = RCommit node_id txn_id timestamp | RAbort node_id txn_id | RInquire node_id txn_id

record recovery_manager =
  rm_sm :: "state_manager option"
  rm_rpc :: "rpc_client option"
  rm_node_map :: "partition_id \<rightharpoonup> node_id"
  rm_resolver :: "(partition_id \<Rightarrow> node_id) option"
  rm_loader :: "(txn_id \<Rightarrow> Status \<times> partition_id list \<times> timestamp) option"
  rm_running :: bool
  rm_queue :: "txn_id list"
  rm_recovering :: "txn_id set"
  rm_retries :: "txn_id \<rightharpoonup> nat"

definition RecoveryManager_new :: recovery_manager where
  "RecoveryManager_new = \<lparr>rm_sm = None, rm_rpc = None, rm_node_map = Map.empty, rm_resolver = None, rm_loader = None,
     rm_running = False, rm_queue = [], rm_recovering = {}, rm_retries = Map.empty\<rparr>"

definition SetRpcClient :: "rpc_client option \<Rightarrow> recovery_manager \<Rightarrow> recovery_manager" where
  "SetRpcClient c m = m\<lparr>rm_rpc := c\<rparr>"

definition SetPartitionNodeMap :: "(partition_id \<rightharpoonup> node_id) \<Rightarrow> recovery_manager \<Rightarrow> recovery_manager" where
  "SetPartitionNodeMap nodes m = m\<lparr>rm_node_map := nodes\<rparr>"

definition SetPartitionResolver :: "(partition_id \<Rightarrow> node_id) option \<Rightarrow> recovery_manager \<Rightarrow> recovery_manager" where
  "SetPartitionResolver f m = m\<lparr>rm_resolver := f\<rparr>"

definition SetDecisionLogLoader ::
  "(txn_id \<Rightarrow> Status \<times> partition_id list \<times> timestamp) option \<Rightarrow> recovery_manager \<Rightarrow> recovery_manager" where
  "SetDecisionLogLoader f m = m\<lparr>rm_loader := f\<rparr>"

definition DecideHeuristicAction :: "transaction_record \<Rightarrow> RecoveryAction" where
  "DecideHeuristicAction r = kRecAbort"

text \<open>The participants that have not committed.\<close>

definition pending_participants :: "transaction_record \<Rightarrow> partition_id list" where
  "pending_participants r = map fst (filter (\<lambda>(_, ps). ps_state ps \<noteq> kPartCommitted) (tr_participant_states r))"

definition action_for_state :: "transaction_record \<Rightarrow> recovery_result" where
  "action_for_state r =
    (let st = tr_state r; result = RecoveryResult_new in
     if st = kTxnCommitted then result\<lparr>rr_success := True\<rparr>
     else if st = kTxnAborted then result\<lparr>rr_success := True\<rparr>
     else if st = kTxnPrepared then result\<lparr>rr_action := kRecCommit\<rparr>
     else if st = kTxnPreparing then result\<lparr>rr_action := kRecAbort\<rparr>
     else if st = kTxnCommitting then result\<lparr>rr_action := kRecCommit, rr_pending := pending_participants r\<rparr>
     else if st = kTxnAborting then result\<lparr>rr_action := kRecAbort\<rparr>
     else if st = kTxnUnknown then result\<lparr>rr_action := DecideHeuristicAction r\<rparr>
     else result\<lparr>rr_action := kRecAbort\<rparr>)"

definition StartRecovery :: "txn_id \<Rightarrow> recovery_manager \<Rightarrow> recovery_result" where
  "StartRecovery txn m =
    (case rm_sm m of
       None \<Rightarrow> RecoveryResult_new
     | Some s \<Rightarrow>
         (case GetTransaction txn s of
            None \<Rightarrow> RecoveryResult_new
          | Some r \<Rightarrow>
              (case rm_loader m of
                 None \<Rightarrow> action_for_state r
               | Some loader \<Rightarrow>
                   (let (s, participants, ts) = loader txn
                    in if s \<noteq> OK then action_for_state r
                       else RecoveryResult_new\<lparr>rr_success := True, rr_action := kRecCommit, rr_pending := participants,
                              rr_commit_ts := ts\<rparr>))))"

definition RecoverAllPendingTransactions :: "recovery_manager \<Rightarrow> Status \<times> recovery_manager" where
  "RecoverAllPendingTransactions m =
    (case rm_sm m of
       None \<Rightarrow> (OK, m)
     | Some s \<Rightarrow> (OK, m\<lparr>rm_queue := rm_queue m @ map tr_txn_id (GetPendingTransactions s)\<rparr>))"

definition RM_Initialize :: "state_manager option \<Rightarrow> recovery_manager \<Rightarrow> Status \<times> recovery_manager" where
  "RM_Initialize sm m =
     (if rm_running m then (InvalidArgument, m)
      else RecoverAllPendingTransactions (m\<lparr>rm_running := True, rm_sm := sm\<rparr>))"

definition RM_Shutdown :: "recovery_manager \<Rightarrow> recovery_manager" where
  "RM_Shutdown m = m\<lparr>rm_running := False\<rparr>"

subsection \<open>Messages\<close>

definition resolve_node :: "recovery_manager \<Rightarrow> partition_id \<Rightarrow> node_id" where
  "resolve_node m pid =
    (case rm_node_map m pid of
       Some n \<Rightarrow> n
     | None \<Rightarrow> (case rm_resolver m of Some f \<Rightarrow> f pid | None \<Rightarrow> kInvalidNodeID))"

text \<open>The loop over the participants, for either message: partitions without a node and failing nodes are passed over.\<close>

fun send_loop ::
  "recovery_manager \<Rightarrow> (node_id \<Rightarrow> Status) \<Rightarrow> (node_id \<Rightarrow> rpc_message) \<Rightarrow> partition_id list \<Rightarrow> bool \<times> rpc_message list" where
  "send_loop m call message [] = (True, [])"
| "send_loop m call message (pid # pids) =
    (let n = resolve_node m pid; (ok, sent) = send_loop m call message pids
     in if n = kInvalidNodeID then (False, sent) else (call n = OK \<and> ok, message n # sent))"

definition SendCommitToParticipants ::
  "txn_id \<Rightarrow> partition_id list \<Rightarrow> timestamp \<Rightarrow> recovery_manager \<Rightarrow> Status \<times> rpc_message list" where
  "SendCommitToParticipants txn pids ts m =
    (case rm_rpc m of
       None \<Rightarrow> (IOError, [])
     | Some c \<Rightarrow> (let (ok, sent) = send_loop m (rpc_Commit c) (\<lambda>n. RCommit n txn ts) pids
                 in (if ok then OK else IOError, sent)))"

definition SendAbortToParticipants :: "txn_id \<Rightarrow> partition_id list \<Rightarrow> recovery_manager \<Rightarrow> Status \<times> rpc_message list" where
  "SendAbortToParticipants txn pids m =
    (case rm_rpc m of
       None \<Rightarrow> (IOError, [])
     | Some c \<Rightarrow> (let (ok, sent) = send_loop m (rpc_Abort c) (\<lambda>n. RAbort n txn) pids
                 in (if ok then OK else IOError, sent)))"

definition InquireParticipant :: "partition_id \<Rightarrow> txn_id \<Rightarrow> recovery_manager \<Rightarrow> Status \<times> rpc_message list" where
  "InquireParticipant pid txn m =
    (case rm_rpc m of
       None \<Rightarrow> (IOError, [])
     | Some c \<Rightarrow>
         (let n = resolve_node m pid
          in if n = kInvalidNodeID then (NotFound, []) else (rpc_Inquire c n, [RInquire n txn])))"

text \<open>Recording the outcome in the state manager; its answer is not looked at.\<close>

definition record_outcome :: "io_outcome \<Rightarrow> txn_id \<Rightarrow> u32 \<Rightarrow> recovery_manager \<Rightarrow> recovery_manager" where
  "record_outcome io txn st m = m\<lparr>rm_sm := map_option (\<lambda>s. snd (UpdateState io txn st s)) (rm_sm m)\<rparr>"

definition commit_pending ::
  "io_outcome \<Rightarrow> txn_id \<Rightarrow> transaction_record \<Rightarrow> recovery_manager \<Rightarrow> Status \<times> rpc_message list \<times> recovery_manager" where
  "commit_pending io txn r m =
    (let pending = pending_participants r in
     if pending = [] then (OK, [], record_outcome io txn kTxnCommitted m)
     else let (s, sent) = SendCommitToParticipants txn pending (tr_commit_ts r) m
          in (s, sent, if s = OK then record_outcome io txn kTxnCommitted m else m))"

definition RecoverAsCoordinator ::
  "io_outcome \<Rightarrow> txn_id \<Rightarrow> transaction_record \<Rightarrow> recovery_manager \<Rightarrow> Status \<times> rpc_message list \<times> recovery_manager" where
  "RecoverAsCoordinator io txn r m =
    (if txn \<in> rm_recovering m then commit_pending io txn r m
     else let (s, sent, m1) = commit_pending io txn r (m\<lparr>rm_recovering := insert txn (rm_recovering m)\<rparr>)
          in (s, sent, m1\<lparr>rm_recovering := rm_recovering m1 - {txn}\<rparr>))"

definition RecoverAsParticipant ::
  "io_outcome \<Rightarrow> txn_id \<Rightarrow> transaction_record \<Rightarrow> recovery_manager \<Rightarrow> Status \<times> rpc_message list \<times> recovery_manager" where
  "RecoverAsParticipant io txn r m =
    (let (s, sent) = SendAbortToParticipants txn (tr_participants r) m
     in (s, sent, if s = OK then record_outcome io txn kTxnAborted m else m))"

text \<open>\<open>None\<close> never returns: the branch for an inquiry calls \<open>InquireParticipant\<close> while it holds the mutex which that
  function locks.\<close>

definition ApplyRecoveryAction ::
  "io_outcome \<Rightarrow> txn_id \<Rightarrow> RecoveryAction \<Rightarrow> recovery_manager \<Rightarrow> (Status \<times> rpc_message list \<times> recovery_manager) option" where
  "ApplyRecoveryAction io txn action m =
    (case rm_sm m of
       None \<Rightarrow> Some (IOError, [], m)
     | Some s \<Rightarrow>
         (case GetTransaction txn s of
            None \<Rightarrow> Some (NotFound, [], m)
          | Some r \<Rightarrow>
              (case action of
                 kRecCommit \<Rightarrow> Some (RecoverAsCoordinator io txn r m)
               | kRecAbort \<Rightarrow> Some (RecoverAsParticipant io txn r m)
               | kRecInquire \<Rightarrow>
                   (case tr_participants r of
                      [] \<Rightarrow> Some (InvalidArgument, [], m)
                    | pid # _ \<Rightarrow> if rm_node_map m pid = None then Some (InvalidArgument, [], m) else None)
               | _ \<Rightarrow> Some (OK, [], m))))"

subsection \<open>Time-outs and the recovery thread\<close>

definition OnTransactionTimeout :: "txn_id \<Rightarrow> recovery_manager \<Rightarrow> recovery_manager" where
  "OnTransactionTimeout txn m = m\<lparr>rm_queue := rm_queue m @ [txn]\<rparr>"

definition OnParticipantTimeout :: "io_outcome \<Rightarrow> txn_id \<Rightarrow> partition_id \<Rightarrow> recovery_manager \<Rightarrow> recovery_manager" where
  "OnParticipantTimeout io txn pid m =
     m\<lparr>rm_sm := map_option (\<lambda>s. snd (UpdateParticipantState io txn pid kPartFailed (Some [84, 105, 109, 101, 111, 117, 116]) s)) (rm_sm m),
       rm_queue := rm_queue m @ [txn]\<rparr>"

definition kMaxRecoveryRetries :: nat where
  "kMaxRecoveryRetries = 10"

definition RecoveryLoop_round :: "io_outcome \<Rightarrow> recovery_manager \<Rightarrow> (rpc_message list \<times> recovery_manager) option" where
  "RecoveryLoop_round io m0 =
    (if \<not> rm_running m0 then Some ([], m0)
     else case rm_queue m0 of
         [] \<Rightarrow> Some ([], m0)
       | txn # rest \<Rightarrow>
           (let m = m0\<lparr>rm_queue := rest\<rparr>; result = StartRecovery txn m
            in if rr_action result = kRecNone then Some ([], m)
               else case ApplyRecoveryAction io txn (rr_action result) m of
                   None \<Rightarrow> None
                 | Some (s, sent, m1) \<Rightarrow>
                     if s = OK then Some (sent, m1\<lparr>rm_retries := (rm_retries m1)(txn := None)\<rparr>)
                     else let count = Suc (case rm_retries m1 txn of None \<Rightarrow> 0 | Some n \<Rightarrow> n)
                          in if kMaxRecoveryRetries \<le> count
                             then Some (sent, m1\<lparr>rm_retries := (rm_retries m1)(txn := None)\<rparr>)
                             else Some (sent, m1\<lparr>rm_retries := (rm_retries m1)(txn \<mapsto> count), rm_queue := rm_queue m1 @ [txn]\<rparr>)))"

subsection \<open>What recovery sends\<close>

lemma recovery_frame [simp]:
  "resolve_node (m\<lparr>rm_queue := q\<rparr>) = resolve_node m" "resolve_node (m\<lparr>rm_sm := s\<rparr>) = resolve_node m"
  "resolve_node (m\<lparr>rm_recovering := R\<rparr>) = resolve_node m"
  "StartRecovery txn (m\<lparr>rm_queue := q\<rparr>) = StartRecovery txn m"
  by (simp_all add: resolve_node_def StartRecovery_def fun_eq_iff cong: option.case_cong)

fun message_for :: "bool \<Rightarrow> txn_id \<Rightarrow> rpc_message \<Rightarrow> bool" where
  "message_for commits txn (RCommit _ t _) \<longleftrightarrow> commits \<and> t = txn"
| "message_for commits txn (RAbort _ t) \<longleftrightarrow> \<not> commits \<and> t = txn"
| "message_for commits txn (RInquire _ _) \<longleftrightarrow> False"

lemma send_loop_messages: "snd (send_loop m call message pids) = map message (filter (\<lambda>n. n \<noteq> kInvalidNodeID) (map (resolve_node m) pids))"
  by (induction pids) (auto simp: Let_def split_beta)

lemma recover_coordinator_messages:
  assumes "RecoverAsCoordinator io txn r m = (s, sent, m')"
  shows "\<exists>ns. sent = map (\<lambda>n. RCommit n txn (tr_commit_ts r)) ns"
proof -
  have "\<exists>ns. sent = map (\<lambda>n. RCommit n txn (tr_commit_ts r)) ns" if "commit_pending io txn r m = (s, sent, m')" for m m'
    using that send_loop_messages
    by (auto simp: commit_pending_def SendCommitToParticipants_def Let_def split_beta split: if_splits option.splits)
  then show ?thesis using assms
    by (auto simp: RecoverAsCoordinator_def split: if_splits prod.splits)
qed

lemma recover_participant_messages:
  "RecoverAsParticipant io txn r m = (s, sent, m') \<Longrightarrow> \<exists>ns. sent = map (\<lambda>n. RAbort n txn) ns"
  using send_loop_messages
  by (auto simp: RecoverAsParticipant_def SendAbortToParticipants_def Let_def split_beta split: option.splits)

text \<open>One round for a known transaction, by the action that is recommended.\<close>

lemma round_messages:
  assumes "rm_running m" "rm_queue m = txn # rest" "rm_sm m = Some s" "GetTransaction txn s = Some r"
    "rr_action (StartRecovery txn m) = (if commits then kRecCommit else kRecAbort)"
  shows "\<exists>sent m'. RecoveryLoop_round io m = Some (sent, m') \<and> list_all (message_for commits txn) sent \<and>
    (commits \<longrightarrow> (\<forall>n t ts. RCommit n t ts \<in> set sent \<longrightarrow> ts = tr_commit_ts r))"
proof -
  let ?m = "m\<lparr>rm_queue := rest\<rparr>"
  obtain st sent m1 where app: "ApplyRecoveryAction io txn (rr_action (StartRecovery txn m)) ?m = Some (st, sent, m1)"
    using assms by (cases commits) (auto simp: ApplyRecoveryAction_def intro: prod_cases3)
  have sent: "list_all (message_for commits txn) sent \<and>
      (commits \<longrightarrow> (\<forall>n t ts. RCommit n t ts \<in> set sent \<longrightarrow> ts = tr_commit_ts r))"
  proof (cases commits)
    case True
    then show ?thesis using app assms recover_coordinator_messages [of io txn r ?m st sent m1]
      by (auto simp: ApplyRecoveryAction_def list_all_iff)
  next
    case False
    then show ?thesis using app assms recover_participant_messages [of io txn r ?m st sent m1]
      by (auto simp: ApplyRecoveryAction_def list_all_iff)
  qed
  have "rr_action (StartRecovery txn m) \<noteq> kRecNone" using assms(5) by (cases commits) auto
  then have "\<exists>m'. RecoveryLoop_round io m = Some (sent, m')"
    using assms(1,2) app by (simp add: RecoveryLoop_round_def Let_def)
  with sent show ?thesis by blast
qed

subsection \<open>The state log during two-phase commit\<close>

text \<open>The state manager has a log from which its transactions can be recovered, and its writes succeed.\<close>

definition log_ok :: "lnd_engine \<Rightarrow> bool" where
  "log_ok en \<longleftrightarrow> (case en_sm en of None \<Rightarrow> False | Some s \<Rightarrow> sm_inv s) \<and> en_sm_io en = []"

lemma log_ok_call:
  assumes "log_ok en" "\<And>s. sm_inv s \<Longrightarrow> sm_inv (snd (f IoOk s))"
  shows "log_ok (snd (sm_call f en))"
  using assms by (auto simp: log_ok_def sm_call_def split_beta split: option.splits)

lemma log_ok_state: "log_ok en \<Longrightarrow> log_ok (sm_set_state txn st en)"
  unfolding sm_set_state_def by (erule log_ok_call) (rule sm_inv_update)

lemma log_ok_participant:
  "log_ok en \<Longrightarrow> (\<And>msg. err = Some msg \<Longrightarrow> length msg \<le> 2 ^ 15) \<Longrightarrow>
   log_ok (snd (sm_call (\<lambda>io. UpdateParticipantState io txn pid st err) en))"
  by (erule log_ok_call, rule sm_inv_participant) (cases err; simp)+

lemma restart_transaction:
  assumes "sm_inv s"
  shows "GetTransaction txn (snd (SM_Initialize True (StateManager_new (sm_file s)))) =
    map_option (\<lambda>r. r\<lparr>tr_timeout_at := None\<rparr>) (GetTransaction txn s)"
proof -
  have "RecoverFromWAL (sm_file s @ []) [] = RecoverFromWAL [] (strip_timeouts (sm_transactions s))"
    using assms unfolding sm_inv_def by blast
  then show ?thesis
    by (simp add: SM_Initialize_def StateManager_new_def GetTransaction_def strip_timeouts_def map_of_map)
qed

text \<open>The way of a state manager from \<open>s\<close> to \<open>s'\<close>: every log in between that a restart accepts is the log of a state
  that satisfies \<open>Q\<close>.\<close>

definition trail :: "(state_manager \<Rightarrow> bool) \<Rightarrow> state_manager \<Rightarrow> state_manager \<Rightarrow> bool" where
  "trail Q s s' \<longleftrightarrow> sm_inv s' \<and> prefix (sm_file s) (sm_file s') \<and>
     (\<forall>log. prefix (sm_file s) log \<and> prefix log (sm_file s') \<and> fst (RecoverFromWAL log []) = OK \<longrightarrow>
        (\<exists>t. sm_inv t \<and> sm_file t = log \<and> Q t))"

lemma trail_refl: "sm_inv s \<Longrightarrow> Q s \<Longrightarrow> trail Q s s"
  using prefix_order.antisym by (auto simp: trail_def)

lemma trail_trans: "trail Q s s' \<Longrightarrow> trail Q s' s'' \<Longrightarrow> trail Q s s''"
  unfolding trail_def by (meson prefix_order.trans prefix_same_cases)

lemma trail_mono: "trail Q s s' \<Longrightarrow> (\<And>t. Q t \<Longrightarrow> R t) \<Longrightarrow> trail R s s'"
  unfolding trail_def by blast

lemma trail_frame:
  assumes "sm_inv s" "sm_inv s'" "Q s" "Q s'" "record_small r" "sm_file s' = sm_file s @ wal_frame (Record_Serialize r)"
  shows "trail Q s s'"
proof -
  have "\<exists>t. sm_inv t \<and> sm_file t = log \<and> Q t"
    if log: "prefix (sm_file s) log" "prefix log (sm_file s')" "fst (RecoverFromWAL log []) = OK" for log
  proof -
    obtain x where x: "log = sm_file s @ x" "prefix x (wal_frame (Record_Serialize r))"
      using log(1,2) assms(6) by (auto elim!: prefixE)
    then obtain n where n: "x = take n (wal_frame (Record_Serialize r))" "n \<le> length (wal_frame (Record_Serialize r))"
      by (metis append_eq_conv_conj prefix_def prefix_length_le)
    have "n = 0 \<or> n = length (wal_frame (Record_Serialize r))"
    proof (rule ccontr)
      assume "\<not> ?thesis"
      then have "RecoverFromWAL x m = (Corruption, m)" for m
        using Recover_torn [OF record_small_length [OF assms(5)]] n by simp
      then show False using log(3) assms(1) by (simp add: x(1) sm_inv_def)
    qed
    then show ?thesis using assms n x by auto
  qed
  then show ?thesis using assms(2,6) by (auto simp: trail_def)
qed

text \<open>Each operation appends one record or leaves the log alone.\<close>

definition logs_once :: "(state_manager \<Rightarrow> state_manager) \<Rightarrow> bool" where
  "logs_once f \<longleftrightarrow> (\<forall>s. sm_inv s \<longrightarrow> sm_inv (f s) \<and>
     (f s = s \<or> (\<exists>r. record_small r \<and> sm_file (f s) = sm_file s @ wal_frame (Record_Serialize r))))"

lemma logs_once_trail: "logs_once f \<Longrightarrow> sm_inv s \<Longrightarrow> Q s \<Longrightarrow> Q (f s) \<Longrightarrow> trail Q s (f s)"
  unfolding logs_once_def using trail_frame trail_refl by metis

lemma logs_once_create: "length pids \<le> 2 ^ 20 \<Longrightarrow> logs_once (\<lambda>s. snd (CreateTransaction IoOk t pids s))"
  unfolding logs_once_def
proof (intro allI impI conjI)
  fix s assume p: "length pids \<le> 2 ^ 20" and s: "sm_inv s"
  show "sm_inv (snd (CreateTransaction IoOk t pids s))" using s p by (rule sm_inv_create)
  show "snd (CreateTransaction IoOk t pids s) = s \<or>
      (\<exists>r. record_small r \<and> sm_file (snd (CreateTransaction IoOk t pids s)) = sm_file s @ wal_frame (Record_Serialize r))"
    using sm_inv_persist(1) [OF s new_record_small [OF p]] new_record_small [OF p]
    by (cases "map_of (sm_transactions s) t = None") (auto simp: CreateTransaction_def Let_def)
qed

lemma logs_once_update: "logs_once (\<lambda>s. snd (UpdateState IoOk t st s))"
  unfolding logs_once_def
proof (intro allI impI conjI)
  fix s assume s: "sm_inv s"
  show "sm_inv (snd (UpdateState IoOk t st s))" using s by (rule sm_inv_update)
  show "snd (UpdateState IoOk t st s) = s \<or>
      (\<exists>r. record_small r \<and> sm_file (snd (UpdateState IoOk t st s)) = sm_file s @ wal_frame (Record_Serialize r))"
  proof (cases "map_of (sm_transactions s) t")
    case (Some r)
    have "record_small (r\<lparr>tr_state := st\<rparr>)" using sm_inv_get [OF s Some] by (simp add: record_small_def)
    then show ?thesis using Some s by (auto simp: UpdateState_def Let_def PersistStateUnlocked_transactions)
  qed (simp add: UpdateState_def)
qed

lemma logs_once_participant:
  assumes "\<And>msg. err = Some msg \<Longrightarrow> length msg \<le> 2 ^ 15"
  shows "logs_once (\<lambda>s. snd (UpdateParticipantState IoOk t pid st err s))"
  unfolding logs_once_def
proof (intro allI impI conjI)
  fix s assume s: "sm_inv s"
  have small: "sm_op_small (OpParticipant t pid st err)" using assms by (cases err) simp_all
  show inv: "sm_inv (snd (UpdateParticipantState IoOk t pid st err s))" using s small by (rule sm_inv_participant)
  show "snd (UpdateParticipantState IoOk t pid st err s) = s \<or>
      (\<exists>r. record_small r \<and> sm_file (snd (UpdateParticipantState IoOk t pid st err s)) = sm_file s @ wal_frame (Record_Serialize r))"
  proof (cases "\<exists>r ps. map_of (sm_transactions s) t = Some r \<and> map_of (tr_participant_states r) pid = Some ps")
    case True
    then obtain r ps where r: "map_of (sm_transactions s) t = Some r" "map_of (tr_participant_states r) pid = Some ps" by blast
    let ?ps = "ps\<lparr>ps_state := st, ps_error_msg := (case err of None \<Rightarrow> ps_error_msg ps | Some _ \<Rightarrow> err)\<rparr>"
    let ?r = "r\<lparr>tr_participant_states := omap_put pid ?ps (tr_participant_states r)\<rparr>"
    have u: "UpdateParticipantState IoOk t pid st err s = PersistStateUnlocked IoOk ?r (s\<lparr>sm_transactions := omap_put t ?r (sm_transactions s)\<rparr>)"
      by (simp add: UpdateParticipantState_def r Let_def)
    have "sm_transactions (snd (PersistStateUnlocked IoOk ?r (s\<lparr>sm_transactions := m\<rparr>))) = m" for m
      by (simp add: PersistStateUnlocked_def Let_def split: prod.split)
    then have "map_of (sm_transactions (snd (UpdateParticipantState IoOk t pid st err s))) t = Some ?r" unfolding u by simp
    then have "record_small ?r" using sm_inv_get [OF inv] by blast
    then show ?thesis unfolding u using s by (auto simp: PersistStateUnlocked_transactions)
  qed (auto simp: UpdateParticipantState_def split: option.splits)
qed

text \<open>Calls of the engine to its state manager.\<close>

definition engine_trail :: "(state_manager \<Rightarrow> bool) \<Rightarrow> lnd_engine \<Rightarrow> lnd_engine \<Rightarrow> bool" where
  "engine_trail Q en en' \<longleftrightarrow> log_ok en \<and> log_ok en' \<and> trail Q (the (en_sm en)) (the (en_sm en'))"

lemma engine_trail_trans: "engine_trail Q en en' \<Longrightarrow> engine_trail Q en' en'' \<Longrightarrow> engine_trail Q en en''"
  unfolding engine_trail_def using trail_trans by blast

lemma engine_trail_mono: "engine_trail Q en en' \<Longrightarrow> (\<And>t. Q t \<Longrightarrow> R t) \<Longrightarrow> engine_trail R en en'"
  unfolding engine_trail_def using trail_mono by blast

lemma engine_trail_refl: "log_ok en \<Longrightarrow> Q (the (en_sm en)) \<Longrightarrow> engine_trail Q en en"
  by (auto simp: engine_trail_def log_ok_def intro: trail_refl split: option.splits)

lemma engine_trail_call:
  assumes "log_ok en" "logs_once (\<lambda>s. snd (f IoOk s))" "Q (the (en_sm en))" "Q (the (en_sm (snd (sm_call f en))))"
  shows "engine_trail Q en (snd (sm_call f en))"
proof -
  obtain s where s: "en_sm en = Some s" "sm_inv s" "en_sm_io en = []" using assms(1) by (auto simp: log_ok_def split: option.splits)
  then have c: "en_sm (snd (sm_call f en)) = Some (snd (f IoOk s))" "en_sm_io (snd (sm_call f en)) = []"
    by (simp_all add: sm_call_def split_beta)
  have "sm_inv (snd (f IoOk s))" using assms(2) s(2) by (simp add: logs_once_def)
  then show ?thesis
    using assms s c logs_once_trail [OF assms(2) s(2), of Q] by (simp add: engine_trail_def log_ok_def)
qed

definition in_states :: "txn_id \<Rightarrow> u32 set \<Rightarrow> state_manager \<Rightarrow> bool" where
  "in_states txn sts t \<longleftrightarrow> (\<exists>st \<in> sts. sm_txn_state txn (Some t) = Some st)"

lemma in_states_engine: "log_ok en \<Longrightarrow> txn_state txn en = Some st \<Longrightarrow> st \<in> sts \<Longrightarrow> in_states txn sts (the (en_sm en))"
  by (auto simp: in_states_def log_ok_def split: option.splits)

lemma engine_trail_state:
  assumes "log_ok en" "txn_state txn en = Some st" "st \<in> sts" "st' \<in> sts"
  shows "engine_trail (in_states txn sts) en (sm_set_state txn st' en)"
  unfolding sm_set_state_def
proof (rule engine_trail_call [where Q = "in_states txn sts", OF assms(1)])
  show "logs_once (\<lambda>s. snd (UpdateState IoOk txn st' s))" by (rule logs_once_update)
  show "in_states txn sts (the (en_sm en))" by (rule in_states_engine [OF assms(1-3)])
  have "log_ok (sm_set_state txn st' en)" "txn_state txn (sm_set_state txn st' en) = Some st'"
    using assms by (simp_all add: log_ok_state txn_state_set)
  then show "in_states txn sts (the (en_sm (snd (sm_call (\<lambda>io. UpdateState io txn st') en))))"
    using in_states_engine assms(4) unfolding sm_set_state_def by blast
qed

lemma engine_trail_participant:
  assumes "log_ok en" "txn_state txn en = Some st" "st \<in> sts" "\<And>msg. err = Some msg \<Longrightarrow> length msg \<le> 2 ^ 15"
  shows "engine_trail (in_states txn sts) en (snd (sm_call (\<lambda>io. UpdateParticipantState io txn pid ps err) en))"
proof (rule engine_trail_call [where Q = "in_states txn sts", OF assms(1)])
  show "logs_once (\<lambda>s. snd (UpdateParticipantState IoOk txn pid ps err s))" using assms(4) by (rule logs_once_participant)
  show "in_states txn sts (the (en_sm en))" by (rule in_states_engine [OF assms(1-3)])
  let ?en = "snd (sm_call (\<lambda>io. UpdateParticipantState io txn pid ps err) en)"
  have "log_ok ?en" "txn_state txn ?en = Some st" using assms by (simp_all add: log_ok_participant txn_state_participant)
  then show "in_states txn sts (the (en_sm ?en))" using in_states_engine assms(3) by blast
qed

text \<open>Messages sent on the way: the log at that moment lies between the log at the start and the one at the end.\<close>

definition sent_between :: "lnd_engine \<Rightarrow> lnd_engine \<Rightarrow> partition_id \<times> message \<times> state_manager option \<Rightarrow> bool" where
  "sent_between en en' x \<longleftrightarrow>
     (\<exists>s. snd (snd x) = Some s \<and> sm_inv s \<and> prefix (sm_file (the (en_sm en))) (sm_file s) \<and> prefix (sm_file s) (sm_file (the (en_sm en'))))"

lemma sent_between_trail:
  "engine_trail Q a b \<Longrightarrow> sent_between b c x \<Longrightarrow> sent_between a c x" "engine_trail Q b c \<Longrightarrow> sent_between a b x \<Longrightarrow> sent_between a c x"
  by (auto simp: sent_between_def engine_trail_def trail_def)

lemma sent_between_first: "engine_trail Q en en' \<Longrightarrow> log_ok en \<Longrightarrow> sent_between en en' (p, msg, en_sm en)"
  by (auto simp: sent_between_def engine_trail_def trail_def log_ok_def split: option.splits)

lemma prepare_loop_trail:
  assumes "\<And>s. length (describe s) \<le> 2 ^ 15"
  shows "prepare_loop describe clients txn pids en = (ok, tr, en') \<Longrightarrow> log_ok en \<Longrightarrow> txn_state txn en = Some st \<Longrightarrow> st \<in> sts \<Longrightarrow>
    engine_trail (in_states txn sts) en en'"
proof (induction pids arbitrary: en ok tr en')
  case Nil
  then show ?case by (auto intro: engine_trail_refl in_states_engine)
next
  case (Cons pid pids)
  show ?case
  proof (cases "clients pid")
    case None
    then show ?thesis using Cons by (auto split: prod.splits)
  next
    case (Some c)
    let ?en = "snd (sm_call (\<lambda>io. UpdateParticipantState io txn pid (if vote_yes c then kPartPrepared else kPartAborted)
                           (prepare_error describe c)) en)"
    have "engine_trail (in_states txn sts) en ?en"
      using Cons.prems assms by (intro engine_trail_participant) (auto simp: prepare_error_def split: sum.splits)
    moreover have "log_ok ?en" using calculation by (simp add: engine_trail_def)
    moreover obtain ok2 tr2 en2 where rest: "prepare_loop describe clients txn pids ?en = (ok2, tr2, en2)"
      by (metis prod_cases3)
    ultimately show ?thesis
      using Cons.IH [OF rest] Cons.prems by (auto simp: Some rest txn_state_participant intro: engine_trail_trans)
  qed
qed

lemma commit_loop_trail:
  assumes "\<And>s. length (describe s) \<le> 2 ^ 15"
  shows "commit_loop describe clients txn pids en = (ok, tr, en') \<Longrightarrow> log_ok en \<Longrightarrow> txn_state txn en = Some st \<Longrightarrow> st \<in> sts \<Longrightarrow>
    engine_trail (in_states txn sts) en en' \<and> list_all (sent_between en en') tr"
proof (induction pids arbitrary: en ok tr en')
  case Nil
  then show ?case by (auto intro: engine_trail_refl in_states_engine)
next
  case (Cons pid pids)
  show ?case
  proof (cases "clients pid")
    case None
    then show ?thesis using Cons by (auto split: prod.splits)
  next
    case (Some c)
    let ?en = "snd (sm_call (\<lambda>io. UpdateParticipantState io txn pid (if cl_commit c = OK then kPartCommitted else kPartFailed)
                           (if cl_commit c = OK then None else Some (describe (cl_commit c)))) en)"
    have t: "engine_trail (in_states txn sts) en ?en"
      using Cons.prems assms by (intro engine_trail_participant) (auto split: if_splits)
    then have "log_ok ?en" by (simp add: engine_trail_def)
    moreover obtain ok2 tr2 en2 where rest: "commit_loop describe clients txn pids ?en = (ok2, tr2, en2)"
      by (metis prod_cases3)
    ultimately have "engine_trail (in_states txn sts) ?en en2 \<and> list_all (sent_between ?en en2) tr2"
      using Cons.IH [OF rest] Cons.prems by (simp add: txn_state_participant)
    moreover have "engine_trail (in_states txn sts) en en2" using calculation t by (blast intro: engine_trail_trans)
    ultimately show ?thesis
      using Cons.prems(1) sent_between_first [OF _ Cons.prems(2)] sent_between_trail(1) [OF t]
      by (auto simp: Some rest list_all_iff)
  qed
qed

lemma trail_log:
  assumes "engine_trail Q en en'" "prefix (sm_file (the (en_sm en))) log" "prefix log (sm_file (the (en_sm en')))"
    "fst (RecoverFromWAL log []) = OK"
  obtains t where "sm_inv t" "sm_file t = log" "Q t"
  using assms unfolding engine_trail_def trail_def by blast

text \<open>What a log left behind by two-phase commit says about the transaction: the decision that recovery reads from it, with the
  votes behind it and the messages sent so far.\<close>

definition decided :: "txn_id \<Rightarrow> bool \<Rightarrow> state_manager \<Rightarrow> bool" where
  "decided txn commits =
     in_states txn (if commits then {kTxnPrepared, kTxnCommitting, kTxnCommitted} else {kTxnActive, kTxnPreparing, kTxnAborting})"

lemma create_trail:
  assumes "log_ok en" "length pids \<le> 2 ^ 20" "sm_call (\<lambda>io. CreateTransaction io txn pids) en = (s, en1)"
  shows "s \<noteq> OK \<Longrightarrow> en_sm en1 = en_sm en"
    "s = OK \<Longrightarrow> length (sm_file (the (en_sm en))) < length (sm_file (the (en_sm en1)))"
    "s = OK \<Longrightarrow> engine_trail (\<lambda>t. length (sm_file (the (en_sm en))) < length (sm_file t) \<longrightarrow> decided txn False t) en en1 \<and>
       txn_state txn en1 = Some kTxnActive"
proof -
  obtain s0 where s0: "en_sm en = Some s0" "sm_inv s0" "en_sm_io en = []" using assms(1) by (auto simp: log_ok_def split: option.splits)
  show "s \<noteq> OK \<Longrightarrow> en_sm en1 = en_sm en"
    using assms(3) s0 sm_inv_persist(1) [OF s0(2) new_record_small [OF assms(2)]]
    by (auto simp: sm_call_def CreateTransaction_def Let_def split: if_splits)
  assume "s = OK"
  then show "length (sm_file (the (en_sm en))) < length (sm_file (the (en_sm en1)))"
    using assms(3) s0 sm_inv_persist [OF s0(2) new_record_small [OF assms(2)]]
    by (auto simp: sm_call_def CreateTransaction_def Let_def wal_frame_def split: if_splits)
  from \<open>s = OK\<close> have st: "txn_state txn en1 = Some kTxnActive" using txn_state_create assms(3) s0(1) by simp
  have en1: "en1 = snd (sm_call (\<lambda>io. CreateTransaction io txn pids) en)" by (simp add: assms(3))
  have "log_ok en1" unfolding en1 using assms(1) by (rule log_ok_call) (rule sm_inv_create [OF _ assms(2)])
  then have "decided txn False (the (en_sm en1))" using in_states_engine [OF _ st] by (simp add: decided_def)
  then show "engine_trail (\<lambda>t. length (sm_file (the (en_sm en))) < length (sm_file t) \<longrightarrow> decided txn False t) en en1 \<and>
       txn_state txn en1 = Some kTxnActive"
    unfolding en1 using st [unfolded en1] by (intro conjI engine_trail_call [OF assms(1)] logs_once_create [OF assms(2)]) simp_all
qed

lemma restart_ok: "sm_inv s \<Longrightarrow> fst (SM_Initialize True (StateManager_new (sm_file s))) = OK"
proof -
  assume "sm_inv s"
  then have "RecoverFromWAL (sm_file s @ []) [] = RecoverFromWAL [] (strip_timeouts (sm_transactions s))" unfolding sm_inv_def by blast
  then show ?thesis by (simp add: SM_Initialize_def StateManager_new_def)
qed

abbreviation undecided :: "lnd_engine \<Rightarrow> txn_id \<Rightarrow> state_manager \<Rightarrow> bool" where
  "undecided en txn t \<equiv> length (sm_file (the (en_sm en))) < length (sm_file t) \<longrightarrow> decided txn False t"

lemma undecided_trail:
  "engine_trail (in_states txn sts) a b \<Longrightarrow> sts \<subseteq> {kTxnActive, kTxnPreparing, kTxnAborting} \<Longrightarrow> engine_trail (undecided en txn) a b"
  by (erule engine_trail_mono) (auto simp: decided_def in_states_def)

definition two_phase_started :: "partition_id list \<Rightarrow> txn_context \<Rightarrow> lnd_engine \<Rightarrow> bool" where
  "two_phase_started participants ctx en \<longleftrightarrow> participants \<noteq> [] \<and>
     fst (sm_call (\<lambda>io. CreateTransaction io (ctx_txn_id ctx) participants) (en\<lparr>en_full_commits := en_full_commits en + 1\<rparr>)) = OK"

lemma two_phase_grown_started:
  assumes "FullTwoPhaseCommit describe clients ck participants ctx en = (result, tr, en')" "log_ok en" "length participants \<le> 2 ^ 20"
    "length (sm_file (the (en_sm en))) < length (sm_file (the (en_sm en')))"
  shows "two_phase_started participants ctx en"
proof -
  let ?en0 = "en\<lparr>en_full_commits := en_full_commits en + 1\<rparr>"
  obtain s1 en1 where create: "sm_call (\<lambda>io. CreateTransaction io (ctx_txn_id ctx) participants) ?en0 = (s1, en1)" by (metis prod.exhaust)
  have "log_ok ?en0" using assms(2) by (simp add: log_ok_def)
  then show ?thesis
    using assms(1,4) create create_trail(1) [OF _ assms(3) create]
    by (cases "participants = []"; cases "s1 = OK") (auto simp: FullTwoPhaseCommit_def two_phase_started_def Let_def)
qed

text \<open>The first phase: nothing logged during it is a decision to commit.\<close>

lemma two_phase_prepared:
  assumes describe: "\<And>s. length (describe s) \<le> 2 ^ 15" and small: "length participants \<le> 2 ^ 20" and en: "log_ok en"
    and run: "FullTwoPhaseCommit describe clients ck participants ctx en = (result, tr, en')" and started: "two_phase_started participants ctx en"
  obtains ok prepares en3 where "length (sm_file (the (en_sm en))) < length (sm_file (the (en_sm en3)))" and "engine_trail (undecided en (ctx_txn_id ctx)) en en3" and "txn_state (ctx_txn_id ctx) en3 = Some kTxnPreparing"
    and "ok \<longleftrightarrow> (\<forall>p \<in> set participants. \<exists>c. clients p = Some c \<and> vote_yes c)" and "list_all (\<lambda>x. fst (snd x) = MPrepare) prepares"
    and "\<not> ok \<Longrightarrow> tr = prepares @ abort_messages clients (ctx_txn_id ctx) participants (sm_set_state (ctx_txn_id ctx) kTxnAborting en3) \<and>
      en' = sm_set_state (ctx_txn_id ctx) kTxnAborting (sm_set_state (ctx_txn_id ctx) kTxnAborting en3)"
    and "ok \<Longrightarrow> \<exists>all commits en6. commit_loop describe clients (ctx_txn_id ctx) participants
        (sm_set_state (ctx_txn_id ctx) kTxnCommitting (sm_set_state (ctx_txn_id ctx) kTxnPrepared en3)) = (all, commits, en6) \<and>
      tr = prepares @ commits \<and> en' = sm_set_state (ctx_txn_id ctx) (if all then kTxnCommitted else kTxnCommitting) en6"
proof -
  let ?txn = "ctx_txn_id ctx" and ?en0 = "en\<lparr>en_full_commits := en_full_commits en + 1\<rparr>"
  have en0: "log_ok ?en0" "en_sm ?en0 = en_sm en" using en by (simp_all add: log_ok_def)
  obtain en1 where nonempty: "participants \<noteq> []" and create: "sm_call (\<lambda>io. CreateTransaction io ?txn participants) ?en0 = (OK, en1)"
    using started unfolding two_phase_started_def by (metis prod.collapse)
  have t1: "length (sm_file (the (en_sm en))) < length (sm_file (the (en_sm en1)))" "engine_trail (undecided en ?txn) ?en0 en1"
      "txn_state ?txn en1 = Some kTxnActive"
    using create_trail(2,3) [OF en0(1) small create] by simp_all
  let ?en2 = "sm_set_state ?txn kTxnPreparing en1"
  have t2: "engine_trail (undecided en ?txn) en1 ?en2"
    using engine_trail_state [of en1 ?txn kTxnActive "{kTxnActive, kTxnPreparing}" kTxnPreparing] t1
    by (intro undecided_trail) (auto simp: engine_trail_def)
  have st2: "txn_state ?txn ?en2 = Some kTxnPreparing" using t1(3) by (simp add: txn_state_set)
  obtain ok prepares en3 where prep: "prepare_loop describe clients ?txn participants ?en2 = (ok, prepares, en3)" by (metis prod_cases3)
  have t3: "engine_trail (undecided en ?txn) ?en2 en3"
    using prepare_loop_trail [OF describe prep _ st2, of "{kTxnPreparing}"] t2 by (intro undecided_trail) (auto simp: engine_trail_def)
  have "engine_trail (undecided en ?txn) ?en0 en3" using t1(2) t2 t3 by (blast intro: engine_trail_trans)
  then have t: "engine_trail (undecided en ?txn) en en3" using en by (simp add: engine_trail_def)
  have grown: "length (sm_file (the (en_sm en))) < length (sm_file (the (en_sm en3)))"
    using t1(1) t2 t3 by (fastforce simp: engine_trail_def trail_def dest!: prefix_length_le)
  have P: "txn_state ?txn en3 = Some kTxnPreparing" "ok \<longleftrightarrow> (\<forall>p \<in> set participants. \<exists>c. clients p = Some c \<and> vote_yes c)"
      "list_all (\<lambda>x. fst (snd x) = MPrepare) prepares"
    using prepare_loop_spec [OF prep] st2 by simp_all
  obtain all commits en6 where com: "commit_loop describe clients ?txn participants
      (sm_set_state ?txn kTxnCommitting (sm_set_state ?txn kTxnPrepared en3)) = (all, commits, en6)" by (metis prod_cases3)
  show thesis
    by (rule that [OF grown t P]) (use run nonempty create prep com in \<open>simp_all add: FullTwoPhaseCommit_def Let_def split: if_splits\<close>)
qed

text \<open>The second phase after a unanimous vote: the logs from the prepared state on are decisions to commit, and they are there
  before the first commit message.\<close>

lemma two_phase_committed:
  assumes describe: "\<And>s. length (describe s) \<le> 2 ^ 15" and en3: "log_ok en3" "txn_state txn en3 = Some kTxnPreparing"
    and com: "commit_loop describe clients txn participants (sm_set_state txn kTxnCommitting (sm_set_state txn kTxnPrepared en3)) =
      (all, commits, en6)"
    and en': "en' = sm_set_state txn (if all then kTxnCommitted else kTxnCommitting) en6"
  shows "engine_trail (decided txn True) (sm_set_state txn kTxnPrepared en3) en' \<and>
    engine_trail (\<lambda>t. sm_file t = sm_file (the (en_sm en3)) \<or> sm_file t = sm_file (the (en_sm (sm_set_state txn kTxnPrepared en3))))
      en3 (sm_set_state txn kTxnPrepared en3) \<and>
    list_all (sent_between (sm_set_state txn kTxnPrepared en3) en') commits"
proof -
  let ?en4 = "sm_set_state txn kTxnPrepared en3" and ?late = "{kTxnPrepared, kTxnCommitting, kTxnCommitted}"
  let ?en5 = "sm_set_state txn kTxnCommitting ?en4"
  have ok4: "log_ok ?en4" "txn_state txn ?en4 = Some kTxnPrepared" "log_ok ?en5" "txn_state txn ?en5 = Some kTxnCommitting"
    using en3 by (simp_all add: log_ok_state txn_state_set)
  have t45: "engine_trail (in_states txn ?late) ?en4 ?en5" by (rule engine_trail_state [OF ok4(1,2)]) simp_all
  have t56: "engine_trail (in_states txn ?late) ?en5 en6" "list_all (sent_between ?en5 en6) commits"
    using commit_loop_trail [OF describe com ok4(3,4), of ?late] by simp_all
  have st6: "log_ok en6" "txn_state txn en6 = Some kTxnCommitting"
    using t56(1) commit_loop_spec [OF com] ok4(4) by (simp_all add: engine_trail_def)
  have t67: "engine_trail (in_states txn ?late) en6 en'" unfolding en' by (rule engine_trail_state [OF st6]) simp_all
  then have "engine_trail (decided txn True) ?en4 en'"
    using t45 t56(1) by (auto simp: decided_def intro: engine_trail_trans)
  moreover have "list_all (sent_between ?en4 en') commits"
    using t56(2) sent_between_trail(1) [OF t45] sent_between_trail(2) [OF t67] by (auto simp: list_all_iff)
  ultimately show ?thesis
    using engine_trail_call [of en3 "\<lambda>io. UpdateState io txn kTxnPrepared" "\<lambda>t. sm_file t = sm_file (the (en_sm en3)) \<or> sm_file t = sm_file (the (en_sm ?en4))"]
      en3(1) logs_once_update by (simp add: sm_set_state_def)
qed

lemma two_phase_log:
  assumes describe: "\<And>s. length (describe s) \<le> 2 ^ 15" and small: "length participants \<le> 2 ^ 20" and en: "log_ok en"
    and run: "FullTwoPhaseCommit describe clients ck participants ctx en = (result, tr, en')"
    and log: "prefix log (sm_file (the (en_sm en')))" "fst (RecoverFromWAL log []) = OK"
      "length (sm_file (the (en_sm en))) < length log"
  shows "\<exists>t commits. sm_inv t \<and> sm_file t = log \<and> decided (ctx_txn_id ctx) commits t \<and>
    (commits \<longrightarrow> (\<forall>p \<in> set participants. \<exists>c. clients p = Some c \<and> vote_yes c)) \<and>
    (\<forall>p msg s. (p, msg, Some s) \<in> set tr \<and> length (sm_file s) \<le> length log \<longrightarrow> (msg = MCommit \<longrightarrow> commits) \<and> (msg = MAbort \<longrightarrow> \<not> commits))"
proof -
  let ?txn = "ctx_txn_id ctx" and ?f = "\<lambda>en. sm_file (the (en_sm en))"
  have grown: "length (?f en) < length (?f en')" using log(1,3) by (auto dest: prefix_length_le)
  have started: "two_phase_started participants ctx en" by (rule two_phase_grown_started [OF run en small grown])
  obtain ok prepares en3 where t03: "engine_trail (undecided en ?txn) en en3" and st3: "txn_state ?txn en3 = Some kTxnPreparing"
    and votes: "ok \<longleftrightarrow> (\<forall>p \<in> set participants. \<exists>c. clients p = Some c \<and> vote_yes c)" and prep: "list_all (\<lambda>x. fst (snd x) = MPrepare) prepares"
    and no: "\<not> ok \<Longrightarrow> tr = prepares @ abort_messages clients ?txn participants (sm_set_state ?txn kTxnAborting en3) \<and>
      en' = sm_set_state ?txn kTxnAborting (sm_set_state ?txn kTxnAborting en3)"
    and yes: "ok \<Longrightarrow> \<exists>all commits en6. commit_loop describe clients ?txn participants
        (sm_set_state ?txn kTxnCommitting (sm_set_state ?txn kTxnPrepared en3)) = (all, commits, en6) \<and>
      tr = prepares @ commits \<and> en' = sm_set_state ?txn (if all then kTxnCommitted else kTxnCommitting) en6"
    by (rule two_phase_prepared [OF describe small en run started]) blast
  have ok3: "log_ok en3" using t03 by (simp add: engine_trail_def)
  have early: "\<exists>t. sm_inv t \<and> sm_file t = log \<and> decided ?txn False t" if "engine_trail (undecided en ?txn) en en''" "prefix log (?f en'')" for en''
    using trail_log [OF that(1) _ that(2) log(2)] that log(3) prefix_length_prefix [of "?f en" "?f en''" log]
    by (auto simp: engine_trail_def trail_def)
  show ?thesis
  proof (cases ok)
    case False
    let ?en4 = "sm_set_state ?txn kTxnAborting en3"
    have "engine_trail (undecided en ?txn) en3 ?en4" "engine_trail (undecided en ?txn) ?en4 en'"
      using engine_trail_state [OF ok3 st3, of "{kTxnPreparing, kTxnAborting}" kTxnAborting]
        engine_trail_state [of ?en4 ?txn kTxnAborting "{kTxnAborting}" kTxnAborting] no [OF False] ok3 st3
      by (auto intro!: undecided_trail simp: log_ok_state txn_state_set)
    then have "engine_trail (undecided en ?txn) en en'" using t03 by (blast intro: engine_trail_trans)
    moreover have "(p, MCommit, sm) \<notin> set tr" for p sm using prep no [OF False] by (auto simp: abort_messages_def list_all_iff)
    ultimately show ?thesis using early log(1) by blast
  next
    case True
    then obtain all commits en6 where com: "commit_loop describe clients ?txn participants
        (sm_set_state ?txn kTxnCommitting (sm_set_state ?txn kTxnPrepared en3)) = (all, commits, en6)"
      and tr: "tr = prepares @ commits" and en': "en' = sm_set_state ?txn (if all then kTxnCommitted else kTxnCommitting) en6"
      using yes by blast
    let ?en4 = "sm_set_state ?txn kTxnPrepared en3"
    from two_phase_committed [OF describe ok3 st3 com en'] have t4: "engine_trail (decided ?txn True) ?en4 en'"
      and t34: "engine_trail (\<lambda>t. sm_file t = ?f en3 \<or> sm_file t = ?f ?en4) en3 ?en4" and sent: "list_all (sent_between ?en4 en') commits"
      by auto
    have pre: "prefix (?f en3) (?f ?en4)" "prefix (?f ?en4) (?f en')" using t34 t4 by (simp_all add: engine_trail_def trail_def)
    have aborts: "(p, MAbort, sm) \<notin> set tr" for p sm using prep commit_loop_sent(2) [OF com] by (fastforce simp: tr list_all_iff)
    have late: "length (?f ?en4) \<le> length (sm_file s)" if "(p, MCommit, Some s) \<in> set tr" for p s
      using that prep sent by (fastforce simp: tr list_all_iff sent_between_def dest: prefix_length_le)
    show ?thesis
    proof (cases "length log < length (?f ?en4)")
      case short: True
      then have p4: "prefix log (?f ?en4)" using log(1) pre(2) by (meson prefix_length_prefix less_imp_le)
      have "prefix log (?f en3)"
        using prefix_same_cases [OF p4 pre(1)] trail_log [OF t34 _ p4 log(2)] short by (metis nat_less_le prefix_order.refl)
      then show ?thesis using early [OF t03] late short by fastforce
    next
      case False
      then have "prefix (?f ?en4) log" using log(1) pre(2) by (meson prefix_length_prefix not_less)
      from trail_log [OF t4 this log(1,2)] show ?thesis using votes True aborts by metis
    qed
  qed
qed

text \<open>In a run that has begun, the log at each commit message is such a log.\<close>

lemma two_phase_sent_commit:
  assumes "\<And>s. length (describe s) \<le> 2 ^ 15" "length participants \<le> 2 ^ 20" "log_ok en"
    "FullTwoPhaseCommit describe clients ck participants ctx en = (result, tr, en')" "two_phase_started participants ctx en"
    "(p, MCommit, sm) \<in> set tr"
  shows "\<exists>s final. sm = Some s \<and> en_sm en' = Some final \<and> prefix (sm_file s) (sm_file final) \<and>
    length (sm_file (the (en_sm en))) < length (sm_file s) \<and> fst (SM_Initialize True (StateManager_new (sm_file s))) = OK"
proof (rule two_phase_prepared [OF assms(1-5)])
  fix ok prepares en3
  assume grown: "length (sm_file (the (en_sm en))) < length (sm_file (the (en_sm en3)))" and t: "engine_trail (undecided en (ctx_txn_id ctx)) en en3"
    and st: "txn_state (ctx_txn_id ctx) en3 = Some kTxnPreparing" and prep: "list_all (\<lambda>x. fst (snd x) = MPrepare) prepares"
    and no: "\<not> ok \<Longrightarrow> tr = prepares @ abort_messages clients (ctx_txn_id ctx) participants (sm_set_state (ctx_txn_id ctx) kTxnAborting en3) \<and>
      en' = sm_set_state (ctx_txn_id ctx) kTxnAborting (sm_set_state (ctx_txn_id ctx) kTxnAborting en3)"
    and yes: "ok \<Longrightarrow> \<exists>all commits en6. commit_loop describe clients (ctx_txn_id ctx) participants
        (sm_set_state (ctx_txn_id ctx) kTxnCommitting (sm_set_state (ctx_txn_id ctx) kTxnPrepared en3)) = (all, commits, en6) \<and>
      tr = prepares @ commits \<and> en' = sm_set_state (ctx_txn_id ctx) (if all then kTxnCommitted else kTxnCommitting) en6"
  have ok using assms(6) no prep by (cases ok) (auto simp: abort_messages_def list_all_iff)
  then obtain all commits en6 where com: "commit_loop describe clients (ctx_txn_id ctx) participants
        (sm_set_state (ctx_txn_id ctx) kTxnCommitting (sm_set_state (ctx_txn_id ctx) kTxnPrepared en3)) = (all, commits, en6)"
    and tr: "tr = prepares @ commits" and en': "en' = sm_set_state (ctx_txn_id ctx) (if all then kTxnCommitted else kTxnCommitting) en6"
    using yes by blast
  have "log_ok en3" using t by (simp add: engine_trail_def)
  note C = two_phase_committed [OF assms(1) this st com en']
  have "(p, MCommit, sm) \<in> set commits" using assms(6) prep by (auto simp: tr list_all_iff)
  then obtain s where s: "sm = Some s" "sm_inv s" "prefix (sm_file (the (en_sm (sm_set_state (ctx_txn_id ctx) kTxnPrepared en3)))) (sm_file s)"
      "prefix (sm_file s) (sm_file (the (en_sm en')))"
    using C by (auto simp: list_all_iff sent_between_def)
  moreover have "length (sm_file (the (en_sm en))) < length (sm_file s)"
    using C grown s(3) by (fastforce simp: engine_trail_def trail_def dest!: prefix_length_le)
  moreover have "en_sm en' \<noteq> None" using C by (auto simp: engine_trail_def log_ok_def split: option.splits)
  ultimately show ?thesis using restart_ok by auto
qed

text \<open>C3. A crash of the coordinator of two-phase commit does not split the decision. Suppose the writes of its log succeed,
  no decision log is consulted, and the coordinator crashes at any moment after the transaction was logged, which leaves any
  part of the log that a restart accepts (a torn record is not accepted). The recovery manager, started with the state manager
  that reads this log, takes one decision: it sends only commit or only abort messages for the transaction. It
  commits only if every participant has voted to commit. The decision agrees with the messages sent before the crash: if
  a commit message was sent it commits, if an abort message was sent it aborts.\<close>

theorem two_phase_recovery_agrees:
  assumes "\<And>s. length (describe s) \<le> 2 ^ 15" "length participants \<le> 2 ^ 20" "list_all sm_op_small ops"
    "en_sm en = Some (sm_run ops)" "en_sm_io en = []"
    "FullTwoPhaseCommit describe clients ck participants ctx en = (result, tr, en')" "en_sm en' = Some final"
    "prefix log (sm_file final)" "length (sm_file (sm_run ops)) < length log" "fst (SM_Initialize True (StateManager_new log)) = OK"
    "rm_running m" "rm_queue m = ctx_txn_id ctx # rest" "rm_loader m = None"
    "rm_sm m = Some (snd (SM_Initialize True (StateManager_new log)))"
  shows "\<exists>commits sent m'. RecoveryLoop_round io m = Some (sent, m') \<and> list_all (message_for commits (ctx_txn_id ctx)) sent \<and>
    (commits \<longrightarrow> (\<forall>p \<in> set participants. \<exists>c. clients p = Some c \<and> vote_yes c)) \<and>
    (\<forall>p msg s. (p, msg, Some s) \<in> set tr \<and> length (sm_file s) \<le> length log \<longrightarrow>
       (msg = MCommit \<longrightarrow> commits) \<and> (msg = MAbort \<longrightarrow> \<not> commits))"
proof -
  let ?txn = "ctx_txn_id ctx"
  have "log_ok en" using sm_inv_run [OF assms(3)] assms(4,5) by (simp add: log_ok_def)
  moreover have "fst (RecoverFromWAL log []) = OK"
    using assms(10) by (simp add: SM_Initialize_def StateManager_new_def Let_def split: prod.splits if_splits)
  ultimately obtain t commits where t: "sm_inv t" "sm_file t = log" "decided ?txn commits t"
    and rest: "commits \<longrightarrow> (\<forall>p \<in> set participants. \<exists>c. clients p = Some c \<and> vote_yes c)"
      "\<forall>p msg s. (p, msg, Some s) \<in> set tr \<and> length (sm_file s) \<le> length log \<longrightarrow> (msg = MCommit \<longrightarrow> commits) \<and> (msg = MAbort \<longrightarrow> \<not> commits)"
    using two_phase_log [OF assms(1,2) _ assms(6), of log] unfolding assms(4,7) option.sel using assms(8,9) by metis
  obtain r where r: "GetTransaction ?txn t = Some r"
      "tr_state r \<in> (if commits then {kTxnPrepared, kTxnCommitting, kTxnCommitted} else {kTxnActive, kTxnPreparing, kTxnAborting})"
    using t(3) by (auto simp: decided_def in_states_def sm_txn_state_def)
  have get: "GetTransaction ?txn (snd (SM_Initialize True (StateManager_new log))) = Some (r\<lparr>tr_timeout_at := None\<rparr>)"
    using restart_transaction [OF t(1)] r(1) t(2) by simp
  note act = StartRecovery_def action_for_state_def RecoveryResult_new_def kTxnPreparing_def kTxnCommitting_def kTxnAborting_def
    kTxnCommitted_def kTxnAborted_def kTxnPrepared_def kTxnActive_def kTxnUnknown_def
  show ?thesis
  proof (cases "tr_state r = kTxnCommitted")
    case True
    then have "rr_action (StartRecovery ?txn m) = kRecNone" using assms(13,14) get by (simp add: act Let_def)
    then have "RecoveryLoop_round io m = Some ([], m\<lparr>rm_queue := rest\<rparr>)" using assms(11,12) by (simp add: RecoveryLoop_round_def Let_def)
    then show ?thesis using rest by (intro exI [of _ commits] exI [of _ "[]"]) simp
  next
    case False
    then have "rr_action (StartRecovery ?txn m) = (if commits then kRecCommit else kRecAbort)"
      using assms(13,14) get r(2) by (auto simp: act Let_def split: if_splits)
    from round_messages [OF assms(11,12,14) get this] show ?thesis using rest by blast
  qed
qed

subsection \<open>Recovery that goes wrong\<close>

lemma snd_set_omap_put: "snd ` set (omap_put k v m) \<subseteq> insert v (snd ` set m)"
  by (induction k v m rule: omap_put.induct) auto

definition no_commit_ts :: "state_manager \<Rightarrow> bool" where
  "no_commit_ts s \<longleftrightarrow> (\<forall>r \<in> snd ` set (sm_transactions s). tr_commit_ts r = 0)"

lemma no_commit_ts_put:
  "no_commit_ts s \<Longrightarrow> tr_commit_ts r = 0 \<Longrightarrow> no_commit_ts (s\<lparr>sm_transactions := omap_put t r (sm_transactions s)\<rparr>)"
  using snd_set_omap_put [of t r "sm_transactions s"] by (fastforce simp: no_commit_ts_def)

lemma no_commit_ts_get: "no_commit_ts s \<Longrightarrow> map_of (sm_transactions s) t = Some r \<Longrightarrow> tr_commit_ts r = 0"
  by (force simp: no_commit_ts_def dest: map_of_SomeD)

lemma no_commit_ts_persist [simp]: "no_commit_ts (snd (PersistStateUnlocked io r s)) = no_commit_ts s"
  by (simp add: no_commit_ts_def)

lemma no_commit_ts_step: "no_commit_ts s \<Longrightarrow> no_commit_ts (sm_step op s)"
proof (cases op)
  case (OpCreate t pids)
  assume s: "no_commit_ts s"
  obtain st s1 where p: "PersistStateUnlocked IoOk (new_record t pids) s = (st, s1)" by fastforce
  have "no_commit_ts s1" using s no_commit_ts_persist [of IoOk "new_record t pids" s] p by simp
  then show ?thesis using s no_commit_ts_put [of s1 "new_record t pids" t]
    by (simp add: OpCreate CreateTransaction_def p Let_def) (simp add: new_record_def)
qed (auto simp: UpdateState_def UpdateParticipantState_def SetTransactionTimeout_def Let_def split: option.split
      intro!: no_commit_ts_put dest: no_commit_ts_get)

lemma no_commit_ts_run: "no_commit_ts (sm_run ops)"
proof -
  have "no_commit_ts s \<Longrightarrow> no_commit_ts (fold sm_step ops s)" for s
    by (induction ops arbitrary: s) (auto simp: no_commit_ts_step)
  moreover have "no_commit_ts (snd (SM_Initialize True (StateManager_new [])))"
    by (simp add: no_commit_ts_def SM_Initialize_def StateManager_new_def)
  ultimately show ?thesis unfolding sm_run_def by blast
qed

lemma StartRecovery_action: "rr_action (StartRecovery txn m) \<in> {kRecNone, kRecCommit, kRecAbort}"
  by (simp add: StartRecovery_def action_for_state_def RecoveryResult_new_def DecideHeuristicAction_def Let_def
      split: option.split prod.split)

text \<open>C27. Recovery commits at time 0: nothing ever records the commit timestamp in the transaction records, so every commit
  message of a recovery round carries the timestamp 0, whatever operations the state manager has
  performed and even when the decision log knows the timestamp.\<close>

theorem recovery_commits_at_zero:
  assumes "rm_sm m = Some (sm_run ops)" "RecoveryLoop_round io m = Some (sent, m')" "RCommit n t ts \<in> set sent"
  shows "ts = 0"
proof -
  have run: "rm_running m" "rm_queue m \<noteq> []"
    using assms(2,3) by (auto simp: RecoveryLoop_round_def split: if_splits list.splits)
  then obtain txn rest where q: "rm_queue m = txn # rest" by (meson neq_Nil_conv)
  have some: "rr_action (StartRecovery txn m) \<noteq> kRecNone"
    using assms(2,3) run q by (auto simp: RecoveryLoop_round_def Let_def)
  then obtain r where r: "GetTransaction txn (sm_run ops) = Some r"
    using assms(1) by (auto simp: StartRecovery_def RecoveryResult_new_def split: option.splits)
  have ts: "tr_commit_ts r = 0" using no_commit_ts_get [OF no_commit_ts_run] r by (simp add: GetTransaction_def)
  obtain commits where "rr_action (StartRecovery txn m) = (if commits then kRecCommit else kRecAbort)"
    using some StartRecovery_action [of txn m] by (metis empty_iff insert_iff)
  from round_messages [OF run(1) q assms(1) r this, of io] assms(2,3) ts show ?thesis
    by (cases commits) (auto simp: list_all_iff)
qed

lemma round_aborts_active:
  assumes "rm_running m" "rm_queue m = txn # rest" "rm_loader m = None" "rm_rpc m = Some c" "rm_sm m = Some s"
    "GetTransaction txn s = Some (new_record txn pids)" "\<forall>p \<in> set pids. resolve_node m p \<noteq> kInvalidNodeID"
  shows "\<exists>m'. RecoveryLoop_round io m = Some (map (\<lambda>p. RAbort (resolve_node m p) txn) pids, m')"
proof -
  let ?m = "m\<lparr>rm_queue := rest\<rparr>" and ?r = "new_record txn pids"
  have act: "rr_action (StartRecovery txn m) = kRecAbort"
    using assms(3,5,6) by (simp add: StartRecovery_def action_for_state_def new_record_def kTxnActive_def kTxnPreparing_def
        kTxnCommitting_def kTxnAborting_def kTxnCommitted_def kTxnAborted_def kTxnPrepared_def kTxnUnknown_def Let_def)
  have "filter (\<lambda>n. n \<noteq> kInvalidNodeID) (map (resolve_node m) pids) = map (resolve_node m) pids"
    using assms(7) by (simp add: filter_id_conv)
  then have "snd (SendAbortToParticipants txn pids ?m) = map (\<lambda>p. RAbort (resolve_node m p) txn) pids"
    using assms(4) by (simp add: SendAbortToParticipants_def split_beta send_loop_messages comp_def)
  then obtain st m1 where "ApplyRecoveryAction io txn kRecAbort ?m = Some (st, map (\<lambda>p. RAbort (resolve_node m p) txn) pids, m1)"
    using assms(5,6) by (simp add: ApplyRecoveryAction_def RecoverAsParticipant_def split_beta new_record_def)
  then show ?thesis using assms(1,2) act by (simp add: RecoveryLoop_round_def Let_def)
qed

text \<open>C24. A committed transaction can be aborted by recovery: when every write of the state log after the creation of the
  transaction fails, two-phase commit sends its commit messages and reports success all the same; a
  recovery manager started on the log left behind then tells every participant to abort it.\<close>

theorem recovery_aborts_committed:
  assumes "list_all sm_op_small ops" "en_sm en = Some (sm_run ops)" "GetTransaction (ctx_txn_id ctx) (sm_run ops) = None"
    "participants \<noteq> []" "length participants \<le> 2 ^ 20"
    "\<forall>p \<in> set participants. \<exists>c. clients p = Some c \<and> vote_yes c \<and> cl_commit c = OK"
    "en_sm_io en = IoOk # replicate (2 * length participants + 4) IoWriteError"
    "rm_running m" "rm_queue m = ctx_txn_id ctx # rest" "rm_loader m = None" "rm_rpc m = Some c"
    "\<forall>p \<in> set participants. resolve_node m p \<noteq> kInvalidNodeID"
  shows "\<exists>tr en' sm' m'. FullTwoPhaseCommit describe clients ck participants ctx en = (LndOk (ck_commit ck), tr, en') \<and>
    (\<forall>p \<in> set participants. \<exists>sm. (p, MCommit, sm) \<in> set tr) \<and> en_sm en' = Some sm' \<and>
    RecoveryLoop_round io (m\<lparr>rm_sm := Some (snd (SM_Initialize True (StateManager_new (sm_file sm'))))\<rparr>) =
      Some (map (\<lambda>p. RAbort (resolve_node m p) (ctx_txn_id ctx)) participants, m')"
proof -
  obtain tr en' sm' where run: "FullTwoPhaseCommit describe clients ck participants ctx en = (LndOk (ck_commit ck), tr, en')"
    "\<forall>p \<in> set participants. \<exists>sm. (p, MCommit, sm) \<in> set tr" "en_sm en' = Some sm'"
    and get: "GetTransaction (ctx_txn_id ctx) (snd (SM_Initialize True (StateManager_new (sm_file sm')))) =
      Some (new_record (ctx_txn_id ctx) participants)"
    using commit_decision_not_durable [OF assms(1-7)] by blast
  let ?m = "m\<lparr>rm_sm := Some (snd (SM_Initialize True (StateManager_new (sm_file sm'))))\<rparr>"
  obtain m' where "RecoveryLoop_round io ?m = Some (map (\<lambda>p. RAbort (resolve_node m p) (ctx_txn_id ctx)) participants, m')"
    using round_aborts_active [of ?m "ctx_txn_id ctx" rest c _ participants io] assms(8-12) get by auto
  with run show ?thesis by blast
qed

subsection \<open>Concrete recoveries\<close>

definition sample_manager :: "state_manager option \<Rightarrow> recovery_manager" where
  "sample_manager sm = RecoveryManager_new\<lparr>rm_sm := sm, rm_running := True, rm_queue := [7],
     rm_rpc := Some \<lparr>rpc_Commit = (\<lambda>_. OK), rpc_Abort = (\<lambda>_. OK), rpc_Inquire = (\<lambda>_. OK)\<rparr>, rm_node_map := (\<lambda>p. Some 3)\<rparr>"

lemma sample_manager_fields [simp]:
  "rm_running (sample_manager sm)" "rm_queue (sample_manager sm) = [7]" "rm_loader (sample_manager sm) = None"
  "rm_sm (sample_manager sm) = sm" "resolve_node (sample_manager sm) p = 3" "rm_recovering (sample_manager sm) = {}"
  "rm_rpc (sample_manager sm) = Some \<lparr>rpc_Commit = (\<lambda>_. OK), rpc_Abort = (\<lambda>_. OK), rpc_Inquire = (\<lambda>_. OK)\<rparr>"
  by (simp_all add: sample_manager_def RecoveryManager_new_def resolve_node_def)

lemma two_phase_recovery_agrees_witness:
  "\<exists>tr en' s commits sent m'. FullTwoPhaseCommit (\<lambda>_. []) (\<lambda>_. Some sample_client) sample_clocks [1, 2] sample_ctx (sample_engine []) =
       (LndOk 50, tr, en') \<and> (2, MCommit, Some s) \<in> set tr \<and>
     RecoveryLoop_round IoOk (sample_manager (Some (snd (SM_Initialize True (StateManager_new (sm_file s)))))) = Some (sent, m') \<and>
     commits \<and> list_all (message_for commits 7) sent"
proof -
  have eng: "en_sm (sample_engine []) = Some (sm_run [])" "en_sm_io (sample_engine []) = []" "ctx_txn_id sample_ctx = 7"
    by (simp_all add: sample_engine_def sample_ctx_def)
  obtain tr en' sm where run: "FullTwoPhaseCommit (\<lambda>_. []) (\<lambda>_. Some sample_client) sample_clocks [1, 2] sample_ctx
      (sample_engine []) = (LndOk 50, tr, en')" and sent: "(2, MCommit, sm) \<in> set tr"
    using sample_commit_run by blast
  have "log_ok (sample_engine [])" using sm_inv_run [of "[]"] by (simp add: log_ok_def eng)
  moreover have "two_phase_started [1, 2] sample_ctx (sample_engine [])"
    by (simp add: two_phase_started_def sample_ctx_def sample_engine_def LndOccEngine_new_def sm_call_def CreateTransaction_def
        PersistStateUnlocked_def TransactionWAL_Append_def TransactionWAL_Sync_def sm_run_def SM_Initialize_def StateManager_new_def Let_def)
  ultimately obtain s final where s: "sm = Some s" "en_sm en' = Some final" "prefix (sm_file s) (sm_file final)"
      "length (sm_file (sm_run [])) < length (sm_file s)" "fst (SM_Initialize True (StateManager_new (sm_file s))) = OK"
    using two_phase_sent_commit [OF _ _ _ run _ sent] by (auto simp: eng)
  let ?m = "sample_manager (Some (snd (SM_Initialize True (StateManager_new (sm_file s)))))"
  have "\<exists>commits sent m'. RecoveryLoop_round IoOk ?m = Some (sent, m') \<and> list_all (message_for commits (ctx_txn_id sample_ctx)) sent \<and>
    (commits \<longrightarrow> (\<forall>p \<in> set [1, 2 :: partition_id]. \<exists>c. Some sample_client = Some c \<and> vote_yes c)) \<and>
    (\<forall>p msg s'. (p, msg, Some s') \<in> set tr \<and> length (sm_file s') \<le> length (sm_file s) \<longrightarrow>
       (msg = MCommit \<longrightarrow> commits) \<and> (msg = MAbort \<longrightarrow> \<not> commits))"
    by (rule two_phase_recovery_agrees [OF _ _ _ eng(1,2) run s(2-5)]) (simp_all add: eng)
  with run sent s(1) eng(3) show ?thesis by (metis order_refl)
qed

lemma recovery_commits_at_zero_witness:
  "\<exists>m' ts. RecoveryLoop_round IoOk (sample_manager (Some (sm_run [OpCreate 7 [1], OpState 7 kTxnPrepared]))) =
     Some ([RCommit 3 7 ts], m') \<and> ts = 0"
proof -
  let ?m = "sample_manager (Some (sm_run [OpCreate 7 [1], OpState 7 kTxnPrepared]))"
  let ?r = "(new_record 7 [1])\<lparr>tr_state := kTxnPrepared\<rparr>"
  have "map_of (sm_transactions (sm_run [OpCreate 7 [1], OpState 7 kTxnPrepared])) 7 = Some ?r"
    by (simp add: sm_run_def SM_Initialize_def StateManager_new_def CreateTransaction_def UpdateState_def
        PersistStateUnlocked_def TransactionWAL_Append_def TransactionWAL_Sync_def Let_def)
  then have get: "GetTransaction 7 (sm_run [OpCreate 7 [1], OpState 7 kTxnPrepared]) = Some ?r" by (simp add: GetTransaction_def)
  have "rr_action (action_for_state ?r) = kRecCommit"
    by (simp add: action_for_state_def kTxnPrepared_def kTxnCommitted_def kTxnAborted_def)
  then have act: "rr_action (StartRecovery 7 ?m) = kRecCommit" by (simp add: StartRecovery_def get)
  have "pending_participants ?r = [1]"
    by (simp add: pending_participants_def new_record_def ParticipantState_unknown_def kPartUnknown_def kPartCommitted_def)
  then have "fst (snd (RecoverAsCoordinator IoOk 7 ?r (?m\<lparr>rm_queue := []\<rparr>))) = [RCommit 3 7 0]"
    by (simp add: RecoverAsCoordinator_def commit_pending_def SendCommitToParticipants_def kInvalidNodeID_def new_record_def split_beta Let_def)
  then obtain st m1 where "ApplyRecoveryAction IoOk 7 kRecCommit (?m\<lparr>rm_queue := []\<rparr>) = Some (st, [RCommit 3 7 0], m1)"
    by (auto simp: ApplyRecoveryAction_def get prod_eq_iff)
  then have "\<exists>m' ts. RecoveryLoop_round IoOk ?m = Some ([RCommit 3 7 ts], m')"
    by (simp add: RecoveryLoop_round_def act Let_def)
  then obtain m' ts where run: "RecoveryLoop_round IoOk ?m = Some ([RCommit 3 7 ts], m')" by blast
  moreover have "ts = 0" by (rule recovery_commits_at_zero [OF _ run, of _ 3 7]) simp_all
  ultimately show ?thesis by blast
qed

lemma recovery_aborts_committed_witness:
  "\<exists>tr en' sm' m'. FullTwoPhaseCommit (\<lambda>_. []) (\<lambda>_. Some sample_client) sample_clocks [1, 2] sample_ctx
       (sample_engine (IoOk # replicate 8 IoWriteError)) = (LndOk 50, tr, en') \<and> en_sm en' = Some sm' \<and>
     RecoveryLoop_round IoOk (sample_manager (Some (snd (SM_Initialize True (StateManager_new (sm_file sm')))))) =
       Some ([RAbort 3 7, RAbort 3 7], m')"
proof -
  have facts: "ctx_txn_id sample_ctx = 7" "ck_commit sample_clocks = 50" "vote_yes sample_client" "cl_commit sample_client = OK"
    "GetTransaction 7 (sm_run []) = None"
    by (simp_all add: sample_ctx_def sample_clocks_def sample_client_def vote_yes_def GetTransaction_def sm_run_def
        SM_Initialize_def StateManager_new_def)
  obtain c where c: "rm_rpc (sample_manager None) = Some c" by simp
  have upd: "(sample_manager None)\<lparr>rm_sm := s\<rparr> = sample_manager s" for s by (simp add: sample_manager_def RecoveryManager_new_def)
  from recovery_aborts_committed [of "[]" "sample_engine (IoOk # replicate 8 IoWriteError)" sample_ctx "[1, 2]"
      "\<lambda>_. Some sample_client" "sample_manager None" "[]" c "\<lambda>_. []" sample_clocks IoOk]
  show ?thesis using facts c upd by (auto simp: sample_engine_def kInvalidNodeID_def)
qed

end
