(* ===== verification/Column_Coders.thy ===== *)
theory Column_Coders
  imports Descriptor
begin

text \<open>
  Column coders of the SST files (\<open>src/include/cedar/sst/column_coders.h\<close>,
  \<open>src/src/sst/column_coders.cc\<close>): variable-length integers, zig-zag numbers, and the encoders and decoders of the
  six columns of a key-value block. Differences of ids and timestamps are taken in 64 bit two's complement with
  wrap-around. The source subtracts \<open>int64_t\<close> values, where a difference that does not fit is undefined in C++; the model gives
  what a compiler with wrapping signed arithmetic (\<open>-fwrapv\<close>) computes, and what the usual machine instruction does. The compressors of the descriptor column are parameters.
\<close>

subsection \<open>Variable-length integers\<close>

function EncodeVarUint64 :: "u64 \<Rightarrow> u8 list" where
  "EncodeVarUint64 v =
     (if 0x80 \<le> v then (0x80 OR (ucast v AND 0x7F)) # EncodeVarUint64 (drop_bit 7 v) else [ucast v])"
  by pat_completeness auto

lemma drop_bit_7_less: "0x80 \<le> (v :: u64) \<Longrightarrow> unat (drop_bit 7 v) < unat v"
  by (simp add: unsigned_drop_bit_eq drop_bit_eq_div word_le_nat_alt unat_div)

termination EncodeVarUint64
  by (relation "measure unat") (auto dest: drop_bit_7_less)

declare EncodeVarUint64.simps [simp del]

text \<open>The loop of the decoder; it returns the value, if any, and the bytes left.\<close>

fun decode_var :: "u64 \<Rightarrow> nat \<Rightarrow> u8 list \<Rightarrow> u64 option \<times> u8 list" where
  "decode_var result shift [] = (None, [])"
| "decode_var result shift (byte # bs) =
    (let result' = result OR push_bit shift (ucast (byte AND 0x7F))
     in if byte AND 0x80 = 0 then (Some result', bs)
        else if 64 \<le> shift + 7 then (None, bs) else decode_var result' (shift + 7) bs)"

definition DecodeVarUint64 :: "u8 list \<Rightarrow> u64 option \<times> u8 list" where
  "DecodeVarUint64 bs = decode_var 0 0 bs"

definition EncodeVarUint16 :: "u16 \<Rightarrow> u8 list" where
  "EncodeVarUint16 v = EncodeVarUint64 (ucast v)"

definition DecodeVarUint16 :: "u8 list \<Rightarrow> u16 option \<times> u8 list" where
  "DecodeVarUint16 bs =
    (case DecodeVarUint64 bs of
       (Some v, rest) \<Rightarrow> (if 0xFFFF < v then None else Some (ucast v), rest)
     | (None, rest) \<Rightarrow> (None, rest))"

definition ZigZagEncode :: "u64 \<Rightarrow> u64" where
  "ZigZagEncode v = push_bit 1 v XOR signed_drop_bit 63 v"

definition ZigZagDecode :: "u64 \<Rightarrow> u64" where
  "ZigZagDecode v = drop_bit 1 v XOR - (v AND 1)"

lemma decode_var_shorter: "length (snd (decode_var r s bs)) \<le> length bs - 1"
  by (induction r s bs rule: decode_var.induct) (auto simp: Let_def)

lemma DecodeVar_shorter: "(r, rest) = DecodeVarUint64 bs \<Longrightarrow> bs \<noteq> [] \<Longrightarrow> length rest < length bs"
  using decode_var_shorter [of 0 0 bs] by (cases bs) (auto simp: DecodeVarUint64_def split_beta dest: arg_cong [of _ _ snd])

lemma DecodeVar_length: "(r, rest) = DecodeVarUint64 bs \<Longrightarrow> length rest \<le> length bs"
  using DecodeVar_shorter [of r rest bs] by (cases bs) (auto simp: DecodeVarUint64_def)

lemma DecodeVar_twice:
  "(r, rest) = DecodeVarUint64 bs \<Longrightarrow> (r', rest') = DecodeVarUint64 rest \<Longrightarrow> bs \<noteq> [] \<Longrightarrow> length rest' < length bs"
  by (meson DecodeVar_length DecodeVar_shorter le_less_trans)

lemma DecodeVar16_shorter: "(r, rest) = DecodeVarUint16 bs \<Longrightarrow> bs \<noteq> [] \<Longrightarrow> length rest < length bs"
  using DecodeVar_shorter [of "fst (DecodeVarUint64 bs)" "snd (DecodeVarUint64 bs)" bs]
  by (auto simp: DecodeVarUint16_def split: prod.splits option.splits)

subsection \<open>Entity ids: differences and runs\<close>

record entity_column =
  ec_base :: u64
  ec_last :: u64
  ec_run :: u32
  ec_count :: nat
  ec_encoded :: "u8 list"
  ec_first :: bool

definition EntityIdColumn_new :: entity_column where
  "EntityIdColumn_new = \<lparr>ec_base = 0, ec_last = 0, ec_run = 0, ec_count = 0, ec_encoded = [], ec_first = True\<rparr>"

definition FlushRun :: "entity_column \<Rightarrow> entity_column" where
  "FlushRun c =
     (if 0 < ec_run c then c\<lparr>ec_encoded := ec_encoded c @ [0] @ EncodeVarUint64 (ucast (ec_run c)), ec_run := 0\<rparr> else c)"

definition EntityId_Add :: "u64 \<Rightarrow> entity_column \<Rightarrow> entity_column" where
  "EntityId_Add eid c =
    (if ec_first c then c\<lparr>ec_base := eid, ec_last := eid, ec_first := False, ec_count := ec_count c + 1\<rparr>
     else if eid = ec_last c then c\<lparr>ec_run := ec_run c + 1, ec_count := ec_count c + 1\<rparr>
     else let c1 = FlushRun c
          in c1\<lparr>ec_encoded := ec_encoded c1 @ EncodeVarUint64 (ZigZagEncode (eid - ec_last c1)), ec_last := eid,
                ec_count := ec_count c1 + 1\<rparr>)"

definition EntityId_Finish :: "entity_column \<Rightarrow> u8 list \<times> entity_column" where
  "EntityId_Finish c =
    (let c1 = FlushRun c
     in (EncodeVarUint64 (ec_base c1) @ EncodeVarUint64 (of_nat (ec_count c1)) @ ec_encoded c1, c1))"

definition EntityId_Reset :: "entity_column \<Rightarrow> entity_column" where
  "EntityId_Reset c = EntityIdColumn_new"

record entity_decoder =
  ed_data :: "u8 list"
  ed_count :: nat
  ed_base :: u64

definition EntityIdDecoder_Init :: "u8 list \<Rightarrow> entity_decoder option" where
  "EntityIdDecoder_Init data =
    (if length data < 2 then None
     else case DecodeVarUint64 data of
         (None, _) \<Rightarrow> None
       | (Some base, rest) \<Rightarrow>
           (case DecodeVarUint64 rest of
              (None, _) \<Rightarrow> None
            | (Some count, _) \<Rightarrow> Some \<lparr>ed_data = data, ed_count = unat count, ed_base = base\<rparr>))"

text \<open>The scan up to index \<open>idx\<close>; \<open>i\<close> is the index of the next value.\<close>

function entity_scan :: "nat \<Rightarrow> u8 list \<Rightarrow> u64 \<Rightarrow> nat \<Rightarrow> u64" where
  "entity_scan idx bs current i =
    (if bs = [] \<or> idx < i then current
     else case DecodeVarUint64 bs of
         (None, _) \<Rightarrow> current
       | (Some v, rest) \<Rightarrow>
           if v = 0 then
             (case DecodeVarUint64 rest of
                (None, _) \<Rightarrow> current
              | (Some run_len, rest') \<Rightarrow>
                  if idx < (i + unat run_len) mod 2 ^ 64 then current
                  else entity_scan idx rest' current ((i + unat run_len) mod 2 ^ 64))
           else (let current' = current + ZigZagDecode v
                 in if i = idx then current' else entity_scan idx rest current' (i + 1)))"
  by pat_completeness auto
termination
  by (relation "measure (\<lambda>(_, bs, _, _). length bs)") (auto dest: DecodeVar_shorter DecodeVar_twice)

declare entity_scan.simps [simp del]

definition EntityId_Get :: "nat \<Rightarrow> entity_decoder \<Rightarrow> u64" where
  "EntityId_Get idx d =
    (if ed_count d \<le> idx then 0
     else if idx = 0 then ed_base d
     else entity_scan idx (snd (DecodeVarUint64 (snd (DecodeVarUint64 (ed_data d))))) (ed_base d) 1)"

subsection \<open>Timestamps: differences of differences\<close>

record timestamp_column =
  tc_first_ts :: "u64 option"
  tc_prev_ts :: "u64 option"
  tc_prev_delta :: "u64 option"
  tc_encoded :: "u8 list"
  tc_count :: nat

definition TimestampColumn_new :: timestamp_column where
  "TimestampColumn_new = \<lparr>tc_first_ts = None, tc_prev_ts = None, tc_prev_delta = None, tc_encoded = [], tc_count = 0\<rparr>"

definition Timestamp_Add :: "u64 \<Rightarrow> timestamp_column \<Rightarrow> timestamp_column" where
  "Timestamp_Add ts c =
    (if tc_first_ts c = None then c\<lparr>tc_first_ts := Some ts, tc_prev_ts := Some ts, tc_count := tc_count c + 1\<rparr>
     else let delta = ts - the (tc_prev_ts c)
          in case tc_prev_delta c of
              None \<Rightarrow> c\<lparr>tc_prev_delta := Some delta, tc_encoded := tc_encoded c @ EncodeVarUint64 (ZigZagEncode delta),
                        tc_prev_ts := Some ts, tc_count := tc_count c + 1\<rparr>
            | Some prev \<Rightarrow> c\<lparr>tc_prev_delta := Some delta,
                            tc_encoded := tc_encoded c @ EncodeVarUint64 (ZigZagEncode (delta - prev)),
                            tc_prev_ts := Some ts, tc_count := tc_count c + 1\<rparr>)"

definition Timestamp_Finish :: "timestamp_column \<Rightarrow> u8 list" where
  "Timestamp_Finish c = le_bytes 8 (case tc_first_ts c of None \<Rightarrow> 0 | Some ts \<Rightarrow> ts) @ tc_encoded c"

definition Timestamp_Reset :: "timestamp_column \<Rightarrow> timestamp_column" where
  "Timestamp_Reset c = TimestampColumn_new"

text \<open>Counting the numbers behind the first value, as two of the decoders do.\<close>

function count_varints :: "u8 list \<Rightarrow> nat" where
  "count_varints bs =
     (if bs = [] then 0
      else case DecodeVarUint64 bs of (None, _) \<Rightarrow> 0 | (Some _, rest) \<Rightarrow> 1 + count_varints rest)"
  by pat_completeness auto
termination
  by (relation "measure length") (auto dest: DecodeVar_shorter)

declare count_varints.simps [simp del]

record fixed_decoder =
  fd_data :: "u8 list"
  fd_count :: nat
  fd_first :: u64

definition FixedDecoder_Init :: "u8 list \<Rightarrow> fixed_decoder option" where
  "FixedDecoder_Init data =
    (if length data < 8 then None
     else Some \<lparr>fd_data = data, fd_count = 1 + count_varints (drop 8 data), fd_first = le_word (take 8 data)\<rparr>)"

function timestamp_scan :: "nat \<Rightarrow> u8 list \<Rightarrow> u64 \<Rightarrow> u64 \<Rightarrow> nat \<Rightarrow> u64" where
  "timestamp_scan idx bs current prev_delta i =
    (if bs = [] \<or> idx < i then current
     else case DecodeVarUint64 bs of
         (None, _) \<Rightarrow> current
       | (Some v, rest) \<Rightarrow>
           (let prev_delta' = (if i = 1 then ZigZagDecode v else prev_delta + ZigZagDecode v); current' = current + prev_delta'
            in if i = idx then current' else timestamp_scan idx rest current' prev_delta' (i + 1)))"
  by pat_completeness auto
termination
  by (relation "measure (\<lambda>(_, bs, _, _, _). length bs)") (auto dest: DecodeVar_shorter)

declare timestamp_scan.simps [simp del]

definition Timestamp_Get :: "nat \<Rightarrow> fixed_decoder \<Rightarrow> u64" where
  "Timestamp_Get idx d =
    (if fd_count d \<le> idx then 0 else if idx = 0 then fd_first d
     else timestamp_scan idx (drop 8 (fd_data d)) (fd_first d) 0 1)"

subsection \<open>Target ids: differences\<close>

record target_column =
  gc_first_id :: u64
  gc_last_id :: u64
  gc_count :: nat
  gc_encoded :: "u8 list"
  gc_first :: bool

definition TargetIdColumn_new :: target_column where
  "TargetIdColumn_new = \<lparr>gc_first_id = 0, gc_last_id = 0, gc_count = 0, gc_encoded = [], gc_first = True\<rparr>"

definition TargetId_Add :: "u64 \<Rightarrow> target_column \<Rightarrow> target_column" where
  "TargetId_Add tid c =
    (if gc_first c then c\<lparr>gc_first_id := tid, gc_last_id := tid, gc_first := False, gc_count := gc_count c + 1\<rparr>
     else c\<lparr>gc_encoded := gc_encoded c @ EncodeVarUint64 (ZigZagEncode (tid - gc_last_id c)), gc_last_id := tid,
            gc_count := gc_count c + 1\<rparr>)"

definition TargetId_Finish :: "target_column \<Rightarrow> u8 list" where
  "TargetId_Finish c = le_bytes 8 (gc_first_id c) @ gc_encoded c"

definition TargetId_Reset :: "target_column \<Rightarrow> target_column" where
  "TargetId_Reset c = TargetIdColumn_new"

function target_scan :: "nat \<Rightarrow> u8 list \<Rightarrow> u64 \<Rightarrow> nat \<Rightarrow> u64" where
  "target_scan idx bs current i =
    (if bs = [] \<or> idx < i then current
     else case DecodeVarUint64 bs of
         (None, _) \<Rightarrow> current
       | (Some v, rest) \<Rightarrow>
           (let current' = current + ZigZagDecode v
            in if i = idx then current' else target_scan idx rest current' (i + 1)))"
  by pat_completeness auto
termination
  by (relation "measure (\<lambda>(_, bs, _, _). length bs)") (auto dest: DecodeVar_shorter)

declare target_scan.simps [simp del]

definition TargetId_Get :: "nat \<Rightarrow> fixed_decoder \<Rightarrow> u64" where
  "TargetId_Get idx d =
    (if fd_count d \<le> idx then 0 else if idx = 0 then le_word (take 8 (fd_data d))
     else target_scan idx (drop 8 (fd_data d)) (le_word (take 8 (fd_data d))) 1)"

subsection \<open>Sequence numbers: runs of zeros\<close>

record sequence_column =
  sc_last_seq :: u16
  sc_zero_count :: u32
  sc_count :: nat
  sc_encoded :: "u8 list"
  sc_all_zero :: bool
  sc_first :: bool

definition SequenceColumn_new :: sequence_column where
  "SequenceColumn_new = \<lparr>sc_last_seq = 0, sc_zero_count = 0, sc_count = 0, sc_encoded = [], sc_all_zero = True, sc_first = True\<rparr>"

definition FlushZeros :: "sequence_column \<Rightarrow> sequence_column" where
  "FlushZeros c =
    (if 0 < sc_zero_count c
     then c\<lparr>sc_encoded := sc_encoded c @ [0xFF, 0xFF] @ EncodeVarUint64 (ucast (sc_zero_count c)), sc_zero_count := 0\<rparr> else c)"

definition Sequence_Add :: "u16 \<Rightarrow> sequence_column \<Rightarrow> sequence_column" where
  "Sequence_Add seq c0 =
    (let c = (if seq \<noteq> 0 then c0\<lparr>sc_all_zero := False\<rparr> else c0)
     in if sc_first c then c\<lparr>sc_last_seq := seq, sc_first := False, sc_count := sc_count c + 1\<rparr>
        else let c1 = (if seq = 0 then c\<lparr>sc_zero_count := sc_zero_count c + 1\<rparr>
                       else let c2 = FlushZeros c in c2\<lparr>sc_encoded := sc_encoded c2 @ EncodeVarUint16 seq\<rparr>)
             in c1\<lparr>sc_last_seq := seq, sc_count := sc_count c1 + 1\<rparr>)"

definition Sequence_Finish :: "sequence_column \<Rightarrow> u8 list \<times> sequence_column" where
  "Sequence_Finish c = (let c1 = FlushZeros c in (if sc_all_zero c1 then [] else sc_encoded c1, c1))"

definition Sequence_Reset :: "sequence_column \<Rightarrow> sequence_column" where
  "Sequence_Reset c = SequenceColumn_new"

record sequence_decoder =
  sd_data :: "u8 list"
  sd_count :: nat
  sd_all_zero :: bool

function count_sequences :: "u8 list \<Rightarrow> nat" where
  "count_sequences bs =
    (if bs = [] then 0
     else if 2 \<le> length bs \<and> take 2 bs = [0xFF, 0xFF] then
       (case DecodeVarUint64 (drop 2 bs) of (None, _) \<Rightarrow> 0 | (Some n, rest) \<Rightarrow> (unat n + count_sequences rest) mod 2 ^ 64)
     else (case DecodeVarUint16 bs of (None, _) \<Rightarrow> 0 | (Some _, rest) \<Rightarrow> (1 + count_sequences rest) mod 2 ^ 64))"
  by pat_completeness auto
termination
  by (relation "measure length")
    (auto dest: DecodeVar16_shorter dest!: DecodeVar_length)

declare count_sequences.simps [simp del]

definition SequenceDecoder_Init :: "u8 list \<Rightarrow> bool \<Rightarrow> sequence_decoder" where
  "SequenceDecoder_Init data all_zero =
     \<lparr>sd_data = data, sd_count = (if all_zero then 0 else count_sequences data), sd_all_zero = all_zero\<rparr>"

function sequence_scan :: "nat \<Rightarrow> u8 list \<Rightarrow> nat \<Rightarrow> u16" where
  "sequence_scan idx bs i =
    (if bs = [] then 0
     else if 2 \<le> length bs \<and> take 2 bs = [0xFF, 0xFF] then
       (case DecodeVarUint64 (drop 2 bs) of
          (None, _) \<Rightarrow> 0
        | (Some n, rest) \<Rightarrow> if idx < (i + unat n) mod 2 ^ 64 then 0 else sequence_scan idx rest ((i + unat n) mod 2 ^ 64))
     else (case DecodeVarUint16 bs of
             (None, _) \<Rightarrow> 0
           | (Some v, rest) \<Rightarrow> if i = idx then v else sequence_scan idx rest (i + 1)))"
  by pat_completeness auto
termination
  by (relation "measure (\<lambda>(_, bs, _). length bs)") (auto dest: DecodeVar16_shorter dest!: DecodeVar_length)

declare sequence_scan.simps [simp del]

definition Sequence_Get :: "nat \<Rightarrow> sequence_decoder \<Rightarrow> u16" where
  "Sequence_Get idx d =
     (if sd_all_zero d then 0 else if sd_count d \<le> idx then 0 else sequence_scan idx (sd_data d) 0)"

subsection \<open>Flags: one bit per entry\<close>

record flags_column =
  fc_bitmap :: "u8 list"
  fc_last_flags :: u8
  fc_count :: nat

definition FlagsColumn_new :: flags_column where
  "FlagsColumn_new = \<lparr>fc_bitmap = [], fc_last_flags = 0, fc_count = 0\<rparr>"

definition Flags_Add :: "u8 \<Rightarrow> flags_column \<Rightarrow> flags_column" where
  "Flags_Add flags c =
    (let byte_idx = fc_count c div 8; bit_idx = fc_count c mod 8;
         bitmap = (if length (fc_bitmap c) \<le> byte_idx then fc_bitmap c @ [0] else fc_bitmap c)
     in \<lparr>fc_bitmap = (if flags \<noteq> 0 then bitmap[byte_idx := bitmap ! byte_idx OR push_bit bit_idx 1] else bitmap),
         fc_last_flags = flags, fc_count = fc_count c + 1\<rparr>)"

definition Flags_Reset :: "flags_column \<Rightarrow> flags_column" where
  "Flags_Reset c = FlagsColumn_new"

definition FlagsDecoder_count :: "u8 list \<Rightarrow> nat" where
  "FlagsDecoder_count data = length data * 8"

definition Flags_Get :: "nat \<Rightarrow> u8 list \<Rightarrow> u8" where
  "Flags_Get idx data =
    (if FlagsDecoder_count data \<le> idx \<or> length data \<le> idx div 8 then 0
     else drop_bit (idx mod 8) (data ! (idx div 8)) AND 1)"

subsection \<open>Compression\<close>

datatype CedarCompressionType = CC_None | CC_LZ4 | CC_Zstd

text \<open>The compression libraries, which may be missing in a build: their compressors answer the compressed bytes or fail,
  the decompressors get the size of the output buffer. Sizes given to LZ4 are cast to \<open>int\<close>; its bound is not positive
  for inputs that are too large. \<open>zstd_frame_size\<close> is the content size of a frame header, if it is known.\<close>

record compression_libs =
  has_lz4 :: bool
  has_zstd :: bool
  lz4_bound :: "int \<Rightarrow> int"
  lz4_compress :: "u8 list \<Rightarrow> u8 list option"
  lz4_decompress :: "u8 list \<Rightarrow> int \<Rightarrow> u8 list option"
  zstd_compress :: "u8 list \<Rightarrow> u8 list option"
  zstd_decompress :: "u8 list \<Rightarrow> nat \<Rightarrow> u8 list option"
  zstd_frame_size :: "u8 list \<Rightarrow> nat option"

definition to_int :: "nat \<Rightarrow> int" where
  "to_int n = sint (of_nat n :: 32 word)"

fun IsSupported :: "compression_libs \<Rightarrow> CedarCompressionType \<Rightarrow> bool" where
  "IsSupported L CC_None = True"
| "IsSupported L CC_LZ4 = has_lz4 L"
| "IsSupported L CC_Zstd = has_zstd L"

text \<open>The smaller one of the compressed and the original bytes. When the compressor fails, the output parameters are
  not set: they are \<open>None\<close>.\<close>

definition keep_smaller ::
  "CedarCompressionType \<Rightarrow> u8 list \<Rightarrow> u8 list option \<Rightarrow> Status \<times> (u8 list \<times> CedarCompressionType) option" where
  "keep_smaller type input compressed =
    (case compressed of
       None \<Rightarrow> (Corruption, None)
     | Some c \<Rightarrow> (OK, Some (if length input \<le> length c then (input, CC_None) else (c, type))))"

definition Compress ::
  "compression_libs \<Rightarrow> CedarCompressionType \<Rightarrow> u8 list \<Rightarrow> Status \<times> (u8 list \<times> CedarCompressionType) option" where
  "Compress L type input =
    (if type = CC_None \<or> \<not> IsSupported L type then (OK, Some (input, CC_None))
     else if type = CC_LZ4 then
       (if lz4_bound L (to_int (length input)) \<le> 0 then (InvalidArgument, None)
        else keep_smaller CC_LZ4 input (lz4_compress L (take (nat (to_int (length input))) input)))
     else keep_smaller CC_Zstd input (zstd_compress L input))"

definition Decompress :: "compression_libs \<Rightarrow> CedarCompressionType \<Rightarrow> u8 list \<Rightarrow> nat \<Rightarrow> Status \<times> u8 list" where
  "Decompress L type input uncompressed_size =
    (if type = CC_None then (OK, input)
     else if type = CC_LZ4 \<and> has_lz4 L then
       (case lz4_decompress L (take (nat (to_int (length input))) input)
               (to_int (max uncompressed_size (length input * 4))) of
          None \<Rightarrow> (Corruption, []) | Some out \<Rightarrow> (OK, out))
     else if type = CC_Zstd \<and> has_zstd L then
       (case zstd_decompress L input (case zstd_frame_size L input of
            Some n \<Rightarrow> n | None \<Rightarrow> max uncompressed_size (length input * 4)) of
          None \<Rightarrow> (Corruption, []) | Some out \<Rightarrow> (OK, out))
     else (NotSupported, []))"

definition MaxCompressedSize :: "compression_libs \<Rightarrow> (nat \<Rightarrow> nat) \<Rightarrow> CedarCompressionType \<Rightarrow> nat \<Rightarrow> int" where
  "MaxCompressedSize L zstd_bound type n =
    (if type = CC_LZ4 \<and> has_lz4 L then lz4_bound L (to_int n)
     else if type = CC_Zstd \<and> has_zstd L then int (zstd_bound n) else int n)"

fun TypeName :: "CedarCompressionType \<Rightarrow> string" where
  "TypeName CC_None = ''none''"
| "TypeName CC_LZ4 = ''lz4''"
| "TypeName CC_Zstd = ''zstd''"

subsection \<open>Block statistics\<close>

record block_stats =
  min_entity_id :: u64
  max_entity_id :: u64
  min_timestamp :: u64
  max_timestamp :: u64
  null_count :: u32
  distinct_count :: u32

definition BlockStats_EncodeTo :: "block_stats \<Rightarrow> u8 list" where
  "BlockStats_EncodeTo b =
     le_bytes 8 (min_entity_id b) @ le_bytes 8 (max_entity_id b) @ le_bytes 8 (min_timestamp b) @
     le_bytes 8 (max_timestamp b) @ le_bytes 4 (null_count b) @ le_bytes 4 (distinct_count b)"

definition BlockStats_DecodeFrom :: "u8 list \<Rightarrow> (block_stats \<times> u8 list) option" where
  "BlockStats_DecodeFrom input =
    (if length input < 40 then None
     else Some (\<lparr>min_entity_id = le_word (take 8 input), max_entity_id = le_word (take 8 (drop 8 input)),
                 min_timestamp = le_word (take 8 (drop 16 input)), max_timestamp = le_word (take 8 (drop 24 input)),
                 null_count = le_word (take 4 (drop 32 input)), distinct_count = le_word (take 4 (drop 36 input))\<rparr>,
                drop 40 input))"

subsection \<open>Descriptors\<close>

record descriptor_column =
  dcol_data :: "u8 list"
  dcol_count :: nat

definition DescriptorColumn_new :: descriptor_column where
  "DescriptorColumn_new = \<lparr>dcol_data = [], dcol_count = 0\<rparr>"

definition DescriptorColumn_Add :: "descriptor \<Rightarrow> descriptor_column \<Rightarrow> descriptor_column" where
  "DescriptorColumn_Add d c = c\<lparr>dcol_data := dcol_data c @ Descriptor_Encode d, dcol_count := dcol_count c + 1\<rparr>"

text \<open>The status of the compressor is not looked at; \<open>None\<close> is the case that it left its outputs unset.\<close>

definition DescriptorColumn_Finish ::
  "compression_libs \<Rightarrow> CedarCompressionType \<Rightarrow> descriptor_column \<Rightarrow> (u8 list \<times> CedarCompressionType) option" where
  "DescriptorColumn_Finish L type c =
    (if type = CC_LZ4 \<or> type = CC_Zstd then snd (Compress L type (dcol_data c)) else Some (dcol_data c, CC_None))"

definition DescriptorColumn_Reset :: "descriptor_column \<Rightarrow> descriptor_column" where
  "DescriptorColumn_Reset c = DescriptorColumn_new"

record descriptor_decoder =
  ddec_uncompressed :: "u8 list"
  ddec_count :: nat

definition DescriptorDecoder_new :: descriptor_decoder where
  "DescriptorDecoder_new = \<lparr>ddec_uncompressed = [], ddec_count = 0\<rparr>"

definition DescriptorDecoder_Init ::
  "compression_libs \<Rightarrow> u8 list \<Rightarrow> CedarCompressionType \<Rightarrow> descriptor_decoder \<Rightarrow> descriptor_decoder option" where
  "DescriptorDecoder_Init L data type d =
    (if type = CC_LZ4 \<or> type = CC_Zstd then
       (case Decompress L type data (ddec_count d * 8) of
          (s, out) \<Rightarrow> if s = OK then Some \<lparr>ddec_uncompressed = out, ddec_count = length out div 8\<rparr> else None)
     else Some \<lparr>ddec_uncompressed = data, ddec_count = length data div 8\<rparr>)"

definition DescriptorDecoder_Get :: "nat \<Rightarrow> descriptor_decoder \<Rightarrow> descriptor" where
  "DescriptorDecoder_Get idx d =
    (if ddec_count d \<le> idx \<or> length (ddec_uncompressed d) < idx * 8 + 8 then Descriptor_default
     else case Descriptor_Decode (take 8 (drop (idx * 8) (ddec_uncompressed d))) of
         Some v \<Rightarrow> v | None \<Rightarrow> Descriptor_default)"


subsection \<open>Numbers read back\<close>

lemma var_byte:
  fixes v :: u64
  defines "b \<equiv> 0x80 OR (ucast v AND 0x7F) :: u8"
  shows "b AND 0x80 \<noteq> 0" "ucast (b AND 0x7F) = take_bit 7 v"
proof -
  have "bit (b AND 0x80) 7" by (simp add: b_def bit_simps)
  then show "b AND 0x80 \<noteq> 0" by force
  have m: "(0x7F :: u8) = mask 7" by (simp add: mask_eq_exp_minus_1)
  have "b AND 0x7F = take_bit 7 (ucast v)"
    unfolding b_def m by (rule bit_eqI) (auto simp: bit_simps less_Suc_eq numeral_eq_Suc)
  then show "ucast (b AND 0x7F) = take_bit 7 v"
    by (simp only:) (auto simp: bit_eq_iff bit_simps)
qed

lemma var_last_byte:
  fixes v :: u64
  assumes "v < 0x80"
  shows "(ucast v :: u8) AND 0x80 = 0" "ucast ((ucast v :: u8) AND 0x7F) = v"
proof -
  have m: "(0x7F :: u8) = mask 7" by (simp add: mask_eq_exp_minus_1)
  have t: "take_bit 7 v = v" using assms
    by (simp add: word_unat_eq_iff unsigned_take_bit_eq take_bit_nat_eq_self word_less_nat_alt)
  then have b: "bit v n \<Longrightarrow> n < 7" for n by (metis bit_take_bit_iff)
  have b8: "bit v n \<Longrightarrow> n < 8" for n using b [of n] by linarith
  show "ucast ((ucast v :: u8) AND 0x7F) = v"
    unfolding m using b b8 by (auto simp: bit_eq_iff bit_simps)
  have "\<not> bit v 7" using b by blast
  moreover have "bit (0x80 :: u8) n \<Longrightarrow> n = 7" for n using bit_exp_iff [where 'a = u8, of 7 n] by simp
  ultimately show "(ucast v :: u8) AND 0x80 = 0" by (intro bit_eqI) (auto simp: bit_simps)
qed

lemma decode_var_encode:
  "unat v < 2 ^ (64 - s) \<Longrightarrow> s < 64 \<Longrightarrow>
   decode_var r s (EncodeVarUint64 v @ rest) = (Some (r OR push_bit s v), rest)"
proof (induction v arbitrary: r s rule: EncodeVarUint64.induct)
  case (1 v)
  show ?case
  proof (cases "0x80 \<le> v")
    case True
    then have "128 < (2 :: nat) ^ (64 - s)" using 1(2) by (simp add: word_le_nat_alt)
    then have "2 ^ 7 < (2 :: nat) ^ (64 - s)" by simp
    then have s: "s + 7 < 64" by (simp only: power_strict_increasing_iff)
    have "unat (drop_bit 7 v) = unat v div 2 ^ 7" by (simp add: unsigned_drop_bit_eq drop_bit_eq_div unat_div)
    also have "\<dots> < 2 ^ (64 - (s + 7))"
    proof -
      have "64 - s = 64 - (s + 7) + 7" using s by simp
      then have "unat v < 2 ^ (64 - (s + 7)) * 2 ^ 7" using 1(2) by (metis power_add)
      then show ?thesis by (rule less_mult_imp_div_less)
    qed
    finally have "decode_var (r OR push_bit s (take_bit 7 v)) (s + 7) (EncodeVarUint64 (drop_bit 7 v) @ rest) =
        (Some (r OR push_bit s (take_bit 7 v) OR push_bit (s + 7) (drop_bit 7 v)), rest)"
      using 1(1) [OF True _ s] by (simp add: or.assoc)
    moreover have "push_bit s (take_bit 7 v) OR push_bit (s + 7) (drop_bit 7 v) = push_bit s v"
    proof (rule bit_eqI)
      fix n
      have "\<not> n - s < 7 \<Longrightarrow> 7 + (n - (s + 7)) = n - s" by simp
      then show "bit (push_bit s (take_bit 7 v) OR push_bit (s + 7) (drop_bit 7 v)) n = bit (push_bit s v) n"
        by (cases "n - s < 7") (auto simp: bit_simps)
    qed
    ultimately show ?thesis
      using True s by (subst EncodeVarUint64.simps) (simp add: Let_def var_byte or.assoc)
  next
    case False
    then have "v < 0x80" by simp
    then show ?thesis using False by (subst EncodeVarUint64.simps) (simp add: Let_def var_last_byte)
  qed
qed

lemma DecodeVar_Encode [simp]: "DecodeVarUint64 (EncodeVarUint64 v @ rest) = (Some v, rest)"
  using decode_var_encode [of v 0 0 rest] by (simp add: DecodeVarUint64_def unsigned_less [of v, simplified])

lemma DecodeVar_Encode_Nil [simp]: "DecodeVarUint64 (EncodeVarUint64 v) = (Some v, [])"
  using DecodeVar_Encode [of v "[]"] by simp

lemma EncodeVar_not_Nil [simp]: "EncodeVarUint64 v \<noteq> []"
  by (subst EncodeVarUint64.simps) simp

lemma ZigZag_roundtrip [simp]: "ZigZagDecode (ZigZagEncode v) = v"
proof (rule bit_eqI)
  fix n assume n: "possible_bit TYPE(u64) n"
  have e: "bit (ZigZagEncode v) k \<longleftrightarrow> k < 64 \<and> ((0 < k \<and> bit v (k - 1)) \<noteq> bit v 63)" for k
    unfolding ZigZagEncode_def bit_xor_iff bit_push_bit_iff by (cases k) (auto simp: bit_signed_drop_bit_iff dest: bit_imp_le_length)
  have "odd (ZigZagEncode v) \<longleftrightarrow> bit v 63" using e [of 0] by (simp add: bit_0)
  then have "- (ZigZagEncode v AND 1) = (if bit v 63 then - 1 else 0)" by (auto simp: and_one_eq mod2_eq_if)
  then have "bit (ZigZagDecode (ZigZagEncode v)) n \<longleftrightarrow> bit (ZigZagEncode v) (Suc n) \<noteq> bit v 63"
    using n by (simp add: ZigZagDecode_def bit_simps)
  then show "bit (ZigZagDecode (ZigZagEncode v)) n = bit v n"
    using n e [of "Suc n"] by (cases "n = 63") auto
qed

lemma ZigZagEncode_0 [simp]: "ZigZagEncode 0 = 0" "ZigZagEncode v = 0 \<longleftrightarrow> v = 0"
proof -
  show z: "ZigZagEncode 0 = 0" by (simp add: ZigZagEncode_def)
  show "ZigZagEncode v = 0 \<longleftrightarrow> v = 0" using ZigZag_roundtrip [of v] ZigZag_roundtrip [of 0] z by metis
qed


subsection \<open>Target ids read back\<close>

text \<open>The differences an encoder in the state of the last id \<open>prev\<close> writes for \<open>xs\<close>.\<close>

fun target_bytes :: "u64 \<Rightarrow> u64 list \<Rightarrow> u8 list" where
  "target_bytes prev [] = []"
| "target_bytes prev (x # xs) = EncodeVarUint64 (ZigZagEncode (x - prev)) @ target_bytes x xs"

lemma target_fold:
  "\<not> gc_first c \<Longrightarrow> gc_encoded (fold TargetId_Add xs c) = gc_encoded c @ target_bytes (gc_last_id c) xs \<and>
   gc_first_id (fold TargetId_Add xs c) = gc_first_id c"
  by (induction xs arbitrary: c) (simp_all add: TargetId_Add_def)

lemma target_count: "count_varints (target_bytes prev xs) = length xs"
proof (induction xs arbitrary: prev)
  case Nil
  then show ?case by (simp add: count_varints.simps)
next
  case (Cons x xs)
  then show ?case by (simp add: count_varints.simps [of "_ @ _"])
qed

lemma target_scan_bytes:
  "i \<le> idx \<Longrightarrow> idx < i + length xs \<Longrightarrow> target_scan idx (target_bytes prev xs) prev i = xs ! (idx - i)"
proof (induction xs arbitrary: prev i)
  case (Cons x xs)
  then show ?case
    using Cons.IH [of "i + 1" x] by (subst target_scan.simps) (auto simp: Let_def Suc_diff_le nth_Cons')
qed simp

subsection \<open>Timestamps read back\<close>

fun timestamp_bytes :: "u64 \<Rightarrow> u64 \<Rightarrow> u64 list \<Rightarrow> u8 list" where
  "timestamp_bytes prev delta [] = []"
| "timestamp_bytes prev delta (x # xs) =
     EncodeVarUint64 (ZigZagEncode (x - prev - delta)) @ timestamp_bytes x (x - prev) xs"

lemma timestamp_fold:
  "tc_prev_ts c = Some prev \<Longrightarrow> tc_first_ts c \<noteq> None \<Longrightarrow>
   tc_encoded (fold Timestamp_Add xs c) =
     tc_encoded c @ timestamp_bytes prev (case tc_prev_delta c of None \<Rightarrow> 0 | Some d \<Rightarrow> d) xs \<and>
   tc_first_ts (fold Timestamp_Add xs c) = tc_first_ts c"
  by (induction xs arbitrary: c prev) (simp_all add: Timestamp_Add_def Let_def split: option.splits)

lemma timestamp_count: "count_varints (timestamp_bytes prev delta xs) = length xs"
proof (induction xs arbitrary: prev delta)
  case Nil
  then show ?case by (simp add: count_varints.simps)
next
  case (Cons x xs)
  then show ?case by (simp add: count_varints.simps [of "_ @ _"])
qed

lemma timestamp_scan_bytes:
  "i \<le> idx \<Longrightarrow> idx < i + length xs \<Longrightarrow> (i = 1 \<Longrightarrow> delta = 0) \<Longrightarrow> 0 < i \<Longrightarrow>
   timestamp_scan idx (timestamp_bytes prev delta xs) prev delta i = xs ! (idx - i)"
proof (induction xs arbitrary: prev delta i)
  case (Cons x xs)
  then show ?case
    using Cons.IH [of "i + 1" "x - prev" x]
    by (subst timestamp_scan.simps) (auto simp: Let_def Suc_diff_le nth_Cons')
qed simp

subsection \<open>Entity ids read back\<close>

definition run_bytes :: "nat \<Rightarrow> u8 list" where
  "run_bytes r = (if 0 < r then 0 # EncodeVarUint64 (of_nat r) else [])"

text \<open>What an encoder with the last id \<open>prev\<close> and a pending run of length \<open>r\<close> writes for \<open>xs\<close>, up to the final
  flush.\<close>

fun entity_bytes :: "u64 \<Rightarrow> nat \<Rightarrow> u64 list \<Rightarrow> u8 list" where
  "entity_bytes prev r [] = run_bytes r"
| "entity_bytes prev r (x # xs) =
    (if x = prev then entity_bytes prev (r + 1) xs
     else run_bytes r @ EncodeVarUint64 (ZigZagEncode (x - prev)) @ entity_bytes x 0 xs)"

lemma FlushRun_simps [simp]:
  "ec_base (FlushRun c) = ec_base c" "ec_last (FlushRun c) = ec_last c" "ec_count (FlushRun c) = ec_count c"
  "ec_first (FlushRun c) = ec_first c" "ec_run (FlushRun c) = 0"
  by (simp_all add: FlushRun_def word_greater_zero_iff)

lemma FlushRun_encoded [simp]: "ec_encoded (FlushRun c) = ec_encoded c @ run_bytes (unat (ec_run c))"
  by (auto simp: FlushRun_def run_bytes_def word_greater_zero_iff unat_gt_0)

lemma entity_fold:
  "\<not> ec_first c \<Longrightarrow> unat (ec_run c) + length xs < 2 ^ 32 \<Longrightarrow>
   ec_encoded (FlushRun (fold EntityId_Add xs c)) = ec_encoded c @ entity_bytes (ec_last c) (unat (ec_run c)) xs \<and>
   ec_base (fold EntityId_Add xs c) = ec_base c \<and> ec_count (fold EntityId_Add xs c) = ec_count c + length xs"
proof (induction xs arbitrary: c)
  case (Cons x xs)
  show ?case
  proof (cases "x = ec_last c")
    case True
    have "unat (ec_run c + 1) = unat (ec_run c) + 1" using Cons.prems(2) by (simp add: unat_word_ariths)
    then show ?thesis using Cons.IH [of "EntityId_Add x c"] Cons.prems True by (simp add: EntityId_Add_def)
  next
    case False
    then show ?thesis using Cons.IH [of "EntityId_Add x c"] Cons.prems by (simp add: EntityId_Add_def Let_def)
  qed
qed simp

lemma entity_scan_run:
  "0 < r \<Longrightarrow> i \<le> idx \<Longrightarrow> i + r < 2 ^ 64 \<Longrightarrow>
   entity_scan idx (run_bytes r @ rest) cur i = (if idx < i + r then cur else entity_scan idx rest cur (i + r))"
proof -
  assume a: "0 < r" "i \<le> idx" "i + r < 2 ^ 64"
  have z: "DecodeVarUint64 (0 # bs) = (Some 0, bs)" for bs by (simp add: DecodeVarUint64_def)
  have "unat (of_nat r :: u64) = r" using a by (simp add: unat_of_nat)
  then show ?thesis using a by (subst entity_scan.simps) (simp add: run_bytes_def z)
qed

lemma entity_scan_delta:
  "x \<noteq> prev \<Longrightarrow> i \<le> idx \<Longrightarrow>
   entity_scan idx (EncodeVarUint64 (ZigZagEncode (x - prev)) @ rest) prev i =
     (if i = idx then x else entity_scan idx rest x (i + 1))"
  by (subst entity_scan.simps) (simp add: Let_def)

lemma entity_scan_bytes:
  "i \<le> idx \<Longrightarrow> idx < i + r + length xs \<Longrightarrow> i + r + length xs < 2 ^ 64 \<Longrightarrow>
   entity_scan idx (entity_bytes prev r xs) prev i = (replicate r prev @ xs) ! (idx - i)"
proof (induction xs arbitrary: prev r i)
  case Nil
  then show ?case using entity_scan_run [of r i idx "[]" prev] by simp
next
  case (Cons x xs)
  show ?case
  proof (cases "x = prev")
    case True
    have "replicate r prev @ x # xs = replicate (r + 1) prev @ xs" unfolding True by (induction r) simp_all
    moreover have "entity_scan idx (entity_bytes prev (r + 1) xs) prev i = (replicate (r + 1) prev @ xs) ! (idx - i)"
      by (rule Cons.IH) (use Cons.prems in simp_all)
    moreover have "entity_bytes prev r (x # xs) = entity_bytes prev (r + 1) xs" using True by simp
    ultimately show ?thesis by (simp only:)
  next
    case False
    have d: "entity_scan idx (EncodeVarUint64 (ZigZagEncode (x - prev)) @ entity_bytes x 0 xs) prev j = (x # xs) ! (idx - j)"
      if "j \<le> idx" "idx < j + 1 + length xs" "j + 1 + length xs < 2 ^ 64" for j
      using that False Cons.IH [of "j + 1" 0 x] by (auto simp: entity_scan_delta nth_Cons' Suc_diff_le)
    show ?thesis
    proof (cases "r = 0")
      case True
      then show ?thesis using d [of i] Cons.prems False by (simp add: run_bytes_def)
    next
      case r: False
      then show ?thesis
        using d [of "i + r"] Cons.prems False by (auto simp: entity_scan_run nth_append)
    qed
  qed
qed


lemma map_upt_eq: "n = length xs \<Longrightarrow> (\<And>i. i < length xs \<Longrightarrow> f i = xs ! i) \<Longrightarrow> map f [0..<n] = xs"
  by (auto intro: nth_equalityI)

lemma le_word_take8 [simp]: "le_word (take 8 (le_bytes 8 (x :: u64) @ bs)) = x"
  by (simp add: le_word_le_bytes)

lemma target_column_read:
  assumes "xs \<noteq> []"
  shows "\<exists>d. FixedDecoder_Init (TargetId_Finish (fold TargetId_Add xs TargetIdColumn_new)) = Some d \<and>
     map (\<lambda>i. TargetId_Get i d) [0..<fd_count d] = xs"
proof -
  obtain x ys where xs: "xs = x # ys" using assms by (cases xs) auto
  have b: "TargetId_Finish (fold TargetId_Add xs TargetIdColumn_new) = le_bytes 8 x @ target_bytes x ys"
    using target_fold [of "TargetId_Add x TargetIdColumn_new" ys]
    by (simp add: xs TargetId_Finish_def TargetId_Add_def TargetIdColumn_new_def)
  define d where "d = \<lparr>fd_data = le_bytes 8 x @ target_bytes x ys, fd_count = 1 + length ys, fd_first = x\<rparr>"
  have "FixedDecoder_Init (TargetId_Finish (fold TargetId_Add xs TargetIdColumn_new)) = Some d"
    by (simp add: b FixedDecoder_Init_def target_count d_def le_word_le_bytes)
  moreover have "TargetId_Get i d = xs ! i" if "i < length xs" for i
    using that target_scan_bytes [of 1 i ys x] by (simp add: TargetId_Get_def d_def xs le_word_le_bytes nth_Cons')
  moreover have n: "fd_count d = length xs" by (simp add: d_def xs)
  ultimately show ?thesis by (intro exI [of _ d] conjI map_upt_eq) (simp_all only: n)
qed

lemma timestamp_column_read:
  assumes "xs \<noteq> []"
  shows "\<exists>d. FixedDecoder_Init (Timestamp_Finish (fold Timestamp_Add xs TimestampColumn_new)) = Some d \<and>
     map (\<lambda>i. Timestamp_Get i d) [0..<fd_count d] = xs"
proof -
  obtain x ys where xs: "xs = x # ys" using assms by (cases xs) auto
  have b: "Timestamp_Finish (fold Timestamp_Add xs TimestampColumn_new) = le_bytes 8 x @ timestamp_bytes x 0 ys"
    using timestamp_fold [of "Timestamp_Add x TimestampColumn_new" x ys]
    by (simp add: xs Timestamp_Finish_def Timestamp_Add_def TimestampColumn_new_def)
  define d where "d = \<lparr>fd_data = le_bytes 8 x @ timestamp_bytes x 0 ys, fd_count = 1 + length ys, fd_first = x\<rparr>"
  have "FixedDecoder_Init (Timestamp_Finish (fold Timestamp_Add xs TimestampColumn_new)) = Some d"
    by (simp add: b FixedDecoder_Init_def timestamp_count d_def le_word_le_bytes)
  moreover have "Timestamp_Get i d = xs ! i" if "i < length xs" for i
    using that timestamp_scan_bytes [of 1 i ys 0 x] by (simp add: Timestamp_Get_def d_def xs le_word_le_bytes nth_Cons')
  moreover have n: "fd_count d = length xs" by (simp add: d_def xs)
  ultimately show ?thesis by (intro exI [of _ d] conjI map_upt_eq) (simp_all only: n)
qed

lemma entity_column_read:
  assumes "length xs < 2 ^ 32"
  shows "\<exists>d. EntityIdDecoder_Init (fst (EntityId_Finish (fold EntityId_Add xs EntityIdColumn_new))) = Some d \<and>
     map (\<lambda>i. EntityId_Get i d) [0..<ed_count d] = xs"
proof (cases xs)
  case Nil
  then show ?thesis
    by (simp add: EntityId_Finish_def EntityIdColumn_new_def FlushRun_def EntityIdDecoder_Init_def EncodeVarUint64.simps
        DecodeVarUint64_def)
next
  case (Cons x ys)
  let ?n = "1 + length ys"
  have b: "fst (EntityId_Finish (fold EntityId_Add xs EntityIdColumn_new)) =
      EncodeVarUint64 x @ EncodeVarUint64 (of_nat ?n) @ entity_bytes x 0 ys"
    using entity_fold [of "EntityId_Add x EntityIdColumn_new" ys] assms
    by (simp add: Cons EntityId_Finish_def Let_def EntityId_Add_def EntityIdColumn_new_def)
  define d where
    "d = \<lparr>ed_data = EncodeVarUint64 x @ EncodeVarUint64 (of_nat ?n) @ entity_bytes x 0 ys, ed_count = ?n, ed_base = x\<rparr>"
  have u: "unat (of_nat ?n :: u64) = ?n" using assms by (simp add: Cons unat_of_nat del: of_nat_add of_nat_Suc)
  have l: "\<not> length (EncodeVarUint64 x @ EncodeVarUint64 (of_nat ?n) @ entity_bytes x 0 ys) < 2"
    using EncodeVar_not_Nil [of x] EncodeVar_not_Nil [of "of_nat ?n"]
    by (cases "EncodeVarUint64 x"; cases "EncodeVarUint64 (of_nat ?n)") simp_all
  have "EntityIdDecoder_Init (fst (EntityId_Finish (fold EntityId_Add xs EntityIdColumn_new))) = Some d"
    unfolding b EntityIdDecoder_Init_def if_not_P [OF l] using u by (simp add: d_def)
  moreover have "EntityId_Get i d = xs ! i" if "i < length xs" for i
    using that entity_scan_bytes [of 1 i 0 ys x] assms by (simp add: EntityId_Get_def d_def Cons nth_Cons')
  moreover have n: "ed_count d = length xs" by (simp add: d_def Cons)
  ultimately show ?thesis by (intro exI [of _ d] conjI map_upt_eq) (simp_all only: n)
qed




text \<open>An empty column of timestamps is read as one row.\<close>

lemma empty_timestamps_one_row:
  "map_option fd_count (FixedDecoder_Init (Timestamp_Finish TimestampColumn_new)) = Some 1"
  by (simp add: FixedDecoder_Init_def Timestamp_Finish_def TimestampColumn_new_def count_varints.simps)

subsection \<open>Sequence numbers read back\<close>

lemma unat_ucast_16: "unat (ucast (v :: u16) :: u64) = unat v"
  by (simp add: unsigned_ucast_eq take_bit_nat_eq_self less_trans [OF unsigned_less])

lemma DecodeVar16_Encode [simp]: "DecodeVarUint16 (EncodeVarUint16 v @ rest) = (Some v, rest)"
proof -
  have "unat (ucast v :: u64) \<le> 0xFFFF" using unsigned_less [of v, where 'a = nat] by (simp add: unat_ucast_16)
  then have "\<not> 0xFFFF < (ucast v :: u64)" by (simp add: word_less_nat_alt)
  moreover have "(ucast (ucast v :: u64) :: u16) = v" by (rule bit_eqI) (auto simp: bit_simps)
  ultimately show ?thesis by (simp add: DecodeVarUint16_def EncodeVarUint16_def)
qed

lemma EncodeVar16_not_Nil: "EncodeVarUint16 s \<noteq> []"
  by (simp add: EncodeVarUint16_def)

lemma var_byte_FF:
  fixes v :: u64
  assumes "(0x80 OR (ucast v AND 0x7F) :: u8) = 0xFF"
  shows "unat v mod 128 = 127"
proof -
  have "take_bit 7 v = ucast ((0xFF :: u8) AND 0x7F)" using var_byte(2) [of v] assms by simp
  then have "unat (take_bit 7 v) = 127" by simp
  then show ?thesis by (simp add: unsigned_take_bit_eq take_bit_eq_mod unat_mod)
qed

lemma small_not_FF: "(v :: u64) < 0x80 \<Longrightarrow> (ucast v :: u8) \<noteq> 0xFF"
  using var_last_byte(1) [of v] by auto

lemma EncodeVar_big: "0x80 \<le> v \<Longrightarrow> EncodeVarUint64 v = (0x80 OR (ucast v AND 0x7F)) # EncodeVarUint64 (drop_bit 7 v)"
  by (subst EncodeVarUint64.simps) simp

lemma EncodeVar_small: "\<not> 0x80 \<le> v \<Longrightarrow> EncodeVarUint64 v = [ucast v]"
  by (subst EncodeVarUint64.simps) simp

lemma two_FF: "take 2 (a # bs) = [0xFF, 0xFF :: u8] \<Longrightarrow> a = 0xFF \<and> (\<exists>cs. bs = 0xFF # cs)"
  by (cases bs) simp_all

lemma two_full_groups:
  assumes "(n :: nat) mod 128 = 127" "n div 128 mod 128 = 127" "128 \<le> n div 128"
  shows "0x7FFF \<le> n"
proof -
  have "n = n div 128 * 128 + 127" using div_mult_mod_eq [of n 128] assms(1) by simp
  moreover have "n div 128 = n div 128 div 128 * 128 + 127" using div_mult_mod_eq [of "n div 128" 128] assms(2) by simp
  moreover have "128 div 128 \<le> n div 128 div 128" using assms(3) by (rule div_le_mono)
  ultimately show ?thesis by simp
qed

lemma no_marker:
  assumes "(v :: u64) < 0x7FFF"
  shows "take 2 (EncodeVarUint64 v @ rest) \<noteq> [0xFF, 0xFF]"
proof
  assume FF: "take 2 (EncodeVarUint64 v @ rest) = [0xFF, 0xFF]"
  define w where "w = drop_bit 7 v"
  have w: "unat w = unat v div 128" by (simp add: w_def unsigned_drop_bit_eq drop_bit_eq_div unat_div)
  have big: "0x80 \<le> v"
  proof (rule ccontr)
    assume small: "\<not> 0x80 \<le> v"
    then show False
      using FF small_not_FF [of v] unfolding EncodeVar_small [OF small] append_Cons by (auto dest!: two_FF)
  qed
  then obtain cs where 1: "(0x80 OR (ucast v AND 0x7F) :: u8) = 0xFF" "EncodeVarUint64 w @ rest = 0xFF # cs"
    using two_FF [OF FF [unfolded EncodeVar_big [OF big] append_Cons]] unfolding w_def by blast
  have bigw: "0x80 \<le> w" using 1(2) small_not_FF [of w] EncodeVar_small [of w] by (cases "w < 0x80") (auto simp: not_le)
  have "(0x80 OR (ucast w AND 0x7F) :: u8) = 0xFF" using 1(2) EncodeVar_big [OF bigw] by simp
  from var_byte_FF [OF 1(1)] var_byte_FF [OF this] have "unat v mod 128 = 127" "unat v div 128 mod 128 = 127"
    by (simp_all only: w)
  moreover have "unat v < 0x7FFF" "128 \<le> unat v div 128"
    using assms bigw w by (simp_all add: word_less_nat_alt word_le_nat_alt)
  ultimately show False using two_full_groups by fastforce
qed

definition zeros_bytes :: "nat \<Rightarrow> u8 list" where
  "zeros_bytes r = (if 0 < r then [0xFF, 0xFF] @ EncodeVarUint64 (of_nat r) else [])"

fun sequence_bytes :: "nat \<Rightarrow> u16 list \<Rightarrow> u8 list" where
  "sequence_bytes r [] = zeros_bytes r"
| "sequence_bytes r (s # ss) =
    (if s = 0 then sequence_bytes (r + 1) ss else zeros_bytes r @ EncodeVarUint16 s @ sequence_bytes 0 ss)"

lemma FlushZeros_simps [simp]:
  "sc_encoded (FlushZeros c) = sc_encoded c @ zeros_bytes (unat (sc_zero_count c))"
  "sc_zero_count (FlushZeros c) = 0" "sc_first (FlushZeros c) = sc_first c" "sc_all_zero (FlushZeros c) = sc_all_zero c"
  by (auto simp: FlushZeros_def zeros_bytes_def word_greater_zero_iff unat_gt_0)

lemma Sequence_Add_zero:
  "\<not> sc_first c \<Longrightarrow> sc_encoded (Sequence_Add 0 c) = sc_encoded c \<and> sc_zero_count (Sequence_Add 0 c) = sc_zero_count c + 1 \<and>
   \<not> sc_first (Sequence_Add 0 c) \<and> sc_all_zero (Sequence_Add 0 c) = sc_all_zero c"
  by (simp add: Sequence_Add_def)

lemma Sequence_Add_nonzero:
  "\<not> sc_first c \<Longrightarrow> s \<noteq> 0 \<Longrightarrow>
   sc_encoded (Sequence_Add s c) = sc_encoded c @ zeros_bytes (unat (sc_zero_count c)) @ EncodeVarUint16 s \<and>
   sc_zero_count (Sequence_Add s c) = 0 \<and> \<not> sc_first (Sequence_Add s c) \<and> \<not> sc_all_zero (Sequence_Add s c)"
  by (simp add: Sequence_Add_def Let_def)

lemma sequence_fold:
  "\<not> sc_first c \<Longrightarrow> unat (sc_zero_count c) + length ss < 2 ^ 32 \<Longrightarrow>
   sc_encoded (FlushZeros (fold Sequence_Add ss c)) = sc_encoded c @ sequence_bytes (unat (sc_zero_count c)) ss \<and>
   (sc_all_zero (fold Sequence_Add ss c) \<longleftrightarrow> sc_all_zero c \<and> (\<forall>s \<in> set ss. s = 0))"
proof (induction ss arbitrary: c)
  case (Cons s ss)
  show ?case
  proof (cases "s = 0")
    case True
    have u: "unat (sc_zero_count c + 1) = unat (sc_zero_count c) + 1" using Cons.prems(2) by (simp add: unat_word_ariths)
    note z = Sequence_Add_zero [OF Cons.prems(1)]
    have "sc_encoded (FlushZeros (fold Sequence_Add ss (Sequence_Add 0 c))) =
        sc_encoded (Sequence_Add 0 c) @ sequence_bytes (unat (sc_zero_count (Sequence_Add 0 c))) ss \<and>
      (sc_all_zero (fold Sequence_Add ss (Sequence_Add 0 c)) \<longleftrightarrow> sc_all_zero (Sequence_Add 0 c) \<and> (\<forall>s \<in> set ss. s = 0))"
      by (rule Cons.IH) (use z u Cons.prems(2) in simp_all)
    then show ?thesis using z u True by simp
  next
    case False
    note z = Sequence_Add_nonzero [OF Cons.prems(1) False]
    have "sc_encoded (FlushZeros (fold Sequence_Add ss (Sequence_Add s c))) =
        sc_encoded (Sequence_Add s c) @ sequence_bytes (unat (sc_zero_count (Sequence_Add s c))) ss \<and>
      (sc_all_zero (fold Sequence_Add ss (Sequence_Add s c)) \<longleftrightarrow> sc_all_zero (Sequence_Add s c) \<and> (\<forall>s \<in> set ss. s = 0))"
      by (rule Cons.IH) (use z Cons.prems(2) in simp_all)
    then show ?thesis using z False by simp
  qed
qed simp

lemma sequence_scan_zeros:
  "0 < r \<Longrightarrow> i \<le> idx \<Longrightarrow> i + r < 2 ^ 64 \<Longrightarrow>
   sequence_scan idx (zeros_bytes r @ rest) i = (if idx < i + r then 0 else sequence_scan idx rest (i + r))"
  by (subst sequence_scan.simps) (simp add: zeros_bytes_def unat_of_nat)

lemma sequence_scan_value:
  "s < 0x7FFF \<Longrightarrow> sequence_scan idx (EncodeVarUint16 s @ rest) i = (if i = idx then s else sequence_scan idx rest (i + 1))"
  using no_marker [of "ucast s" rest]
  by (subst sequence_scan.simps) (simp add: word_less_nat_alt unat_ucast_16 EncodeVarUint16_def [of s, symmetric] EncodeVar16_not_Nil)


lemma sequence_scan_bytes:
  "i \<le> idx \<Longrightarrow> idx < i + r + length ss \<Longrightarrow> i + r + length ss < 2 ^ 64 \<Longrightarrow> \<forall>s \<in> set ss. s < 0x7FFF \<Longrightarrow>
   sequence_scan idx (sequence_bytes r ss) i = (replicate r 0 @ ss) ! (idx - i)"
proof (induction ss arbitrary: r i)
  case Nil
  then show ?case using sequence_scan_zeros [of r i idx "[]"] by simp
next
  case (Cons s ss)
  show ?case
  proof (cases "s = 0")
    case True
    have "replicate r 0 @ s # ss = replicate (r + 1) 0 @ ss" unfolding True by (induction r) simp_all
    moreover have "sequence_scan idx (sequence_bytes (r + 1) ss) i = (replicate (r + 1) 0 @ ss) ! (idx - i)"
      by (rule Cons.IH) (use Cons.prems in simp_all)
    moreover have "sequence_bytes r (s # ss) = sequence_bytes (r + 1) ss" using True by simp
    ultimately show ?thesis by (simp only:)
  next
    case False
    have d: "sequence_scan idx (EncodeVarUint16 s @ sequence_bytes 0 ss) j = (s # ss) ! (idx - j)"
      if "j \<le> idx" "idx < j + 1 + length ss" "j + 1 + length ss < 2 ^ 64" for j
      using that Cons.prems(4) Cons.IH [of "j + 1" 0] by (auto simp: sequence_scan_value nth_Cons' Suc_diff_le)
    show ?thesis
    proof (cases "r = 0")
      case True
      then show ?thesis using d [of i] Cons.prems False by (simp add: zeros_bytes_def)
    next
      case r: False
      then show ?thesis
        using d [of "i + r"] Cons.prems False by (auto simp: sequence_scan_zeros nth_append)
    qed
  qed
qed

lemma count_zeros:
  "r < 2 ^ 64 \<Longrightarrow> count_sequences (zeros_bytes r @ rest) = (if r = 0 then count_sequences rest else (r + count_sequences rest) mod 2 ^ 64)"
  by (subst count_sequences.simps) (simp add: zeros_bytes_def unat_of_nat count_sequences.simps [of rest])

lemma count_value: "s < 0x7FFF \<Longrightarrow> count_sequences (EncodeVarUint16 s @ rest) = (1 + count_sequences rest) mod 2 ^ 64"
  using no_marker [of "ucast s" rest]
  by (subst count_sequences.simps)
    (simp add: word_less_nat_alt unat_ucast_16 EncodeVarUint16_def [of s, symmetric] EncodeVar16_not_Nil)

lemma count_sequence_bytes:
  "r + length ss < 2 ^ 64 \<Longrightarrow> \<forall>s \<in> set ss. s < 0x7FFF \<Longrightarrow> count_sequences (sequence_bytes r ss) = r + length ss"
proof (induction ss arbitrary: r)
  case Nil
  then show ?case using count_zeros [of r "[]"] by (simp add: count_sequences.simps [of "[]"])
next
  case (Cons s ss)
  then show ?case using Cons.IH [of "r + 1"] Cons.IH [of 0] by (simp add: count_zeros count_value)
qed

text \<open>The column of sequence numbers loses its first entry: unless all numbers are zero, the decoder of the bytes of
  the encoder, for numbers below 0x7FFF, answers the rows from the second one on, as rows from index 0.\<close>

theorem sequence_column_drops_first:
  assumes "\<forall>s \<in> set (s0 # ss). s < 0x7FFF" and "set (s0 # ss) \<noteq> {0}" and "length ss < 2 ^ 32"
    and "Sequence_Finish (fold Sequence_Add (s0 # ss) SequenceColumn_new) = (bytes, c)"
  shows "sd_count (SequenceDecoder_Init bytes (sc_all_zero c)) = length ss \<and>
    map (\<lambda>i. Sequence_Get i (SequenceDecoder_Init bytes (sc_all_zero c))) [0..<length ss] = ss"
proof -
  let ?c = "Sequence_Add s0 SequenceColumn_new"
  have c0: "\<not> sc_first ?c" "sc_encoded ?c = []" "sc_zero_count ?c = 0" "sc_all_zero ?c \<longleftrightarrow> s0 = 0"
    by (simp_all add: Sequence_Add_def SequenceColumn_new_def)
  have f: "sc_encoded (FlushZeros (fold Sequence_Add ss ?c)) = sequence_bytes 0 ss"
    "sc_all_zero (fold Sequence_Add ss ?c) \<longleftrightarrow> s0 = 0 \<and> (\<forall>s \<in> set ss. s = 0)"
    using sequence_fold [of ?c ss] c0 assms(3) by simp_all
  have z: "\<not> sc_all_zero (fold Sequence_Add ss ?c)" unfolding f(2) using assms(2) by auto
  then have b: "bytes = sequence_bytes 0 ss" "\<not> sc_all_zero c"
    using assms(4) f(1) by (auto simp: Sequence_Finish_def Let_def)
  have n: "count_sequences bytes = length ss"
    unfolding b(1) using count_sequence_bytes [of 0 ss] assms(1,3) by simp
  have "Sequence_Get i (SequenceDecoder_Init bytes False) = ss ! i" if "i < length ss" for i
    using sequence_scan_bytes [of 0 i 0 ss] that assms(1,3) n
    by (simp add: Sequence_Get_def SequenceDecoder_Init_def b(1))
  then show ?thesis
    using b(2) n by (intro conjI map_upt_eq) (simp_all add: SequenceDecoder_Init_def)
qed

theorem sequence_column_drops_first_witness:
  "\<exists>bytes c. Sequence_Finish (fold Sequence_Add [4, 0, 0, 9] SequenceColumn_new) = (bytes, c) \<and>
     sd_count (SequenceDecoder_Init bytes (sc_all_zero c)) = length [0, 0, 9 :: u16] \<and>
     map (\<lambda>i. Sequence_Get i (SequenceDecoder_Init bytes (sc_all_zero c))) [0..<length [0, 0, 9 :: u16]] = [0, 0, 9]"
proof -
  obtain bytes c where f: "Sequence_Finish (fold Sequence_Add [4, 0, 0, 9] SequenceColumn_new) = (bytes, c)"
    by (cases "Sequence_Finish (fold Sequence_Add [4, 0, 0, 9] SequenceColumn_new)")
  show ?thesis using sequence_column_drops_first [OF _ _ _ f] f by simp
qed


subsection \<open>Flags read back\<close>

lemma flags_fold:
  "length (fc_bitmap (fold Flags_Add fs FlagsColumn_new)) = (length fs + 7) div 8 \<and>
   fc_count (fold Flags_Add fs FlagsColumn_new) = length fs \<and>
   (\<forall>i < 8 * length (fc_bitmap (fold Flags_Add fs FlagsColumn_new)).
      bit (fc_bitmap (fold Flags_Add fs FlagsColumn_new) ! (i div 8)) (i mod 8) \<longleftrightarrow> i < length fs \<and> fs ! i \<noteq> 0)"
proof (induction fs rule: rev_induct)
  case Nil
  then show ?case by (simp add: FlagsColumn_new_def)
next
  case (snoc f fs)
  let ?c = "fold Flags_Add fs FlagsColumn_new"
  let ?n = "length fs"
  define bm where "bm = (if length (fc_bitmap ?c) \<le> ?n div 8 then fc_bitmap ?c @ [0] else fc_bitmap ?c)"
  have len: "length bm = (?n + 8) div 8" using snoc.IH by (auto simp: bm_def)
  have old: "bit (bm ! (i div 8)) (i mod 8) \<longleftrightarrow> i < ?n \<and> fs ! i \<noteq> 0" if "i < 8 * length bm" for i
    using snoc.IH that by (auto simp: bm_def nth_append split: if_splits)
  define nb where "nb = (if f \<noteq> 0 then bm[?n div 8 := bm ! (?n div 8) OR push_bit (?n mod 8) 1] else bm)"
  have new: "fc_bitmap (fold Flags_Add (fs @ [f]) FlagsColumn_new) = nb"
    "fc_count (fold Flags_Add (fs @ [f]) FlagsColumn_new) = ?n + 1"
    using snoc.IH by (simp_all add: Flags_Add_def [of f ?c] Let_def bm_def nb_def)
  have lnb: "length nb = length bm" by (simp add: nb_def)
  have "bit (nb ! (i div 8)) (i mod 8) \<longleftrightarrow> i < length (fs @ [f]) \<and> (fs @ [f]) ! i \<noteq> 0" if "i < 8 * length bm" for i
  proof -
    have "i = ?n \<longleftrightarrow> i div 8 = ?n div 8 \<and> i mod 8 = ?n mod 8" by (metis div_mult_mod_eq)
    moreover have "bit (push_bit (?n mod 8) 1 :: u8) (i mod 8) \<longleftrightarrow> i mod 8 = ?n mod 8"
      by (auto simp: bit_simps)
    ultimately show ?thesis
      using old [OF that] that len
      by (cases "f = 0"; cases "i div 8 = ?n div 8") (auto simp: nb_def nth_append nth_list_update bit_or_iff less_Suc_eq)
  qed
  then show ?case unfolding new lnb using len by (simp add: add.commute)
qed

lemma flags_column_read:
  "i < length fs \<Longrightarrow> Flags_Get i (fc_bitmap (fold Flags_Add fs FlagsColumn_new)) = (if fs ! i \<noteq> 0 then 1 else 0)"
proof -
  assume i: "i < length fs"
  let ?b = "fc_bitmap (fold Flags_Add fs FlagsColumn_new)"
  have "length ?b = (length fs + 7) div 8" using flags_fold by blast
  then have l: "i < 8 * length ?b" "i div 8 < length ?b" using i by auto
  then have "bit (?b ! (i div 8)) (i mod 8) \<longleftrightarrow> fs ! i \<noteq> 0" using flags_fold [of fs] i by blast
  then show ?thesis
    using l by (auto simp: Flags_Get_def FlagsDecoder_count_def and_one_eq mod2_eq_if bit_iff_odd_drop_bit)
qed

subsection \<open>Descriptors read back\<close>

lemma dcol_fold: "dcol_data (fold DescriptorColumn_Add ds c) = dcol_data c @ concat (map Descriptor_Encode ds)"
  by (induction ds arbitrary: c) (simp_all add: DescriptorColumn_Add_def)

lemma encode_all_length: "length (concat (map Descriptor_Encode ds)) = 8 * length ds"
  by (induction ds) simp_all

lemma encode_all_nth: "i < length ds \<Longrightarrow> take 8 (drop (i * 8) (concat (map Descriptor_Encode ds))) = Descriptor_Encode (ds ! i)"
proof (induction ds arbitrary: i)
  case (Cons d ds)
  then show ?case by (cases i) simp_all
qed simp

lemma descriptors_read:
  assumes "ddec_uncompressed d = concat (map Descriptor_Encode ds)" and "ddec_count d = length ds"
  shows "map (\<lambda>i. DescriptorDecoder_Get i d) [0..<ddec_count d] = ds"
  using assms by (intro map_upt_eq) (auto simp: DescriptorDecoder_Get_def encode_all_length encode_all_nth)

lemma to_int_small: "n < 2 ^ 31 \<Longrightarrow> to_int n = int n"
  by (simp add: to_int_def signed_of_nat signed_take_bit_int_eq_self)

text \<open>What the two libraries document: a decompressor gives back what was compressed when the buffer is large enough and
  fails otherwise, and a frame of Zstd has the size of its content in its header.\<close>

definition compression_laws :: "compression_libs \<Rightarrow> bool" where
  "compression_laws L \<longleftrightarrow>
    (\<forall>d c cap. lz4_compress L d = Some c \<longrightarrow> lz4_decompress L c cap = (if int (length d) \<le> cap then Some d else None)) \<and>
    (\<forall>d c cap. zstd_compress L d = Some c \<longrightarrow>
       zstd_frame_size L c = Some (length d) \<and> zstd_decompress L c cap = (if length d \<le> cap then Some d else None))"

text \<open>C33. A column of descriptors is read back in full, whatever of the compressions was asked for and chosen, with one
  exception: a column LZ4 has reduced to less than a quarter cannot be opened. The decoder does not know the number of rows
  when it sizes the output buffer, so the buffer is four times the compressed size.\<close>

theorem descriptor_column_roundtrip:
  assumes "compression_laws L" and "length ds < 2 ^ 26"
    and "DescriptorColumn_Finish L type (fold DescriptorColumn_Add ds DescriptorColumn_new) = Some (bytes, used)"
  shows "(DescriptorDecoder_Init L bytes used DescriptorDecoder_new = None \<longleftrightarrow>
            used = CC_LZ4 \<and> 4 * length bytes < 8 * length ds) \<and>
    (\<forall>d. DescriptorDecoder_Init L bytes used DescriptorDecoder_new = Some d \<longrightarrow>
       map (\<lambda>i. DescriptorDecoder_Get i d) [0..<ddec_count d] = ds)"
proof -
  let ?x = "concat (map Descriptor_Encode ds)"
  let ?I = "DescriptorDecoder_Init L bytes used DescriptorDecoder_new"
  let ?d = "\<lparr>ddec_uncompressed = ?x, ddec_count = length ds\<rparr>"
  have x: "dcol_data (fold DescriptorColumn_Add ds DescriptorColumn_new) = ?x"
    by (simp add: dcol_fold DescriptorColumn_new_def)
  have len: "length ?x = 8 * length ds" "length ?x < 2 ^ 29" using assms(2) by (simp_all add: encode_all_length)
  have f: "used = CC_None \<and> bytes = ?x \<or>
      used = CC_LZ4 \<and> has_lz4 L \<and> lz4_compress L ?x = Some bytes \<and> length bytes < length ?x \<or>
      used = CC_Zstd \<and> has_zstd L \<and> zstd_compress L ?x = Some bytes"
    using assms(3) len(2) unfolding DescriptorColumn_Finish_def x
    by (cases type) (auto simp: Compress_def keep_smaller_def to_int_small split: option.splits if_splits)
  have r: "?I = (if used = CC_LZ4 \<and> 4 * length bytes < 8 * length ds then None else Some ?d)"
  proof -
    consider "used = CC_None" "bytes = ?x"
      | "used = CC_LZ4" "has_lz4 L" "lz4_compress L ?x = Some bytes" "length bytes < length ?x"
      | "used = CC_Zstd" "has_zstd L" "zstd_compress L ?x = Some bytes" using f by blast
    then show ?thesis
    proof cases
      case 1
      then show ?thesis using len by (simp add: DescriptorDecoder_Init_def)
    next
      case 2
      then have "lz4_decompress L bytes cap = (if int (length ?x) \<le> cap then Some ?x else None)" for cap
        using assms(1) by (simp add: compression_laws_def)
      moreover have "to_int (length bytes) = int (length bytes)" using 2(4) len(2) by (simp add: to_int_small)
      moreover have "int (length ?x) \<le> to_int (length bytes * 4) \<longleftrightarrow> 8 * length ds \<le> 4 * length bytes"
        using 2(4) len by (simp add: to_int_small) linarith
      ultimately show ?thesis
        using 2 len by (simp add: DescriptorDecoder_Init_def Decompress_def DescriptorDecoder_new_def not_le)
    next
      case 3
      then show ?thesis
        using assms(1) len by (simp add: compression_laws_def DescriptorDecoder_Init_def Decompress_def)
    qed
  qed
  have "map (\<lambda>i. DescriptorDecoder_Get i ?d) [0..<ddec_count ?d] = ds" by (rule descriptors_read) simp_all
  then show ?thesis using r by (auto split: if_splits)
qed


text \<open>A library that compresses runs of one byte, as an instance of the laws.\<close>

definition run_libs :: compression_libs where
  "run_libs = \<lparr>has_lz4 = True, has_zstd = False, lz4_bound = (\<lambda>n. n + 1),
     lz4_compress = (\<lambda>d. if 2 < length d \<and> length d < 256 \<and> d = replicate (length d) (hd d)
       then Some [of_nat (length d), hd d] else None),
     lz4_decompress = (\<lambda>c cap. if length c = 2 \<and> int (unat (c ! 0)) \<le> cap then Some (replicate (unat (c ! 0)) (c ! 1)) else None),
     zstd_compress = (\<lambda>d. None), zstd_decompress = (\<lambda>c cap. None), zstd_frame_size = (\<lambda>c. None)\<rparr>"

lemma run_libs_laws: "compression_laws run_libs"
  by (auto simp: compression_laws_def run_libs_def unsigned_of_nat take_bit_nat_eq_self split: if_splits)

lemma run_libs_column:
  "DescriptorColumn_Finish run_libs CC_LZ4 (fold DescriptorColumn_Add [0, 0] DescriptorColumn_new) = Some ([16, 0], CC_LZ4)"
proof -
  have z: "Descriptor_Encode 0 = replicate 8 0" by code_simp
  have "dcol_data (fold DescriptorColumn_Add [0, 0] DescriptorColumn_new) = replicate 16 0"
    unfolding dcol_fold by (simp add: z DescriptorColumn_new_def numeral_eq_Suc)
  moreover have "lz4_compress run_libs (replicate 16 0) = Some [16, 0]" by (simp add: run_libs_def)
  ultimately show ?thesis
    by (simp add: DescriptorColumn_Finish_def Compress_def keep_smaller_def to_int_small)
      (simp add: run_libs_def)
qed

theorem descriptor_column_roundtrip_witness:
  "compression_laws run_libs \<and>
   DescriptorColumn_Finish run_libs CC_LZ4 (fold DescriptorColumn_Add [0, 0] DescriptorColumn_new) = Some ([16, 0], CC_LZ4) \<and>
   DescriptorDecoder_Init run_libs [16, 0] CC_LZ4 DescriptorDecoder_new = None"
  using descriptor_column_roundtrip [OF run_libs_laws _ run_libs_column] run_libs_laws run_libs_column by simp

text \<open>The statistics of a block come back as they were written.\<close>

lemma BlockStats_roundtrip: "BlockStats_DecodeFrom (BlockStats_EncodeTo b @ rest) = Some (b, rest)"
  by (simp add: BlockStats_DecodeFrom_def BlockStats_EncodeTo_def le_word_le_bytes)

end
