(* ===== verification/Id_Allocation.thy ===== *)
theory Id_Allocation
  imports Prelude
begin

text \<open>
  Identifier and timestamp allocation: the Snowflake generator (\<open>src/include/cedar/common/id_generator.h\<close>) and the
  sharded allocators of timestamps and transaction ids
  (\<open>src/include/cedar/transaction/sharded_timestamp_allocator.h\<close>,
  \<open>src/src/transaction/sharded_timestamp_allocator.cc\<close>). The functions are the calls of one thread, whose atomic
  operations succeed; the step relations below interleave the loads, exchanges and stores of several threads. Clock
  readings are an input: the \<open>n\<close>-th reading is \<open>clock n\<close>.
\<close>

subsection \<open>Snowflake ids\<close>

definition kMaxNodeId :: u64 where "kMaxNodeId = 1023"
definition kMaxSequence :: u64 where "kMaxSequence = 4095"
definition kEpoch :: u64 where "kEpoch = 1704067200000"

record id_gen =
  ig_node :: u64
  ig_sequence :: u64
  ig_last :: u64

definition IdGenerator_new :: "u16 \<Rightarrow> id_gen option" where
  "IdGenerator_new node_id =
     (if kMaxNodeId < ucast node_id then None
      else Some \<lparr>ig_node = ucast node_id AND kMaxNodeId, ig_sequence = 0, ig_last = 0\<rparr>)"

definition ComposeId :: "u64 \<Rightarrow> u64 \<Rightarrow> u64 \<Rightarrow> u64" where
  "ComposeId ts node seq = push_bit 22 (ts AND mask 41) OR push_bit 12 node OR seq"

definition ExtractTimestamp :: "u64 \<Rightarrow> u64" where
  "ExtractTimestamp i = drop_bit 22 i + kEpoch"

definition ExtractNodeId :: "u64 \<Rightarrow> u16" where
  "ExtractNodeId i = ucast (drop_bit 12 i AND kMaxNodeId)"

definition ExtractSequence :: "u64 \<Rightarrow> u16" where
  "ExtractSequence i = ucast (i AND kMaxSequence)"

text \<open>The loop of \<open>WaitNextMillis\<close>, from reading \<open>n\<close> on; it answers the first later time and the number of the next
  reading.\<close>

partial_function (option) WaitNextMillis :: "(nat \<Rightarrow> u64) \<Rightarrow> nat \<Rightarrow> u64 \<Rightarrow> (u64 \<times> nat) option" where
  [code]: "WaitNextMillis clock n last_ts =
     (if clock n \<le> last_ts then WaitNextMillis clock (Suc n) last_ts else Some (clock n, Suc n))"

text \<open>The time and sequence number chosen for a reading \<open>ts\<close>, when the generator was found at \<open>prev\<close> and \<open>seq\<close>.\<close>

definition choose_slot :: "(nat \<Rightarrow> u64) \<Rightarrow> nat \<Rightarrow> u64 \<Rightarrow> u64 \<Rightarrow> u64 \<Rightarrow> (u64 \<times> u64 \<times> nat) option" where
  "choose_slot clock n ts prev seq =
    (if ts = prev then
       (let seq' = (seq + 1) AND kMaxSequence
        in if seq' = 0 then map_option (\<lambda>(t, m). (t, 0, m)) (WaitNextMillis clock n prev) else Some (ts, seq', n))
     else if prev < ts then Some (ts, 0, n)
     else map_option (\<lambda>(t, m). (t, 0, m)) (WaitNextMillis clock n prev))"

definition NextId :: "(nat \<Rightarrow> u64) \<Rightarrow> nat \<Rightarrow> id_gen \<Rightarrow> (u64 \<times> nat \<times> id_gen) option" where
  "NextId clock n g =
     map_option (\<lambda>(ts, seq, m). (ComposeId ts (ig_node g) seq, m, g\<lparr>ig_last := ts, ig_sequence := seq\<rparr>))
       (choose_slot clock (Suc n) (clock n) (ig_last g) (ig_sequence g))"

text \<open>\<open>k\<close> calls one after the other; \<open>None\<close> if one of them never returns.\<close>

fun next_ids :: "(nat \<Rightarrow> u64) \<Rightarrow> nat \<Rightarrow> nat \<Rightarrow> id_gen \<Rightarrow> u64 list option" where
  "next_ids clock 0 n g = Some []"
| "next_ids clock (Suc k) n g =
     (case NextId clock n g of
        None \<Rightarrow> None
      | Some (i, m, g') \<Rightarrow> map_option (\<lambda>is. i # is) (next_ids clock k m g'))"

subsection \<open>Sharded timestamps\<close>

record shard =
  sh_next :: u64
  sh_end :: u64
  sh_allocated :: u64

record ts_allocator =
  ta_global_next :: u64
  ta_shards :: "shard list"
  ta_batch_size :: u32
  ta_refills :: u64

definition RefillShard :: "nat \<Rightarrow> ts_allocator \<Rightarrow> ts_allocator" where
  "RefillShard i a =
    (let start = ta_global_next a
     in a\<lparr>ta_global_next := start + ucast (ta_batch_size a),
          ta_shards := (ta_shards a)[i := (ta_shards a ! i)\<lparr>sh_next := start, sh_end := start + ucast (ta_batch_size a)\<rparr>],
          ta_refills := ta_refills a + 1\<rparr>)"

text \<open>\<open>cores\<close> is the number of processors the library reports, 0 if it is not known.\<close>

definition shard_count :: "nat \<Rightarrow> nat \<Rightarrow> nat" where
  "shard_count cores num_shards = (if num_shards \<noteq> 0 then num_shards else if cores \<noteq> 0 then cores else 4)"

definition Shard_new :: shard where
  "Shard_new = \<lparr>sh_next = 0, sh_end = 0, sh_allocated = 0\<rparr>"

definition add_shard :: "ts_allocator \<Rightarrow> nat \<Rightarrow> ts_allocator" where
  "add_shard a i = RefillShard i (a\<lparr>ta_shards := ta_shards a @ [Shard_new]\<rparr>)"

definition TsAllocator_new :: "nat \<Rightarrow> nat \<Rightarrow> u32 \<Rightarrow> ts_allocator" where
  "TsAllocator_new cores num_shards batch =
     foldl add_shard \<lparr>ta_global_next = 1, ta_shards = [], ta_batch_size = batch, ta_refills = 0\<rparr> [0..<shard_count cores num_shards]"

text \<open>The shard of a thread, by the hash of its id.\<close>

definition GetShardIndex :: "nat \<Rightarrow> ts_allocator \<Rightarrow> nat" where
  "GetShardIndex tid a = tid mod length (ta_shards a)"

definition AllocateGlobal :: "ts_allocator \<Rightarrow> u64 \<times> ts_allocator" where
  "AllocateGlobal a = (ta_global_next a, a\<lparr>ta_global_next := ta_global_next a + 1\<rparr>)"

text \<open>One timestamp of the shard's range, if there is one left.\<close>

definition take_local :: "nat \<Rightarrow> ts_allocator \<Rightarrow> (u64 \<times> ts_allocator) option" where
  "take_local i a =
    (let s = ta_shards a ! i
     in if sh_end s \<le> sh_next s then None
        else Some (sh_next s, a\<lparr>ta_shards := (ta_shards a)[i := s\<lparr>sh_next := sh_next s + 1,
               sh_allocated := sh_allocated s + 1\<rparr>]\<rparr>))"

definition Allocate :: "nat \<Rightarrow> ts_allocator \<Rightarrow> u64 \<times> ts_allocator" where
  "Allocate tid a =
    (let i = GetShardIndex tid a in
     case take_local i a of
       Some r \<Rightarrow> r
     | None \<Rightarrow>
         (let a1 = RefillShard i a
          in case take_local i a1 of Some r \<Rightarrow> r | None \<Rightarrow> AllocateGlobal a1))"

definition AllocateBatch :: "nat \<Rightarrow> u32 \<Rightarrow> ts_allocator \<Rightarrow> u64 \<times> ts_allocator" where
  "AllocateBatch tid count a =
    (if count = 0 then (0, a)
     else if count = 1 then Allocate tid a
     else let i = GetShardIndex tid a; s = ta_shards a ! i
          in (ta_global_next a,
              a\<lparr>ta_global_next := ta_global_next a + ucast count,
                ta_shards := (ta_shards a)[i := s\<lparr>sh_allocated := sh_allocated s + ucast count\<rparr>]\<rparr>))"

definition CurrentTimestamp :: "ts_allocator \<Rightarrow> u64" where
  "CurrentTimestamp a = ta_global_next a - 1"

definition allocator_stats :: "ts_allocator \<Rightarrow> u64 \<times> u64 \<times> u32" where
  "allocator_stats a = (sum_list (map sh_allocated (ta_shards a)), ta_refills a, of_nat (length (ta_shards a)))"

datatype alloc_op = OpAllocate nat | OpBatch nat u32 | OpGlobal

text \<open>The timestamps an operation hands out, and the allocator behind it.\<close>

fun alloc_step :: "alloc_op \<Rightarrow> ts_allocator \<Rightarrow> u64 list \<times> ts_allocator" where
  "alloc_step (OpAllocate tid) a = (let (t, a') = Allocate tid a in ([t], a'))"
| "alloc_step (OpBatch tid count) a =
     (let (t, a') = AllocateBatch tid count a in (map (\<lambda>i. t + of_nat i) [0..<unat count], a'))"
| "alloc_step OpGlobal a = (let (t, a') = AllocateGlobal a in ([t], a'))"

fun alloc_run :: "alloc_op list \<Rightarrow> ts_allocator \<Rightarrow> u64 list \<times> ts_allocator" where
  "alloc_run [] a = ([], a)"
| "alloc_run (op # ops) a =
     (let (ts, a1) = alloc_step op a; (us, a2) = alloc_run ops a1 in (ts @ us, a2))"

subsection \<open>Ids of one generator increase\<close>

lemma WaitNextMillis_later: "WaitNextMillis clock n prev = Some y \<Longrightarrow> prev < fst y \<and> fst y \<in> range clock"
  by (erule WaitNextMillis.raw_induct [rotated]) (auto split: if_splits)

lemma unat_and_mask: "unat (x AND mask n) = unat x mod 2 ^ n"
  unfolding take_bit_eq_mask [symmetric] by (simp only: unsigned_take_bit_eq) (simp add: take_bit_eq_mod)

lemma kMaxSequence_mask: "kMaxSequence = mask 12"
  by (simp add: kMaxSequence_def mask_eq_exp_minus_1)

lemma next_sequence:
  assumes "seq \<le> kMaxSequence" "(seq + 1) AND kMaxSequence \<noteq> 0"
  shows "seq < (seq + 1) AND kMaxSequence" "(seq + 1) AND kMaxSequence \<le> kMaxSequence"
proof -
  have u: "unat seq \<le> 4095" using assms(1) by (simp add: kMaxSequence_def word_le_nat_alt)
  then have s: "unat (seq + 1) = unat seq + 1" by (simp add: unat_word_ariths)
  have e: "unat ((seq + 1) AND kMaxSequence) = (unat seq + 1) mod 4096"
    unfolding kMaxSequence_mask unat_and_mask s by simp
  then have "unat seq + 1 \<noteq> 4096" using assms(2) by (metis mod_self unat_eq_zero)
  then have "unat ((seq + 1) AND kMaxSequence) = unat seq + 1" using e u by simp
  then show "seq < (seq + 1) AND kMaxSequence" "(seq + 1) AND kMaxSequence \<le> kMaxSequence"
    using u by (simp_all add: word_less_nat_alt word_and_le1)
qed

lemma choose_slot_later:
  assumes "choose_slot clock n ts prev seq = Some (ts', seq', m)" "seq \<le> kMaxSequence" "ts \<in> range clock"
  shows "(prev < ts' \<or> ts' = prev \<and> seq < seq') \<and> seq' \<le> kMaxSequence \<and> ts' \<in> range clock"
  using assms next_sequence [OF assms(2)]
  by (auto simp: choose_slot_def Let_def dest!: WaitNextMillis_later split: if_splits)

lemma unat_push_or:
  fixes a b :: u64
  assumes "unat a < 2 ^ k" "unat b < 2 ^ n" "k + n \<le> 64"
  shows "unat (push_bit n a OR b) = unat a * 2 ^ n + unat b" "unat a * 2 ^ n + unat b < 2 ^ (k + n)"
proof -
  have "take_bit n b = b" using assms(2) by (simp add: word_unat_eq_iff unsigned_take_bit_eq take_bit_nat_eq_self)
  then have "bit b i \<Longrightarrow> i < n" for i by (metis bit_take_bit_iff)
  then have "push_bit n a OR b = push_bit n a + b"
    by (intro disjunctive_add [symmetric]) (auto simp: bit_simps dest: leD)
  also have "\<dots> = of_nat (unat a * 2 ^ n + unat b)" by (simp add: push_bit_eq_mult)
  finally have e: "push_bit n a OR b = of_nat (unat a * 2 ^ n + unat b)" .
  have "unat a * 2 ^ n + unat b < (unat a + 1) * 2 ^ n" using assms(2) by simp
  also have "\<dots> \<le> 2 ^ k * 2 ^ n" using assms(1) by (intro mult_right_mono) simp_all
  finally show l: "unat a * 2 ^ n + unat b < 2 ^ (k + n)" by (simp add: power_add)
  also have "(2 :: nat) ^ (k + n) \<le> 2 ^ 64" using assms(3) by (rule power_increasing) simp
  finally show "unat (push_bit n a OR b) = unat a * 2 ^ n + unat b"
    unfolding e by (simp add: unat_of_nat del: of_nat_add of_nat_mult)
qed

lemma unat_ComposeId:
  assumes "unat ts < 2 ^ 41" "unat node < 2 ^ 10" "unat seq < 2 ^ 12"
  shows "unat (ComposeId ts node seq) = unat ts * 2 ^ 22 + (unat node * 2 ^ 12 + unat seq)"
proof -
  have ts: "ts AND mask 41 = ts" using assms(1) by (simp add: word_unat_eq_iff unat_and_mask)
  note low = unat_push_or [OF assms(2,3)]
  have "unat (push_bit 12 node OR seq) < 2 ^ 22" using low by simp
  then show ?thesis
    using unat_push_or(1) [OF assms(1), of "push_bit 12 node OR seq" 22] low(1)
    by (simp add: ComposeId_def ts or.assoc)
qed

lemma ComposeId_less:
  assumes "unat ts < 2 ^ 41" "unat ts' < 2 ^ 41" "unat node < 2 ^ 10" "unat seq < 2 ^ 12" "unat seq' < 2 ^ 12"
    and "ts < ts' \<or> ts' = ts \<and> seq < seq'"
  shows "ComposeId ts node seq < ComposeId ts' node seq'"
proof -
  have "unat node * 2 ^ 12 + unat seq < 2 ^ 22" using unat_push_or(2) [OF assms(3,4)] by simp
  moreover have "unat ts < unat ts' \<Longrightarrow> (unat ts + 1) * 2 ^ 22 \<le> unat ts' * 2 ^ 22" by (intro mult_right_mono) simp_all
  ultimately show ?thesis
    using assms(6) unfolding word_less_nat_alt unat_ComposeId [OF assms(1,3,4)] unat_ComposeId [OF assms(2,3,5)]
    by auto
qed

lemma NextId_step:
  assumes "NextId clock n g = Some (i, m, g')" "ig_sequence g \<le> kMaxSequence"
  shows "i = ComposeId (ig_last g') (ig_node g) (ig_sequence g')" "ig_sequence g' \<le> kMaxSequence" "ig_node g' = ig_node g"
    "ig_last g < ig_last g' \<or> ig_last g' = ig_last g \<and> ig_sequence g < ig_sequence g'" "ig_last g' \<in> range clock"
proof -
  obtain ts seq where c: "choose_slot clock (Suc n) (clock n) (ig_last g) (ig_sequence g) = Some (ts, seq, m)"
    and g': "g' = g\<lparr>ig_last := ts, ig_sequence := seq\<rparr>" "i = ComposeId ts (ig_node g) seq"
    using assms(1) by (auto simp: NextId_def)
  from choose_slot_later [OF c assms(2)] show
    "i = ComposeId (ig_last g') (ig_node g) (ig_sequence g')" "ig_sequence g' \<le> kMaxSequence" "ig_node g' = ig_node g"
    "ig_last g < ig_last g' \<or> ig_last g' = ig_last g \<and> ig_sequence g < ig_sequence g'" "ig_last g' \<in> range clock"
    by (simp_all add: g')
qed

lemma seq_bound: "seq \<le> kMaxSequence \<Longrightarrow> unat seq < 2 ^ 12"
  by (simp add: kMaxSequence_def word_le_nat_alt)

lemma next_ids_sorted:
  assumes "next_ids clock k n g = Some is" "ig_sequence g \<le> kMaxSequence" "unat (ig_node g) < 2 ^ 10"
    "\<And>j. unat (clock j) < 2 ^ 41" "unat (ig_last g) < 2 ^ 41"
  shows "sorted_wrt (<) (ComposeId (ig_last g) (ig_node g) (ig_sequence g) # is)"
  using assms
proof (induction k arbitrary: n g "is")
  case (Suc k)
  obtain i m g' js where st: "NextId clock n g = Some (i, m, g')" "next_ids clock k m g' = Some js" "is = i # js"
    using Suc.prems(1) by (auto split: option.splits)
  note step = NextId_step [OF st(1) Suc.prems(2)]
  have l: "unat (ig_last g') < 2 ^ 41" using step(5) Suc.prems(4) by auto
  have "sorted_wrt (<) (ComposeId (ig_last g') (ig_node g') (ig_sequence g') # js)"
    using Suc.IH [OF st(2) step(2) _ Suc.prems(4) l] Suc.prems(3) step(3) by simp
  moreover have "ComposeId (ig_last g) (ig_node g) (ig_sequence g) < i"
    unfolding step(1) using ComposeId_less [OF Suc.prems(5) l Suc.prems(3) seq_bound [OF Suc.prems(2)] seq_bound [OF step(2)] step(4)] .
  ultimately show ?case using step(1,3) st(3) by (auto intro: order.strict_trans)
qed simp

subsection \<open>Timestamps of one thread at a time are unique\<close>

definition pending :: "shard \<Rightarrow> u64 set" where
  "pending s = {sh_next s..<sh_end s}"

text \<open>Below \<open>g\<close>, the ranges \<open>ps\<close> of the shards and the timestamps \<open>handed\<close> out so far are disjoint.\<close>

definition slots_ok :: "u64 \<Rightarrow> u64 set list \<Rightarrow> u64 set \<Rightarrow> bool" where
  "slots_ok g ps handed \<longleftrightarrow> handed \<subseteq> {..<g} \<and> (\<forall>i < length ps. ps ! i \<subseteq> {..<g} - handed) \<and>
     (\<forall>i < length ps. \<forall>j < length ps. i \<noteq> j \<longrightarrow> ps ! i \<inter> ps ! j = {})"

lemma nth_update_if: "xs[i := x] ! j = (if j = i \<and> i < length xs then x else xs ! j)"
  by (cases "i < length xs") (auto simp: nth_list_update list_update_beyond)

lemma slots_okD:
  assumes "slots_ok g ps handed"
  shows "x \<in> handed \<Longrightarrow> x < g" "j < length ps \<Longrightarrow> x \<in> ps ! j \<Longrightarrow> x < g" "j < length ps \<Longrightarrow> x \<in> ps ! j \<Longrightarrow> x \<notin> handed"
    "j < length ps \<Longrightarrow> k < length ps \<Longrightarrow> j \<noteq> k \<Longrightarrow> ps ! j \<inter> ps ! k = {}"
  using assms unfolding slots_ok_def by blast+

lemma slots_okI:
  assumes "\<And>x. x \<in> handed \<Longrightarrow> x < g" "\<And>x j. j < length ps \<Longrightarrow> x \<in> ps ! j \<Longrightarrow> x < g \<and> x \<notin> handed"
    "\<And>j k x. j < length ps \<Longrightarrow> k < length ps \<Longrightarrow> j \<noteq> k \<Longrightarrow> x \<in> ps ! j \<Longrightarrow> x \<in> ps ! k \<Longrightarrow> False"
  shows "slots_ok g ps handed"
  using assms unfolding slots_ok_def by blast

lemma slots_replace:
  assumes "slots_ok g ps handed" "g \<le> g'"
  shows "slots_ok g' (ps[i := {g..<g'}]) handed"
proof (rule slots_okI, unfold length_list_update nth_update_if)
  fix x assume "x \<in> handed"
  then show "x < g'" using slots_okD(1) [OF assms(1)] assms(2) by (meson order.strict_trans2)
next
  fix x j assume "j < length ps" "x \<in> (if j = i \<and> i < length ps then {g..<g'} else ps ! j)"
  then show "x < g' \<and> x \<notin> handed"
    using slots_okD(1) [OF assms(1), of x] slots_okD(2,3) [OF assms(1), of j x] assms(2)
    by (auto split: if_splits dest: leD intro: order.strict_trans2)
next
  fix j k x
  assume "j < length ps" "k < length ps" "j \<noteq> k" "x \<in> (if j = i \<and> i < length ps then {g..<g'} else ps ! j)"
    "x \<in> (if k = i \<and> i < length ps then {g..<g'} else ps ! k)"
  then show False
    using slots_okD(2) [OF assms(1), of j x] slots_okD(2) [OF assms(1), of k x] slots_okD(4) [OF assms(1), of j k]
    by (auto split: if_splits dest: leD)
qed

lemma slots_take:
  assumes "slots_ok g ps handed" "i < length ps" "x \<in> ps ! i"
  shows "slots_ok g (ps[i := ps ! i - {x}]) (insert x handed)" "x \<notin> handed"
proof -
  note ok = slots_okD [OF assms(1)]
  show "x \<notin> handed" using ok(3) assms(2,3) by blast
  show "slots_ok g (ps[i := ps ! i - {x}]) (insert x handed)"
  proof (rule slots_okI, unfold length_list_update nth_update_if)
    fix y assume "y \<in> insert x handed"
    then show "y < g" using ok(1,2) assms(2,3) by blast
  next
    fix y j assume "j < length ps" "y \<in> (if j = i \<and> i < length ps then ps ! i - {x} else ps ! j)"
    then show "y < g \<and> y \<notin> insert x handed" using ok(2,3) ok(4) [of j i] assms(2,3) by (auto split: if_splits)
  next
    fix j k y
    assume "j < length ps" "k < length ps" "j \<noteq> k" "y \<in> (if j = i \<and> i < length ps then ps ! i - {x} else ps ! j)"
      "y \<in> (if k = i \<and> i < length ps then ps ! i - {x} else ps ! k)"
    then show False using ok(4) [of j k] by (auto split: if_splits)
  qed
qed

lemma slots_fresh:
  assumes "slots_ok g ps handed" "fresh \<subseteq> {g..<g'}" "g \<le> g'"
  shows "slots_ok g' ps (handed \<union> fresh)" "fresh \<inter> handed = {}"
proof -
  note ok = slots_okD [OF assms(1)]
  show "fresh \<inter> handed = {}" using ok(1) assms(2) by fastforce
  show "slots_ok g' ps (handed \<union> fresh)"
  proof (rule slots_okI)
    fix x assume "x \<in> handed \<union> fresh"
    then show "x < g'" using ok(1) assms(2,3) by (auto intro: order.strict_trans2)
  next
    fix x j assume "j < length ps" "x \<in> ps ! j"
    then show "x < g' \<and> x \<notin> handed \<union> fresh" using ok(2,3) [of j x] assms(2,3) by fastforce
  next
    fix j k x assume "j < length ps" "k < length ps" "j \<noteq> k" "x \<in> ps ! j" "x \<in> ps ! k"
    then show False using ok(4) by blast
  qed
qed

definition alloc_ok :: "ts_allocator \<Rightarrow> u64 set \<Rightarrow> bool" where
  "alloc_ok a handed \<longleftrightarrow> slots_ok (ta_global_next a) (map pending (ta_shards a)) handed"

lemma word_add_le: "unat g + unat n < 2 ^ 64 \<Longrightarrow> (g :: u64) \<le> g + n"
  by (simp add: word_le_nat_alt unat_word_ariths)

lemma word_succ_le:
  assumes "(a :: u64) < b"
  shows "a + 1 \<le> x \<longleftrightarrow> a < x"
proof -
  have "unat a < unat b" "unat b < 2 ^ 64"
    using assms unsigned_less [of b, where 'a = nat] by (simp_all add: word_less_nat_alt)
  then have "unat (a + 1) = unat a + 1" by (simp add: unat_word_ariths)
  then show ?thesis by (simp add: word_le_nat_alt word_less_nat_alt Suc_le_eq)
qed

lemma unat_ucast_32: "unat (ucast (v :: u32) :: u64) = unat v"
  by (simp add: unsigned_ucast_eq take_bit_nat_eq_self less_trans [OF unsigned_less])

lemma alloc_ok_refill:
  assumes "alloc_ok a handed" "unat (ta_global_next a) + unat (ta_batch_size a) < 2 ^ 64"
  shows "alloc_ok (RefillShard i a) handed"
proof -
  let ?g = "ta_global_next a" and ?b = "ucast (ta_batch_size a) :: u64"
  have "?g \<le> ?g + ?b" using assms(2) by (intro word_add_le) (simp add: unat_ucast_32)
  from slots_replace [OF assms(1) [unfolded alloc_ok_def] this, of i] show ?thesis
    by (simp add: alloc_ok_def RefillShard_def Let_def map_update pending_def)
qed

lemma alloc_ok_take:
  assumes "alloc_ok a handed" "take_local i a = Some (t, a')" "i < length (ta_shards a)"
  shows "alloc_ok a' (insert t handed)" "t \<notin> handed"
proof -
  let ?s = "ta_shards a ! i"
  have t: "t = sh_next ?s" "sh_next ?s < sh_end ?s"
    and a': "a' = a\<lparr>ta_shards := (ta_shards a)[i := ?s\<lparr>sh_next := sh_next ?s + 1, sh_allocated := sh_allocated ?s + 1\<rparr>]\<rparr>"
    using assms(2) by (auto simp: take_local_def Let_def not_le split: if_splits)
  have "pending (?s\<lparr>sh_next := sh_next ?s + 1, sh_allocated := sh_allocated ?s + 1\<rparr>) = pending ?s - {t}"
    using t by (auto simp: pending_def word_succ_le [OF t(2)])
  then show "alloc_ok a' (insert t handed)" "t \<notin> handed"
    using slots_take [OF assms(1) [unfolded alloc_ok_def], of i t] t assms(3)
    by (auto simp: alloc_ok_def a' map_update pending_def)
qed

lemma alloc_ok_fresh:
  assumes "alloc_ok a handed" "unat (ta_global_next a) + unat n < 2 ^ 64" "a' = a\<lparr>ta_global_next := ta_global_next a + n\<rparr>"
    "fresh \<subseteq> {ta_global_next a..<ta_global_next a + n}"
  shows "alloc_ok a' (handed \<union> fresh)" "fresh \<inter> handed = {}"
  using slots_fresh [OF assms(1) [unfolded alloc_ok_def] assms(4) word_add_le [OF assms(2)]]
  by (simp_all add: alloc_ok_def assms(3))

lemma batch_range:
  assumes "unat g + n < 2 ^ 64"
  shows "distinct (map (\<lambda>i. g + of_nat i) [0..<n])" "set (map (\<lambda>i. g + of_nat i) [0..<n]) \<subseteq> {g..<(g :: u64) + of_nat n}"
proof -
  have u: "i \<le> n \<Longrightarrow> unat (g + of_nat i) = unat g + i" for i
    using assms by (simp add: unat_word_ariths unat_of_nat)
  show "distinct (map (\<lambda>i. g + of_nat i) [0..<n])"
    by (auto simp: distinct_map inj_on_def) (metis add_left_cancel less_imp_le u)
  show "set (map (\<lambda>i. g + of_nat i) [0..<n]) \<subseteq> {g..<g + of_nat n}"
    using u by (auto simp: word_le_nat_alt word_less_nat_alt)
qed

text \<open>The room an operation may use up of the global counter.\<close>

fun op_room :: "u32 \<Rightarrow> alloc_op \<Rightarrow> nat" where
  "op_room batch (OpAllocate tid) = unat batch + 1"
| "op_room batch (OpBatch tid count) = unat batch + 1 + unat count"
| "op_room batch OpGlobal = 1"

definition room_after :: "ts_allocator \<Rightarrow> nat \<Rightarrow> ts_allocator \<Rightarrow> bool" where
  "room_after a n a' \<longleftrightarrow> unat (ta_global_next a') \<le> unat (ta_global_next a) + n \<and> ta_batch_size a' = ta_batch_size a \<and>
     length (ta_shards a') = length (ta_shards a)"

lemma Allocate_ok:
  assumes "alloc_ok a handed" "ta_shards a \<noteq> []" "unat (ta_global_next a) + unat (ta_batch_size a) + 1 < 2 ^ 64"
    "Allocate tid a = (t, a')"
  shows "alloc_ok a' (insert t handed)" "t \<notin> handed" "room_after a (unat (ta_batch_size a) + 1) a'"
proof -
  let ?i = "GetShardIndex tid a"
  have i: "?i < length (ta_shards a)" using assms(2) by (simp add: GetShardIndex_def)
  have g: "unat (ta_global_next (RefillShard ?i a)) = unat (ta_global_next a) + unat (ta_batch_size a)"
    using assms(3) by (simp add: RefillShard_def Let_def unat_word_ariths unat_ucast_32)
  have f: "take_local j b = Some (u, b') \<Longrightarrow> room_after b 0 b'" for j b u b'
    by (auto simp: take_local_def Let_def room_after_def split: if_splits)
  note ok1 = alloc_ok_refill [OF assms(1), of ?i]
  consider "take_local ?i a = Some (t, a')"
    | "take_local ?i (RefillShard ?i a) = Some (t, a')" | "AllocateGlobal (RefillShard ?i a) = (t, a')"
    using assms(4) by (auto simp: Allocate_def Let_def split: option.splits)
  then have "alloc_ok a' (insert t handed) \<and> t \<notin> handed \<and> room_after a (unat (ta_batch_size a) + 1) a'"
  proof cases
    case 1
    then show ?thesis using alloc_ok_take [OF assms(1) _ i] f [OF 1] by (auto simp: room_after_def)
  next
    case 2
    have "?i < length (ta_shards (RefillShard ?i a))" using i by (simp add: RefillShard_def Let_def)
    from alloc_ok_take [OF ok1 2 this] f [OF 2] g assms(3) show ?thesis
      by (auto simp: room_after_def RefillShard_def Let_def)
  next
    case 3
    then show ?thesis
      using alloc_ok_fresh [OF ok1, of 1 a' "{t}"] g assms(3)
      by (auto simp: AllocateGlobal_def room_after_def word_less_nat_alt unat_word_ariths RefillShard_def Let_def)
  qed
  then show "alloc_ok a' (insert t handed)" "t \<notin> handed" "room_after a (unat (ta_batch_size a) + 1) a'" by simp_all
qed

lemma AllocateBatch_ok:
  assumes "alloc_ok a handed" "ta_shards a \<noteq> []" "unat (ta_global_next a) + unat (ta_batch_size a) + 1 + unat count < 2 ^ 64"
    "alloc_step (OpBatch tid count) a = (ts, a')"
  shows "distinct ts" "alloc_ok a' (handed \<union> set ts)" "set ts \<inter> handed = {}"
    "room_after a (unat (ta_batch_size a) + 1 + unat count) a'"
proof -
  let ?g = "ta_global_next a"
  have "distinct ts \<and> alloc_ok a' (handed \<union> set ts) \<and> set ts \<inter> handed = {} \<and>
      room_after a (unat (ta_batch_size a) + 1 + unat count) a'"
  proof (cases "count = 0 \<or> count = 1")
    case True
    then show ?thesis
      using assms Allocate_ok [OF assms(1,2), of tid]
      by (auto simp: AllocateBatch_def room_after_def split: prod.splits)
  next
    case False
    let ?i = "GetShardIndex tid a"
    have ts: "ts = map (\<lambda>i. ?g + of_nat i) [0..<unat count]"
      and a': "a' = a\<lparr>ta_global_next := ?g + ucast count, ta_shards := (ta_shards a)[?i :=
        (ta_shards a ! ?i)\<lparr>sh_allocated := sh_allocated (ta_shards a ! ?i) + ucast count\<rparr>]\<rparr>"
      using assms(4) False by (simp_all add: AllocateBatch_def Let_def)
    have c: "of_nat (unat count) = (ucast count :: u64)" by (simp add: word_unat_eq_iff unat_ucast_32 unat_of_nat)
    have r: "unat ?g + unat count < 2 ^ 64" using assms(3) by simp
    have p: "map pending (ta_shards a') = map pending (ta_shards a)"
    proof -
      have "?i < length (ta_shards a)" using assms(2) by (simp add: GetShardIndex_def)
      then have "(map pending (ta_shards a))[?i := pending (ta_shards a ! ?i)] = map pending (ta_shards a)"
        by (metis list_update_id nth_map)
      then show ?thesis by (simp add: a' map_update pending_def)
    qed
    show ?thesis
      using batch_range [OF r] slots_fresh [OF assms(1) [unfolded alloc_ok_def], of "set ts" "?g + ucast count"]
        word_add_le [of ?g "ucast count"] r
      unfolding alloc_ok_def p ts c
      by (simp add: a' unat_ucast_32 room_after_def unat_word_ariths)
  qed
  then show "distinct ts" "alloc_ok a' (handed \<union> set ts)" "set ts \<inter> handed = {}"
    "room_after a (unat (ta_batch_size a) + 1 + unat count) a'" by simp_all
qed

lemma alloc_step_ok:
  assumes "alloc_ok a handed" "ta_shards a \<noteq> []" "unat (ta_global_next a) + op_room (ta_batch_size a) op < 2 ^ 64"
    "alloc_step op a = (ts, a')"
  shows "distinct ts \<and> alloc_ok a' (handed \<union> set ts) \<and> set ts \<inter> handed = {} \<and> room_after a (op_room (ta_batch_size a) op) a'"
proof (cases op)
  case (OpAllocate tid)
  then show ?thesis
    using assms Allocate_ok [OF assms(1,2), of tid] by (auto simp: split: prod.splits)
next
  case (OpBatch tid count)
  then show ?thesis using AllocateBatch_ok [OF assms(1,2), of count tid] assms(3,4) by simp
next
  case OpGlobal
  then show ?thesis
    using assms(3,4) alloc_ok_fresh [OF assms(1), of 1 a' "set ts"]
    by (auto simp: AllocateGlobal_def room_after_def word_less_nat_alt unat_word_ariths)
qed

lemma alloc_run_ok:
  assumes "alloc_ok a handed" "ta_shards a \<noteq> []" "unat (ta_global_next a) + sum_list (map (op_room (ta_batch_size a)) ops) < 2 ^ 64"
    "alloc_run ops a = (ts, a')"
  shows "distinct ts \<and> set ts \<inter> handed = {}"
  using assms
proof (induction ops arbitrary: a handed ts)
  case (Cons op ops)
  obtain us a1 vs where st: "alloc_step op a = (us, a1)" "alloc_run ops a1 = (vs, a')" "ts = us @ vs"
    using Cons.prems(4) by (auto split: prod.splits)
  have s: "distinct us" "alloc_ok a1 (handed \<union> set us)" "set us \<inter> handed = {}" "room_after a (op_room (ta_batch_size a) op) a1"
    using alloc_step_ok [OF Cons.prems(1,2) _ st(1)] Cons.prems(3) by simp_all
  have "distinct vs \<and> set vs \<inter> (handed \<union> set us) = {}"
  proof (rule Cons.IH [OF s(2) _ _ st(2)])
    show "ta_shards a1 \<noteq> []" using s(4) Cons.prems(2) by (metis length_0_conv room_after_def)
    show "unat (ta_global_next a1) + sum_list (map (op_room (ta_batch_size a1)) ops) < 2 ^ 64"
      using s(4) Cons.prems(3) by (simp add: room_after_def)
  qed
  then show ?case using s(1,3) st(3) by auto
qed simp

lemma slots_append_empty:
  assumes "slots_ok g ps handed"
  shows "slots_ok g (ps @ [{}]) handed"
proof (rule slots_okI)
  note ok = slots_okD [OF assms]
  show "x \<in> handed \<Longrightarrow> x < g" for x by (rule ok(1))
  show "j < length (ps @ [{}]) \<Longrightarrow> x \<in> (ps @ [{}]) ! j \<Longrightarrow> x < g \<and> x \<notin> handed" for x j
    using ok(2,3) [of j x] by (auto simp: nth_append split: if_splits)
  show "j < length (ps @ [{}]) \<Longrightarrow> k < length (ps @ [{}]) \<Longrightarrow> j \<noteq> k \<Longrightarrow> x \<in> (ps @ [{}]) ! j \<Longrightarrow> x \<in> (ps @ [{}]) ! k \<Longrightarrow> False"
    for j k x using ok(4) [of j k] by (auto simp: nth_append split: if_splits)
qed

lemma add_shard_ok:
  assumes "alloc_ok a {}" "unat (ta_global_next a) + unat (ta_batch_size a) < 2 ^ 64"
  shows "alloc_ok (add_shard a i) {}" "unat (ta_global_next (add_shard a i)) = unat (ta_global_next a) + unat (ta_batch_size a)"
    "ta_batch_size (add_shard a i) = ta_batch_size a" "length (ta_shards (add_shard a i)) = Suc (length (ta_shards a))"
proof -
  have "pending Shard_new = {}" by (simp add: pending_def Shard_new_def)
  then have "alloc_ok (a\<lparr>ta_shards := ta_shards a @ [Shard_new]\<rparr>) {}"
    using slots_append_empty [OF assms(1) [unfolded alloc_ok_def]] by (simp add: alloc_ok_def)
  then show "alloc_ok (add_shard a i) {}" unfolding add_shard_def by (rule alloc_ok_refill) (use assms(2) in simp)
qed (use assms(2) in \<open>simp_all add: add_shard_def RefillShard_def Let_def unat_word_ariths unat_ucast_32\<close>)

lemma add_shards_ok:
  assumes "1 + n * unat batch < 2 ^ 64"
  defines "a0 \<equiv> \<lparr>ta_global_next = 1, ta_shards = [], ta_batch_size = batch, ta_refills = 0\<rparr>"
  shows "alloc_ok (foldl add_shard a0 [0..<n]) {} \<and> unat (ta_global_next (foldl add_shard a0 [0..<n])) = 1 + n * unat batch \<and>
    ta_batch_size (foldl add_shard a0 [0..<n]) = batch \<and> length (ta_shards (foldl add_shard a0 [0..<n])) = n"
  using assms(1)
proof (induction n)
  case 0
  then show ?case by (simp add: alloc_ok_def slots_ok_def a0_def)
next
  case (Suc n)
  have m: "Suc n * unat batch = n * unat batch + unat batch" by simp
  have le: "1 + n * unat batch < 2 ^ 64" using Suc.prems unfolding m by (rule le_less_trans [rotated]) simp
  let ?b = "foldl add_shard a0 [0..<n]"
  have b: "alloc_ok ?b {}" "unat (ta_global_next ?b) = 1 + n * unat batch" "ta_batch_size ?b = batch" "length (ta_shards ?b) = n"
    using Suc.IH [OF le] by blast+
  have "unat (ta_global_next ?b) + unat (ta_batch_size ?b) < 2 ^ 64" using Suc.prems unfolding b(2,3) m by (simp only: ac_simps)
  note new = add_shard_ok [OF b(1) this, of n]
  have "foldl add_shard a0 [0..<Suc n] = add_shard ?b n" by simp
  then show ?case unfolding m using new unfolding b by (simp only: ac_simps)
qed

text \<open>C15. Timestamps are unique: whatever thread calls whatever operation of the sharded allocator, one after the other, no
  timestamp is handed out twice, batches included, as long as the 64 bit counter does not run over.\<close>

theorem timestamps_unique:
  assumes "alloc_run ops (TsAllocator_new cores num_shards batch) = (ts, a)"
    and "1 + shard_count cores num_shards * unat batch + sum_list (map (op_room batch) ops) < 2 ^ 64"
  shows "distinct ts"
proof -
  let ?a = "TsAllocator_new cores num_shards batch"
  have n: "0 < shard_count cores num_shards" by (simp add: shard_count_def)
  have "alloc_ok ?a {} \<and> unat (ta_global_next ?a) = 1 + shard_count cores num_shards * unat batch \<and>
      ta_batch_size ?a = batch \<and> length (ta_shards ?a) = shard_count cores num_shards"
    unfolding TsAllocator_new_def by (rule add_shards_ok) (use assms(2) in simp)
  moreover from this n have "ta_shards ?a \<noteq> []" by (metis length_0_conv less_irrefl)
  ultimately show ?thesis using alloc_run_ok [of ?a "{}" ops ts a] assms by simp
qed


subsection \<open>Calls of several threads\<close>

text \<open>\<open>NextId\<close> as its atomic steps: the reading of the clock, the two loads with the choice of the slot, the exchange
  of the time, and the store of the sequence number. \<open>gc_ids\<close> collects the ids returned.\<close>

datatype gen_pc = GIdle | GLoop u64 | GLast u64 u64 | GChosen u64 u64 u64 | GStore u64 u64

record gen_conc =
  gc_gen :: id_gen
  gc_pc :: "nat \<Rightarrow> gen_pc"
  gc_ids :: "u64 list"

definition gen_thread_step :: "(nat \<Rightarrow> u64) \<Rightarrow> nat \<Rightarrow> gen_conc \<Rightarrow> gen_conc" where
  "gen_thread_step clock t c =
    (let g = gc_gen c; goto = (\<lambda>pc. c\<lparr>gc_pc := (gc_pc c)(t := pc)\<rparr>) in
     case gc_pc c t of
       GIdle \<Rightarrow> goto (GLoop (clock 0))
     | GLoop ts \<Rightarrow> goto (GLast ts (ig_last g))
     | GLast ts e \<Rightarrow>
         (case choose_slot clock 1 ts e (ig_sequence g) of
            None \<Rightarrow> c
          | Some (ts', seq', _) \<Rightarrow> goto (GChosen ts' e seq'))
     | GChosen ts e seq \<Rightarrow>
         if ig_last g = e then (goto (GStore ts seq))\<lparr>gc_gen := g\<lparr>ig_last := ts\<rparr>\<rparr> else goto (GLoop ts)
     | GStore ts seq \<Rightarrow>
         (goto GIdle)\<lparr>gc_gen := g\<lparr>ig_sequence := seq\<rparr>, gc_ids := gc_ids c @ [ComposeId ts (ig_node g) seq]\<rparr>)"

inductive gen_reach :: "id_gen \<Rightarrow> gen_conc \<Rightarrow> bool" for g where
  gen_start: "gen_reach g \<lparr>gc_gen = g, gc_pc = (\<lambda>_. GIdle), gc_ids = []\<rparr>"
| gen_any: "gen_reach g c \<Longrightarrow> gen_reach g (gen_thread_step clock t c)"

text \<open>\<open>Allocate\<close> as its atomic steps; the flag says that the shard has been refilled.\<close>

datatype alloc_pc = AIdle | ALoaded bool u64 | ACas bool u64 | ARefill | AFetched u64 | AStored u64 | APublished | AFallback

record alloc_conc =
  ac_alloc :: ts_allocator
  ac_pc :: "nat \<Rightarrow> alloc_pc"
  ac_issued :: "u64 list"

definition alloc_thread_step :: "nat \<Rightarrow> alloc_conc \<Rightarrow> alloc_conc" where
  "alloc_thread_step t c =
    (let a = ac_alloc c; i = GetShardIndex t a; s = ta_shards a ! i;
         goto = (\<lambda>pc. c\<lparr>ac_pc := (ac_pc c)(t := pc)\<rparr>);
         put = (\<lambda>s'. a\<lparr>ta_shards := (ta_shards a)[i := s']\<rparr>);
         issue = (\<lambda>x. (goto AIdle)\<lparr>ac_issued := ac_issued c @ [x]\<rparr>)
     in case ac_pc c t of
          AIdle \<Rightarrow> goto (ALoaded False (sh_next s))
        | ALoaded r l \<Rightarrow> if sh_end s \<le> l then goto (if r then AFallback else ARefill) else goto (ACas r l)
        | ACas r l \<Rightarrow>
            if sh_next s = l
            then (issue l)\<lparr>ac_alloc := put (s\<lparr>sh_next := l + 1, sh_allocated := sh_allocated s + 1\<rparr>)\<rparr>
            else goto (ALoaded r (sh_next s))
        | ARefill \<Rightarrow>
            (goto (AFetched (ta_global_next a)))\<lparr>ac_alloc := a\<lparr>ta_global_next := ta_global_next a + ucast (ta_batch_size a)\<rparr>\<rparr>
        | AFetched start \<Rightarrow> (goto (AStored start))\<lparr>ac_alloc := put (s\<lparr>sh_next := start\<rparr>)\<rparr>
        | AStored start \<Rightarrow>
            (goto APublished)\<lparr>ac_alloc := (put (s\<lparr>sh_end := start + ucast (ta_batch_size a)\<rparr>))\<lparr>ta_refills := ta_refills a + 1\<rparr>\<rparr>
        | APublished \<Rightarrow> goto (ALoaded True (sh_next s))
        | AFallback \<Rightarrow> (issue (ta_global_next a))\<lparr>ac_alloc := a\<lparr>ta_global_next := ta_global_next a + 1\<rparr>\<rparr>)"

inductive alloc_reach :: "ts_allocator \<Rightarrow> alloc_conc \<Rightarrow> bool" for a where
  alloc_start: "alloc_reach a \<lparr>ac_alloc = a, ac_pc = (\<lambda>_. AIdle), ac_issued = []\<rparr>"
| alloc_any: "alloc_reach a c \<Longrightarrow> alloc_reach a (alloc_thread_step t c)"

lemma gen_reach_fold: "gen_reach g c \<Longrightarrow> gen_reach g (fold (gen_thread_step clock) ts c)"
  by (induction ts arbitrary: c) (simp_all add: gen_any)

lemma alloc_reach_fold: "alloc_reach a c \<Longrightarrow> alloc_reach a (fold alloc_thread_step ts c)"
  by (induction ts arbitrary: c) (simp_all add: alloc_any)

text \<open>The steps of one thread alone are a call of the function.\<close>

lemma alloc_step_exhausted:
  assumes "ac_pc c t = AIdle" "s = ta_shards (ac_alloc c) ! GetShardIndex t (ac_alloc c)" "sh_end s \<le> sh_next s"
  shows "alloc_thread_step t (alloc_thread_step t c) = c\<lparr>ac_pc := (ac_pc c)(t := ARefill)\<rparr>"
  using assms by (simp add: alloc_thread_step_def Let_def)

lemma alloc_step_refill:
  assumes "ac_pc c t = ARefill" "i = GetShardIndex t (ac_alloc c)" "i < length (ta_shards (ac_alloc c))"
  shows "alloc_thread_step t (alloc_thread_step t (alloc_thread_step t (alloc_thread_step t c))) =
    c\<lparr>ac_alloc := RefillShard i (ac_alloc c), ac_pc := (ac_pc c)(t := ALoaded True (ta_global_next (ac_alloc c)))\<rparr>"
proof -
  have 1: "alloc_thread_step t (alloc_thread_step t c) =
      c\<lparr>ac_alloc := (ac_alloc c)\<lparr>ta_global_next := ta_global_next (ac_alloc c) + ucast (ta_batch_size (ac_alloc c)),
         ta_shards := (ta_shards (ac_alloc c))[i := (ta_shards (ac_alloc c) ! i)\<lparr>sh_next := ta_global_next (ac_alloc c)\<rparr>]\<rparr>,
        ac_pc := (ac_pc c)(t := AStored (ta_global_next (ac_alloc c)))\<rparr>"
    using assms by (simp add: alloc_thread_step_def Let_def GetShardIndex_def)
  show ?thesis
    unfolding 1 using assms by (simp add: alloc_thread_step_def Let_def GetShardIndex_def RefillShard_def)
qed

lemma alloc_step_take:
  assumes "ac_pc c t = ALoaded r (sh_next s)" "s = ta_shards (ac_alloc c) ! GetShardIndex t (ac_alloc c)"
    "take_local (GetShardIndex t (ac_alloc c)) (ac_alloc c) = Some (x, a')"
  shows "alloc_thread_step t (alloc_thread_step t c) =
    c\<lparr>ac_alloc := a', ac_pc := (ac_pc c)(t := AIdle), ac_issued := ac_issued c @ [x]\<rparr>"
  using assms by (auto simp: alloc_thread_step_def Let_def take_local_def split: if_splits)

lemma alloc_step_fallback:
  assumes "ac_pc c t = ALoaded True (sh_next s)" "s = ta_shards (ac_alloc c) ! GetShardIndex t (ac_alloc c)"
    "take_local (GetShardIndex t (ac_alloc c)) (ac_alloc c) = None"
  shows "alloc_thread_step t (alloc_thread_step t c) =
    c\<lparr>ac_alloc := snd (AllocateGlobal (ac_alloc c)), ac_pc := (ac_pc c)(t := AIdle),
      ac_issued := ac_issued c @ [fst (AllocateGlobal (ac_alloc c))]\<rparr>"
  using assms by (auto simp: alloc_thread_step_def Let_def take_local_def AllocateGlobal_def split: if_splits)

lemma alloc_thread_alone:
  assumes "ac_pc c t = AIdle" "ta_shards (ac_alloc c) \<noteq> []" "Allocate t (ac_alloc c) = (x, a')"
  shows "\<exists>n. (alloc_thread_step t ^^ n) c = c\<lparr>ac_alloc := a', ac_issued := ac_issued c @ [x]\<rparr>"
proof -
  let ?a = "ac_alloc c" and ?i = "GetShardIndex t (ac_alloc c)"
  have i: "?i < length (ta_shards ?a)" using assms(2) by (simp add: GetShardIndex_def)
  have pc: "(ac_pc c)(t := AIdle) = ac_pc c" using assms(1) by (simp add: fun_upd_idem)
  show ?thesis
  proof (cases "take_local ?i ?a")
    case (Some y)
    have "alloc_thread_step t c = c\<lparr>ac_pc := (ac_pc c)(t := ALoaded False (sh_next (ta_shards ?a ! ?i)))\<rparr>"
      using assms(1) by (simp add: alloc_thread_step_def Let_def)
    then have "(alloc_thread_step t ^^ 3) c = c\<lparr>ac_alloc := a', ac_issued := ac_issued c @ [x]\<rparr>"
      using alloc_step_take [of "alloc_thread_step t c" t False _ x a'] Some assms(3) pc
      by (simp add: numeral_3_eq_3 Allocate_def)
    then show ?thesis by blast
  next
    case None
    let ?b = "RefillShard ?i ?a"
    let ?d = "c\<lparr>ac_alloc := ?b, ac_pc := (ac_pc c)(t := ALoaded True (ta_global_next ?a))\<rparr>"
    have "sh_end (ta_shards ?a ! ?i) \<le> sh_next (ta_shards ?a ! ?i)"
      using None by (auto simp: take_local_def Let_def split: if_splits)
    note e = alloc_step_exhausted [OF assms(1) refl this]
    have d: "(alloc_thread_step t ^^ 6) c = ?d"
      using alloc_step_refill [of "c\<lparr>ac_pc := (ac_pc c)(t := ARefill)\<rparr>" t ?i] i e by (simp add: eval_nat_numeral)
    have idx: "GetShardIndex t ?b = ?i" by (simp add: GetShardIndex_def RefillShard_def Let_def)
    have pcd: "ac_pc ?d t = ALoaded True (sh_next (ta_shards (ac_alloc ?d) ! GetShardIndex t (ac_alloc ?d)))"
      using i idx by (simp add: RefillShard_def Let_def)
    have "alloc_thread_step t (alloc_thread_step t ?d) = c\<lparr>ac_alloc := a', ac_issued := ac_issued c @ [x]\<rparr>"
    proof (cases "take_local ?i ?b")
      case None': None
      then show ?thesis
        using alloc_step_fallback [OF pcd refl] None assms(3) idx pc by (simp add: Allocate_def Let_def)
    next
      case (Some y)
      then show ?thesis
        using alloc_step_take [OF pcd refl, of x a'] None assms(3) idx pc by (simp add: Allocate_def Let_def)
    qed
    then have "(alloc_thread_step t ^^ Suc (Suc 6)) c = c\<lparr>ac_alloc := a', ac_issued := ac_issued c @ [x]\<rparr>"
      unfolding funpow.simps comp_apply d .
    then show ?thesis by blast
  qed
qed

text \<open>C18. Concurrent calls hand out duplicates: threads that call the id generator in one millisecond can get the same id,
  because the sequence number is stored after the exchange that is to protect it, and threads that find a shard of the
  timestamp allocator used up at the same time can make it hand out a timestamp twice, because the new bounds of the range
  are stored one after the other.\<close>

theorem concurrent_calls_collide:
  "(\<exists>c. gen_reach \<lparr>ig_node = node, ig_sequence = 0, ig_last = 0\<rparr> c \<and> \<not> distinct (gc_ids c)) \<and>
   (\<exists>c. alloc_reach (TsAllocator_new cores 1 1) c \<and> \<not> distinct (ac_issued c))"
proof (intro conjI exI)
  let ?g = "fold (gen_thread_step (\<lambda>_. 5)) [0, 0, 0, 0, 0, 0, 1, 0, 1, 0, 1, 0, 1, 0, 1]
    \<lparr>gc_gen = \<lparr>ig_node = node, ig_sequence = 0, ig_last = 0\<rparr>, gc_pc = (\<lambda>_. GIdle), gc_ids = []\<rparr>"
  show "gen_reach \<lparr>ig_node = node, ig_sequence = 0, ig_last = 0\<rparr> ?g" by (rule gen_reach_fold [OF gen_start])
  show "\<not> distinct (gc_ids ?g)" by code_simp simp
next
  let ?a = "TsAllocator_new cores 1 1"
  let ?c = "fold alloc_thread_step [1, 1, 1, 0, 0, 1, 1, 0, 1, 1, 1, 1, 1, 1, 0, 1, 1, 1, 1, 1, 1]
    \<lparr>ac_alloc = ?a, ac_pc = (\<lambda>_. AIdle), ac_issued = []\<rparr>"
  have a: "?a = \<lparr>ta_global_next = 2, ta_shards = [\<lparr>sh_next = 1, sh_end = 2, sh_allocated = 0\<rparr>], ta_batch_size = 1, ta_refills = 1\<rparr>"
    by (simp add: TsAllocator_new_def shard_count_def add_shard_def RefillShard_def Shard_new_def Let_def)
  show "alloc_reach ?a ?c" by (rule alloc_reach_fold [OF alloc_start])
  show "\<not> distinct (ac_issued ?c)" unfolding a by code_simp
qed

text \<open>A call of the generator returns as soon as the clock has passed the time of the last id.\<close>

lemma WaitNextMillis_returns: "prev < clock (n + k) \<Longrightarrow> \<exists>y. WaitNextMillis clock n prev = Some y"
proof (induction k arbitrary: n)
  case 0
  then have "\<not> clock n \<le> prev" by simp
  then show ?case by (subst WaitNextMillis.simps) simp
next
  case (Suc k)
  then show ?case using Suc.IH [of "Suc n"] by (subst WaitNextMillis.simps) simp
qed

lemma NextId_returns: "ig_last g < clock (Suc n + k) \<Longrightarrow> NextId clock n g \<noteq> None"
  using WaitNextMillis_returns [of "ig_last g" clock "Suc n" k]
  by (auto simp: NextId_def choose_slot_def Let_def)

lemma ExtractNodeId_Compose:
  assumes "unat ts < 2 ^ 41" "unat node < 2 ^ 10" "seq \<le> kMaxSequence"
  shows "unat (ExtractNodeId (ComposeId ts node seq)) = unat node"
proof -
  note i = unat_ComposeId [OF assms(1,2) seq_bound [OF assms(3)]]
  have "unat (ComposeId ts node seq) div 2 ^ 12 = unat ts * 2 ^ 10 + unat node"
    unfolding i using seq_bound [OF assms(3)] by simp
  then have "unat (drop_bit 12 (ComposeId ts node seq) AND mask 10) = unat node"
    using assms(2) by (simp add: unat_and_mask unsigned_drop_bit_eq drop_bit_eq_div unat_div)
  then show ?thesis
    using assms(2) by (simp add: ExtractNodeId_def kMaxNodeId_def mask_eq_exp_minus_1 unsigned_ucast_eq take_bit_nat_eq_self)
qed

lemma next_ids_node:
  assumes "next_ids clock k n g = Some ids" "ig_sequence g \<le> kMaxSequence" "unat (ig_node g) < 2 ^ 10" "\<And>j. unat (clock j) < 2 ^ 41"
    "i \<in> set ids"
  shows "unat (ExtractNodeId i) = unat (ig_node g)"
  using assms
proof (induction k arbitrary: n g ids)
  case (Suc k)
  obtain i' m g' js where st: "NextId clock n g = Some (i', m, g')" "next_ids clock k m g' = Some js" "ids = i' # js"
    using Suc.prems(1) by (auto split: option.splits)
  note step = NextId_step [OF st(1) Suc.prems(2)]
  have "unat (ig_last g') < 2 ^ 41" using step(5) Suc.prems(4) by auto
  then have "unat (ExtractNodeId i') = unat (ig_node g)"
    unfolding step(1) by (rule ExtractNodeId_Compose [OF _ Suc.prems(3) step(2)])
  then show ?case using Suc.IH [OF st(2) step(2) _ Suc.prems(4)] Suc.prems(3,5) step(3) st(3) by auto
qed simp

text \<open>C17. The ids of one generator, called by one thread at a time, strictly increase and carry the node number, whatever
  the clock does, as long as it is in the range of 41 bits; a call returns once the clock has passed the last id.\<close>

theorem snowflake_ids_increase:
  assumes "IdGenerator_new node = Some g" "next_ids clock k n g = Some ids" "\<And>j. unat (clock j) < 2 ^ 41"
  shows "sorted_wrt (<) ids \<and> ExtractNodeId ` set ids \<subseteq> {node} \<and>
    (ig_last g' < clock (Suc m + l) \<longrightarrow> NextId clock m g' \<noteq> None)"
proof -
  have b: "unat node \<le> 1023" "unat (ucast node :: u64) = unat node"
    using assms(1) unsigned_less [of node, where 'a = nat]
    by (auto simp: IdGenerator_new_def kMaxNodeId_def word_less_nat_alt unsigned_ucast_eq take_bit_nat_eq_self split: if_splits)
  have k: "kMaxNodeId = mask 10" by (simp add: kMaxNodeId_def mask_eq_exp_minus_1)
  have n: "unat (ucast node AND kMaxNodeId :: u64) = unat node"
    unfolding k unat_and_mask b(2) using b(1) by simp
  have g: "ig_sequence g \<le> kMaxSequence" "unat (ig_node g) = unat node" "unat (ig_last g) < 2 ^ 41"
    using assms(1) n by (auto simp: IdGenerator_new_def split: if_splits)
  have "unat (ig_node g) < 2 ^ 10" using g(2) b(1) by simp
  from next_ids_sorted [OF assms(2) g(1) this assms(3) g(3)] next_ids_node [OF assms(2) g(1) this assms(3)] g(2)
  show ?thesis using NextId_returns [of g' clock m l] by (auto simp: word_unat_eq_iff)
qed

lemma sample_ids: "next_ids (\<lambda>_. 5) 2 0 (the (IdGenerator_new 3)) = Some [20983808, 20983809]"
  by code_simp

theorem snowflake_ids_increase_witness:
  "next_ids (\<lambda>_. 5) 2 0 (the (IdGenerator_new 3)) = Some [20983808, 20983809] \<and>
   sorted_wrt (<) [20983808, 20983809 :: u64] \<and> ExtractNodeId ` set [20983808, 20983809] \<subseteq> {3}"
proof -
  have g: "IdGenerator_new 3 = Some (the (IdGenerator_new 3))" by (simp add: IdGenerator_new_def kMaxNodeId_def)
  show ?thesis using snowflake_ids_increase [OF g sample_ids] sample_ids by simp
qed

theorem timestamps_unique_witness:
  "distinct (fst (alloc_run [OpAllocate 1, OpBatch 2 3, OpGlobal, OpAllocate 0] (TsAllocator_new 0 2 10)))"
proof -
  obtain ts a where r: "alloc_run [OpAllocate 1, OpBatch 2 3, OpGlobal, OpAllocate 0] (TsAllocator_new 0 2 10) = (ts, a)"
    by (cases "alloc_run [OpAllocate 1, OpBatch 2 3, OpGlobal, OpAllocate 0] (TsAllocator_new 0 2 10)")
  have "distinct ts" by (rule timestamps_unique [OF r]) (simp add: shard_count_def)
  then show ?thesis unfolding r by simp
qed

end
