(* ===== verification/Bloom_Filter.thy ===== *)
theory Bloom_Filter
  imports Prelude
begin

text \<open>
  The Bloom filter of \<open>src/include/cedar/sst/bloom_filter.h\<close> and \<open>src/src/sst/bloom_filter.cc\<close>, which lets a reader
  skip an SST file that has no row of an entity: the hash function, the construction, insertion, lookup, and the two ways a
  stored filter is loaded. The filter of a file holds its bits only; the loader sets the number of hash functions to six.
\<close>

subsection \<open>Hash function\<close>

definition kBloomSeed :: u32 where "kBloomSeed = 0xbc9f1d34"

definition murmur_m :: u32 where "murmur_m = 0x5bd1e995"

text \<open>One round over four bytes.\<close>

definition murmur_block :: "u32 \<Rightarrow> u32 \<Rightarrow> u32" where
  "murmur_block h w =
    (let k = w * murmur_m; k = k XOR drop_bit 24 k; k = k * murmur_m in (h * murmur_m) XOR k)"

fun murmur_blocks :: "u32 \<Rightarrow> u8 list \<Rightarrow> u32 \<times> u8 list" where
  "murmur_blocks h (a # b # c # d # rest) = murmur_blocks (murmur_block h (le_word [a, b, c, d])) rest"
| "murmur_blocks h rest = (h, rest)"

text \<open>The switch over the remaining bytes falls through from three bytes to one.\<close>

definition murmur_tail :: "u32 \<Rightarrow> u8 list \<Rightarrow> u32" where
  "murmur_tail h rest =
    (let h = (if length rest = 3 then h XOR push_bit 16 (ucast (rest ! 2)) else h);
         h = (if 2 \<le> length rest then h XOR push_bit 8 (ucast (rest ! 1)) else h)
     in if 1 \<le> length rest then (h XOR ucast (rest ! 0)) * murmur_m else h)"

definition murmur_final :: "u32 \<Rightarrow> u32" where
  "murmur_final h =
    (let h = h XOR drop_bit 13 h; h = h * murmur_m in h XOR drop_bit 15 h)"

definition Bloom_Hash :: "u8 list \<Rightarrow> u32 \<Rightarrow> u32" where
  "Bloom_Hash data seed =
    (let (h, rest) = murmur_blocks (seed XOR of_nat (length data)) data in murmur_final (murmur_tail h rest))"

subsection \<open>Filter\<close>

text \<open>\<open>size_t\<close> is 64 bits wide.\<close>

record bloom_filter =
  bf_data :: "u8 list"
  bf_bits_per_key :: nat
  bf_hash_funcs :: nat
  bf_num_keys :: nat
  bf_initialized :: bool

definition BloomFilter_default :: bloom_filter where
  "BloomFilter_default =
     \<lparr>bf_data = [], bf_bits_per_key = 10, bf_hash_funcs = 0, bf_num_keys = 0, bf_initialized = False\<rparr>"

text \<open>The product with the literal \<open>0.69\<close> is truncated. It is close to an integer only for multiples of 100, far beyond
  the limit of 30 functions, so the rounding of the product does not show.\<close>

definition bloom_hash_funcs :: "nat \<Rightarrow> nat" where
  "bloom_hash_funcs bits_per_key =
    (let n = bits_per_key * 69 div 100; n = (if n < 1 then 1 else n) in if 30 < n then 30 else n)"

definition bloom_bytes :: "nat \<Rightarrow> nat \<Rightarrow> nat" where
  "bloom_bytes bits_per_key num_keys =
    (let bits = num_keys * bits_per_key mod 2 ^ 64; bytes = (bits + 7) mod 2 ^ 64 div 8
     in if bytes < 64 then 64 else bytes)"

definition BloomFilter_new :: "nat \<Rightarrow> nat \<Rightarrow> bloom_filter" where
  "BloomFilter_new bits_per_key num_keys =
    (let b = BloomFilter_default\<lparr>bf_bits_per_key := bits_per_key, bf_num_keys := num_keys\<rparr>
     in if 0 < num_keys
        then b\<lparr>bf_data := replicate (bloom_bytes bits_per_key num_keys) 0, bf_hash_funcs := bloom_hash_funcs bits_per_key\<rparr>
        else b)"

definition Bloom_Init :: "u8 list \<Rightarrow> bloom_filter \<Rightarrow> bloom_filter" where
  "Bloom_Init data b = b\<lparr>bf_data := data, bf_initialized := True, bf_hash_funcs := 6\<rparr>"

definition bloom_bitpos :: "u8 list \<Rightarrow> u32 \<Rightarrow> nat" where
  "bloom_bitpos data h = unat h mod (length data * 8)"

definition set_bit_at :: "nat \<Rightarrow> u8 list \<Rightarrow> u8 list" where
  "set_bit_at p data = data[p div 8 := data ! (p div 8) OR push_bit (p mod 8) 1]"

definition has_bit_at :: "nat \<Rightarrow> u8 list \<Rightarrow> bool" where
  "has_bit_at p data \<longleftrightarrow> data ! (p div 8) AND push_bit (p mod 8) 1 \<noteq> 0"

primrec bloom_set :: "nat \<Rightarrow> u32 \<Rightarrow> u32 \<Rightarrow> u8 list \<Rightarrow> u8 list" where
  "bloom_set 0 h delta data = data"
| "bloom_set (Suc n) h delta data = bloom_set n (h + delta) delta (set_bit_at (bloom_bitpos data h) data)"

primrec bloom_test :: "nat \<Rightarrow> u32 \<Rightarrow> u32 \<Rightarrow> u8 list \<Rightarrow> bool" where
  "bloom_test 0 h delta data = True"
| "bloom_test (Suc n) h delta data = (has_bit_at (bloom_bitpos data h) data \<and> bloom_test n (h + delta) delta data)"

definition bloom_delta :: "u32 \<Rightarrow> u32" where
  "bloom_delta h = drop_bit 17 h OR push_bit 15 h"

definition Bloom_Add :: "u8 list \<Rightarrow> bloom_filter \<Rightarrow> bloom_filter" where
  "Bloom_Add key b =
    (if bf_data b = [] then b
     else let h = Bloom_Hash key kBloomSeed
          in b\<lparr>bf_data := bloom_set (bf_hash_funcs b) h (bloom_delta h) (bf_data b),
               bf_num_keys := (bf_num_keys b + 1) mod 2 ^ 64\<rparr>)"

definition Bloom_Add_u64 :: "u64 \<Rightarrow> bloom_filter \<Rightarrow> bloom_filter" where
  "Bloom_Add_u64 key b = Bloom_Add (le_bytes 8 key) b"

definition Bloom_MayContain :: "u8 list \<Rightarrow> bloom_filter \<Rightarrow> bool" where
  "Bloom_MayContain key b =
    (if bf_data b = [] then True
     else let h = Bloom_Hash key kBloomSeed in bloom_test (bf_hash_funcs b) h (bloom_delta h) (bf_data b))"

definition Bloom_MayContain_u64 :: "u64 \<Rightarrow> bloom_filter \<Rightarrow> bool" where
  "Bloom_MayContain_u64 key b = Bloom_MayContain (le_bytes 8 key) b"

definition Bloom_Clear :: "bloom_filter \<Rightarrow> bloom_filter" where
  "Bloom_Clear b = b\<lparr>bf_data := [], bf_hash_funcs := 0, bf_num_keys := 0, bf_initialized := False\<rparr>"

definition Bloom_Finish :: "bloom_filter \<Rightarrow> u8 list \<times> bloom_filter" where
  "Bloom_Finish b = (bf_data b, Bloom_Clear b)"

definition Bloom_EncodeTo :: "u8 list option \<Rightarrow> bloom_filter \<Rightarrow> u8 list option" where
  "Bloom_EncodeTo buf b =
    (case buf of Some s \<Rightarrow> Some (if bf_data b \<noteq> [] then s @ bf_data b else s) | None \<Rightarrow> None)"

text \<open>\<open>None\<close> is a null pointer.\<close>

definition Bloom_DecodeFrom :: "u8 list option \<Rightarrow> nat \<Rightarrow> bloom_filter \<Rightarrow> bool \<times> bloom_filter" where
  "Bloom_DecodeFrom data num_keys_hint b =
    (case data of
       None \<Rightarrow> (False, b)
     | Some d \<Rightarrow> if d = [] then (False, b)
       else (True, b\<lparr>bf_data := d, bf_initialized := True, bf_num_keys := num_keys_hint, bf_hash_funcs := 6\<rparr>))"

definition Bloom_empty :: "bloom_filter \<Rightarrow> bool" where
  "Bloom_empty b \<longleftrightarrow> bf_data b = [] \<and> bf_hash_funcs b = 0"


subsection \<open>No false negatives\<close>

lemma single_bit: "(x :: u8) AND push_bit n 1 \<noteq> 0 \<longleftrightarrow> bit x n"
  using bit_iff_and_push_bit_not_eq_0 [of x n] by simp

lemma has_bit_at_iff: "has_bit_at p data \<longleftrightarrow> bit (data ! (p div 8)) (p mod 8)"
  unfolding has_bit_at_def single_bit ..

lemma length_set_bit_at [simp]: "length (set_bit_at p data) = length data"
  by (simp add: set_bit_at_def)

lemma has_bit_at_set:
  assumes "q < 8 * length data"
  shows "has_bit_at p (set_bit_at q data) \<longleftrightarrow> p = q \<or> has_bit_at p data"
proof (cases "p div 8 = q div 8")
  case True
  moreover have "q div 8 < length data" using assms by simp
  moreover have "p = q \<longleftrightarrow> p mod 8 = q mod 8" using True by (metis div_mult_mod_eq)
  ultimately show ?thesis by (auto simp: has_bit_at_iff set_bit_at_def bit_simps)
next
  case False
  then show ?thesis by (auto simp: has_bit_at_iff set_bit_at_def)
qed

lemma length_bloom_set [simp]: "length (bloom_set n h delta data) = length data"
  by (induction n arbitrary: h data) simp_all

lemma bloom_set_Nil_iff [simp]: "bloom_set n h delta data = [] \<longleftrightarrow> data = []"
  by (metis length_0_conv length_bloom_set)

lemma bloom_bitpos_less: "data \<noteq> [] \<Longrightarrow> bloom_bitpos data h < 8 * length data"
  by (simp add: bloom_bitpos_def mult.commute)

lemma bloom_bitpos_cong: "length data = length data' \<Longrightarrow> bloom_bitpos data h = bloom_bitpos data' h"
  by (simp add: bloom_bitpos_def)

lemma bloom_test_iff:
  "bloom_test n h delta data \<longleftrightarrow> (\<forall>i < n. has_bit_at (bloom_bitpos data (h + of_nat i * delta)) data)"
  by (induction n arbitrary: h) (simp_all add: All_less_Suc2 algebra_simps)

lemma has_bit_at_bloom_set:
  assumes "data \<noteq> []"
  shows "has_bit_at p (bloom_set n h delta data) \<longleftrightarrow>
    has_bit_at p data \<or> (\<exists>i < n. p = bloom_bitpos data (h + of_nat i * delta))"
  using assms
proof (induction n arbitrary: h data)
  case (Suc n)
  let ?d = "set_bit_at (bloom_bitpos data h) data"
  have "?d \<noteq> []" using Suc.prems by (metis length_0_conv length_set_bit_at)
  moreover have "bloom_bitpos ?d = bloom_bitpos data" by (intro ext bloom_bitpos_cong) simp
  ultimately show ?case
    using has_bit_at_set [OF bloom_bitpos_less [OF Suc.prems], of p h]
    by (auto simp: Suc.IH Ex_less_Suc2 algebra_simps)
qed simp

text \<open>Members of a filter: the keys all of whose positions are set for a number of hash functions.\<close>

definition bloom_member :: "nat \<Rightarrow> u8 list \<Rightarrow> u8 list \<Rightarrow> bool" where
  "bloom_member n key data \<longleftrightarrow>
    (let h = Bloom_Hash key kBloomSeed in bloom_test n h (bloom_delta h) data)"

lemma bloom_member_mono: "bloom_member n key data \<Longrightarrow> m \<le> n \<Longrightarrow> bloom_member m key data"
  by (simp add: bloom_member_def Let_def bloom_test_iff)

lemma bf_Bloom_Add [simp]:
  "length (bf_data (Bloom_Add k b)) = length (bf_data b)"
  "bf_hash_funcs (Bloom_Add k b) = bf_hash_funcs b"
  by (simp_all add: Bloom_Add_def Let_def)

lemma Bloom_Add_member:
  assumes "bf_data b \<noteq> []"
  shows "bloom_member (bf_hash_funcs b) k (bf_data (Bloom_Add k b))"
    and "bloom_member n k' (bf_data b) \<Longrightarrow> bloom_member n k' (bf_data (Bloom_Add k b))"
  using assms
  by (auto simp: bloom_member_def Bloom_Add_def Let_def bloom_test_iff has_bit_at_bloom_set bloom_bitpos_def)

lemma bf_fold_Add [simp]:
  "length (bf_data (fold Bloom_Add ks b)) = length (bf_data b)"
  "bf_hash_funcs (fold Bloom_Add ks b) = bf_hash_funcs b"
  by (induction ks arbitrary: b) simp_all

lemma bf_data_Nil_cong: "length (bf_data a) = length (bf_data b) \<Longrightarrow> bf_data a = [] \<longleftrightarrow> bf_data b = []"
  by (metis length_0_conv)

lemma fold_Add_member:
  assumes "bf_data b \<noteq> []"
  shows "k \<in> set ks \<or> bloom_member (bf_hash_funcs b) k (bf_data b) \<Longrightarrow>
    bloom_member (bf_hash_funcs b) k (bf_data (fold Bloom_Add ks b))"
  using assms
proof (induction ks arbitrary: b)
  case (Cons x ks)
  then have "bf_data (Bloom_Add x b) \<noteq> []" using bf_data_Nil_cong [of "Bloom_Add x b" b] by simp
  moreover have "k \<in> set ks \<or> bloom_member (bf_hash_funcs b) k (bf_data (Bloom_Add x b))"
    using Cons.prems Bloom_Add_member by auto
  ultimately show ?case using Cons.IH [of "Bloom_Add x b"] by simp
qed simp

lemma bloom_bytes_pos: "0 < bloom_bytes b n"
  by (simp add: bloom_bytes_def Let_def)

lemma bloom_hash_funcs_6: "9 \<le> b \<Longrightarrow> 6 \<le> bloom_hash_funcs b"
proof -
  assume "9 \<le> b"
  then have "6 \<le> b * 69 div 100" using div_le_mono [of "9 * 69" "b * 69" 100] by simp
  then show ?thesis by (simp add: bloom_hash_funcs_def Let_def)
qed

lemma murmur_steps_7:
  "7 * 0x5bd1e995 = (0x82bd6313 :: u32)"
  "0x82bd6313 XOR drop_bit 24 0x82bd6313 = (0x82bd6391 :: u32)"
  "0x82bd6391 * 0x5bd1e995 = (0x4c3aec65 :: u32)"
  "0xbc9f1d3c * 0x5bd1e995 = (0xcc339fec :: u32)"
  "0xcc339fec XOR 0x4c3aec65 = (0x80097389 :: u32)"
  "0x80097389 * 0x5bd1e995 = (0x2580efbd :: u32)"
  "0x2580efbd XOR drop_bit 13 0x2580efbd = (0x2581c3ba :: u32)"
  "0x2581c3ba * 0x5bd1e995 = (0xd8853542 :: u32)"
  "0xd8853542 XOR drop_bit 15 0xd8853542 = (0xd8848448 :: u32)"
  by simp_all

lemma bloom_hash_7: "Bloom_Hash (le_bytes 8 (7 :: u64)) kBloomSeed = 0xd8848448"
proof -
  have k: "le_bytes 8 (7 :: u64) = [7, 0, 0, 0, 0, 0, 0, 0]" by (simp add: le_bytes_def upt_rec)
  have s: "kBloomSeed XOR of_nat (length [7, 0, 0, 0, 0, 0, 0, 0 :: u8]) = 0xbc9f1d3c" by (simp add: kBloomSeed_def)
  have w: "le_word [7, 0, 0, 0] = (7 :: u32)" "le_word [0, 0, 0, 0] = (0 :: u32)" by simp_all
  have "murmur_block 0xbc9f1d3c 7 = 0x80097389"
    unfolding murmur_block_def Let_def murmur_m_def murmur_steps_7 ..
  moreover have "murmur_block 0x80097389 0 = 0x2580efbd"
    unfolding murmur_block_def Let_def murmur_m_def murmur_steps_7 by simp
  moreover have "murmur_tail h [] = h" for h by (simp add: murmur_tail_def)
  moreover have "murmur_final 0x2580efbd = 0xd8848448"
    unfolding murmur_final_def Let_def murmur_m_def murmur_steps_7 ..
  ultimately show ?thesis unfolding Bloom_Hash_def k s murmur_blocks.simps w by simp
qed

text \<open>The sixth position of a key lies beside the five positions that a filter with eight bits for each key sets.\<close>

lemma bloom_denies_added:
  "\<not> Bloom_MayContain (le_bytes 8 (7 :: u64))
     (Bloom_Init (fst (Bloom_Finish (fold Bloom_Add [le_bytes 8 (7 :: u64)] (BloomFilter_new 8 1)))) b)"
proof -
  let ?d = "replicate 64 (0 :: u8)"
  have z: "\<not> has_bit_at 402 ?d" by (simp add: has_bit_at_iff)
  have "402 \<noteq> bloom_bitpos ?d (0xd8848448 + of_nat i * 0x42246c42)" if i: "i < 5" for i
  proof -
    consider "i = 0" | "i = 1" | "i = 2" | "i = 3" | "i = 4" using i by linarith
    then show ?thesis by cases (simp_all add: bloom_bitpos_def)
  qed
  then have "\<not> has_bit_at 402 (bloom_set 5 0xd8848448 0x42246c42 ?d)"
    using z by (subst has_bit_at_bloom_set) auto
  moreover have "bloom_bitpos ?d (0xd8848448 + of_nat 5 * 0x42246c42) = 402" by (simp add: bloom_bitpos_def)
  ultimately have "\<not> bloom_test 6 0xd8848448 0x42246c42 (bloom_set 5 0xd8848448 0x42246c42 ?d)"
    by (auto simp: bloom_test_iff bloom_bitpos_def intro!: exI [of _ 5])
  moreover have "bloom_delta 0xd8848448 = 0x42246c42" by (simp add: bloom_delta_def)
  moreover have "BloomFilter_new 8 1 = \<lparr>bf_data = ?d, bf_bits_per_key = 8, bf_hash_funcs = 5, bf_num_keys = 1, bf_initialized = False\<rparr>"
    by (simp add: BloomFilter_new_def BloomFilter_default_def bloom_bytes_def bloom_hash_funcs_def)
  ultimately show ?thesis
    by (simp add: Bloom_MayContain_def Bloom_Init_def Bloom_Finish_def Bloom_Add_def bloom_hash_7)
qed

lemma Bloom_loaded_contains:
  assumes "9 \<le> bits_per_key" and "0 < num_keys" and "k \<in> set ks"
  shows "Bloom_MayContain k (Bloom_Init (fst (Bloom_Finish (fold Bloom_Add ks (BloomFilter_new bits_per_key num_keys)))) b)"
proof -
  let ?n = "BloomFilter_new bits_per_key num_keys"
  have "bf_data ?n \<noteq> []" "bf_hash_funcs ?n = bloom_hash_funcs bits_per_key"
    using assms(2) bloom_bytes_pos [of bits_per_key num_keys] by (simp_all add: BloomFilter_new_def)
  then have "bloom_member 6 k (bf_data (fold Bloom_Add ks ?n))"
    using fold_Add_member [of ?n k ks] assms bloom_hash_funcs_6 bloom_member_mono by metis
  then show ?thesis by (simp add: Bloom_MayContain_def Bloom_Init_def Bloom_Finish_def bloom_member_def)
qed

text \<open>C16. The filter of an SST file has no false negatives when it was built with at least nine bits for each key: every key
  that was added is found in the filter that is loaded from the file and in the filter decoded from a buffer, whatever state
  the filter had before. The bound is needed: the loaders do not know how many hash functions built the filter and test six,
  and a filter with eight bits for each key sets five, so that the loaded filter denies a key that was added.\<close>

theorem bloom_no_false_negatives:
  assumes "9 \<le> bits_per_key" and "0 < num_keys" and "k \<in> set ks"
  shows "(let data = fst (Bloom_Finish (fold Bloom_Add ks (BloomFilter_new bits_per_key num_keys)))
     in Bloom_MayContain k (Bloom_Init data b) \<and>
        fst (Bloom_DecodeFrom (Some data) hint b) \<and> Bloom_MayContain k (snd (Bloom_DecodeFrom (Some data) hint b))) \<and>
    \<not> Bloom_MayContain (le_bytes 8 (7 :: u64))
        (Bloom_Init (fst (Bloom_Finish (fold Bloom_Add [le_bytes 8 (7 :: u64)] (BloomFilter_new 8 1)))) b)"
proof -
  let ?d = "fst (Bloom_Finish (fold Bloom_Add ks (BloomFilter_new bits_per_key num_keys)))"
  have c: "Bloom_MayContain k (Bloom_Init ?d b')" for b' by (rule Bloom_loaded_contains [OF assms])
  have "length ?d = bloom_bytes bits_per_key num_keys"
    using assms(2) by (simp add: Bloom_Finish_def BloomFilter_new_def)
  then have "?d \<noteq> []" using bloom_bytes_pos [of bits_per_key num_keys] by (metis list.size(3) less_irrefl)
  then show ?thesis
    using c bloom_denies_added [of b] by (simp add: Let_def Bloom_DecodeFrom_def Bloom_MayContain_def Bloom_Init_def)
qed

theorem bloom_no_false_negatives_witness:
  "Bloom_MayContain [1, 2, 3] (Bloom_Init (fst (Bloom_Finish (fold Bloom_Add [[9], [1, 2, 3]] (BloomFilter_new 10 2)))) BloomFilter_default)"
  using bloom_no_false_negatives [of 10 2 "[1, 2, 3]" "[[9], [1, 2, 3]]" BloomFilter_default 0] by (simp add: Let_def)

end
