(* ===== verification/Sst_Format.thy ===== *)
theory Sst_Format
  imports Column_Coders Crc32c
begin

text \<open>
  The fixed size records of an SST file, \<open>src/include/cedar/sst/zone_columnar_format_v2.h\<close> and
  \<open>src/src/sst/zone_columnar_format_v2.cc\<close>: the header, the footer, the entries of the block index and the restart
  points, each with its encoder and decoder; and the checksum over the data of a file. A decoder answers an error or the
  record with the rest of its input.
\<close>

definition kMagic :: u32 where "kMagic = 0x5A434F4C"
definition kVersion :: u32 where "kVersion = 1"
definition kFooterMagic :: u32 where "kFooterMagic = 0x464F4F54"

definition kTargetBlockSize :: nat where "kTargetBlockSize = 256 * 1024"
definition kBlockRowLimit :: nat where "kBlockRowLimit = 16384"

subsection \<open>Block index\<close>

record block_index_entry =
  bi_min_entity_id :: u64
  bi_max_entity_id :: u64
  bi_min_timestamp :: u64
  bi_max_timestamp :: u64
  bi_block_offset :: u32
  bi_block_size :: u32
  bi_row_count :: u32

definition BlockIndexEntry_EncodeTo :: "block_index_entry \<Rightarrow> u8 list" where
  "BlockIndexEntry_EncodeTo e =
     le_bytes 8 (bi_min_entity_id e) @ le_bytes 8 (bi_max_entity_id e) @
     le_bytes 8 (bi_min_timestamp e) @ le_bytes 8 (bi_max_timestamp e) @
     le_bytes 4 (bi_block_offset e) @ le_bytes 4 (bi_block_size e) @ le_bytes 4 (bi_row_count e) @ replicate 4 0"

definition BlockIndexEntry_DecodeFrom :: "u8 list \<Rightarrow> Status + block_index_entry \<times> u8 list" where
  "BlockIndexEntry_DecodeFrom input =
    (if length input < 48 then Inl Corruption
     else Inr (\<lparr>bi_min_entity_id = le_word (take 8 input), bi_max_entity_id = le_word (take 8 (drop 8 input)),
                bi_min_timestamp = le_word (take 8 (drop 16 input)), bi_max_timestamp = le_word (take 8 (drop 24 input)),
                bi_block_offset = le_word (take 4 (drop 32 input)), bi_block_size = le_word (take 4 (drop 36 input)),
                bi_row_count = le_word (take 4 (drop 40 input))\<rparr>,
               drop 48 input))"

subsection \<open>Header\<close>

record sst_header =
  sh_magic :: u32
  sh_version :: u32
  sh_file_size :: u64
  sh_min_entity_id :: u64
  sh_max_entity_id :: u64
  sh_min_timestamp :: u64
  sh_max_timestamp :: u64
  sh_column_id :: u32
  sh_entity_type :: u8

definition SstHeader_default :: sst_header where
  "SstHeader_default = \<lparr>sh_magic = kMagic, sh_version = kVersion, sh_file_size = 0, sh_min_entity_id = 0,
     sh_max_entity_id = 0, sh_min_timestamp = 0, sh_max_timestamp = 0, sh_column_id = 0, sh_entity_type = 0\<rparr>"

definition SstHeader_EncodeTo :: "sst_header \<Rightarrow> u8 list" where
  "SstHeader_EncodeTo h =
     le_bytes 4 (sh_magic h) @ le_bytes 4 (sh_version h) @ le_bytes 8 (sh_file_size h) @
     le_bytes 8 (sh_min_entity_id h) @ le_bytes 8 (sh_max_entity_id h) @
     le_bytes 8 (sh_min_timestamp h) @ le_bytes 8 (sh_max_timestamp h) @
     le_bytes 4 (sh_column_id h) @ [sh_entity_type h] @ replicate 11 0"

text \<open>The magic number and the version are assigned before the magic number is checked.\<close>

definition SstHeader_DecodeFrom :: "sst_header \<Rightarrow> u8 list \<Rightarrow> Status \<times> sst_header" where
  "SstHeader_DecodeFrom h input =
    (if length input < 64 then (Corruption, h)
     else let h = h\<lparr>sh_magic := le_word (take 4 input), sh_version := le_word (take 4 (drop 4 input))\<rparr>
          in if sh_magic h \<noteq> kMagic then (Corruption, h)
             else (OK, h\<lparr>sh_file_size := le_word (take 8 (drop 8 input)),
               sh_min_entity_id := le_word (take 8 (drop 16 input)), sh_max_entity_id := le_word (take 8 (drop 24 input)),
               sh_min_timestamp := le_word (take 8 (drop 32 input)), sh_max_timestamp := le_word (take 8 (drop 40 input)),
               sh_column_id := le_word (take 4 (drop 48 input)), sh_entity_type := input ! 52\<rparr>))"

subsection \<open>Footer\<close>

record sst_footer =
  sf_block_index_offset :: u32
  sf_block_index_size :: u32
  sf_bloom_filter_offset :: u32
  sf_bloom_filter_size :: u32
  sf_row_count :: u64
  sf_block_count :: u32
  sf_footer_magic :: u32
  sf_temporal_filter_offset :: u32
  sf_temporal_filter_size :: u32
  sf_entity_index_offset :: u32
  sf_entity_index_size :: u32
  sf_data_checksum :: u64

definition SstFooter_EncodeTo :: "sst_footer \<Rightarrow> u8 list" where
  "SstFooter_EncodeTo f =
     le_bytes 4 (sf_block_index_offset f) @ le_bytes 4 (sf_block_index_size f) @
     le_bytes 4 (sf_bloom_filter_offset f) @ le_bytes 4 (sf_bloom_filter_size f) @ le_bytes 8 (sf_row_count f) @
     le_bytes 4 (sf_block_count f) @ le_bytes 4 (sf_footer_magic f) @
     le_bytes 4 (sf_temporal_filter_offset f) @ le_bytes 4 (sf_temporal_filter_size f) @
     le_bytes 4 (sf_entity_index_offset f) @ le_bytes 4 (sf_entity_index_size f) @
     le_bytes 8 (sf_data_checksum f) @ replicate 8 0"

text \<open>All fields are assigned before the magic number is checked.\<close>

definition SstFooter_DecodeFrom :: "sst_footer \<Rightarrow> u8 list \<Rightarrow> Status \<times> sst_footer" where
  "SstFooter_DecodeFrom f input =
    (if length input < 64 then (Corruption, f)
     else let f = \<lparr>sf_block_index_offset = le_word (take 4 input), sf_block_index_size = le_word (take 4 (drop 4 input)),
                sf_bloom_filter_offset = le_word (take 4 (drop 8 input)),
                sf_bloom_filter_size = le_word (take 4 (drop 12 input)),
                sf_row_count = le_word (take 8 (drop 16 input)),
                sf_block_count = le_word (take 4 (drop 24 input)), sf_footer_magic = le_word (take 4 (drop 28 input)),
                sf_temporal_filter_offset = le_word (take 4 (drop 32 input)),
                sf_temporal_filter_size = le_word (take 4 (drop 36 input)),
                sf_entity_index_offset = le_word (take 4 (drop 40 input)),
                sf_entity_index_size = le_word (take 4 (drop 44 input)),
                sf_data_checksum = le_word (take 8 (drop 48 input))\<rparr>
          in (if sf_footer_magic f \<noteq> kFooterMagic then Corruption else OK, f))"

subsection \<open>Restart points\<close>

record zone_restart_point =
  rp_entity_id :: u64
  rp_timestamp_hi :: u32
  rp_row_index :: u32

definition ZoneRestartPoint_EncodeTo :: "zone_restart_point \<Rightarrow> u8 list" where
  "ZoneRestartPoint_EncodeTo r = le_bytes 8 (rp_entity_id r) @ le_bytes 4 (rp_timestamp_hi r) @ le_bytes 4 (rp_row_index r)"

definition ZoneRestartPoint_DecodeFrom :: "u8 list \<Rightarrow> Status + zone_restart_point \<times> u8 list" where
  "ZoneRestartPoint_DecodeFrom input =
    (if length input < 16 then Inl Corruption
     else Inr (\<lparr>rp_entity_id = le_word (take 8 input), rp_timestamp_hi = le_word (take 4 (drop 8 input)),
                rp_row_index = le_word (take 4 (drop 12 input))\<rparr>, drop 16 input))"

subsection \<open>Checksum of the data\<close>

definition ComputeCRC64 :: "crc_hw option \<Rightarrow> u8 list \<Rightarrow> u64" where
  "ComputeCRC64 hw data =
    (let crc_lo = crc_Value hw data; crc_hi = Extend hw 0xa5a5a5a5 data
     in push_bit 32 (ucast crc_hi) OR ucast crc_lo)"

subsection \<open>Round trips\<close>

lemma length_BlockIndexEntry_EncodeTo [simp]: "length (BlockIndexEntry_EncodeTo e) = 48"
  by (simp add: BlockIndexEntry_EncodeTo_def)

lemma length_SstHeader_EncodeTo [simp]: "length (SstHeader_EncodeTo h) = 64"
  by (simp add: SstHeader_EncodeTo_def)

lemma length_SstFooter_EncodeTo [simp]: "length (SstFooter_EncodeTo f) = 64"
  by (simp add: SstFooter_EncodeTo_def)

lemma BlockIndexEntry_Decode_Encode [simp]:
  "BlockIndexEntry_DecodeFrom (BlockIndexEntry_EncodeTo e @ rest) = Inr (e, rest)"
  by (simp add: BlockIndexEntry_DecodeFrom_def BlockIndexEntry_EncodeTo_def)

lemma SstHeader_Decode_Encode:
  "sh_magic h = kMagic \<Longrightarrow> SstHeader_DecodeFrom h0 (SstHeader_EncodeTo h) = (OK, h)"
  by (simp add: SstHeader_DecodeFrom_def SstHeader_EncodeTo_def nth_append)

lemma SstFooter_Decode_Encode:
  "sf_footer_magic f = kFooterMagic \<Longrightarrow> SstFooter_DecodeFrom f0 (SstFooter_EncodeTo f) = (OK, f)"
  by (simp add: SstFooter_DecodeFrom_def SstFooter_EncodeTo_def)

lemma ZoneRestartPoint_Decode_Encode:
  "ZoneRestartPoint_DecodeFrom (ZoneRestartPoint_EncodeTo r @ rest) = Inr (r, rest)"
  by (simp add: ZoneRestartPoint_DecodeFrom_def ZoneRestartPoint_EncodeTo_def)

subsection \<open>Strength of the checksum\<close>

text \<open>The two halves of the checksum run over the same bytes from different start values: the division is linear, so
  their difference depends on the length of the data only.\<close>

lemma crc_bytes_xor:
  "foldl crc_byte l bs XOR foldl crc_byte l' bs = (crc_bit ^^ (8 * length bs)) (l XOR l')"
proof (induction bs arbitrary: l l')
  case (Cons b bs)
  have "crc_byte l b XOR crc_byte l' b = (crc_bit ^^ 8) (l XOR l')"
    unfolding crc_byte_def crc_bits_xor [symmetric] by (simp add: xor.assoc xor.left_commute xor.commute)
  moreover have "(crc_bit ^^ (8 * length (b # bs))) x = (crc_bit ^^ (8 * length bs)) ((crc_bit ^^ 8) x)" for x
    using funpow_add [of "8 * length bs" 8 crc_bit] by (simp add: add.commute)
  ultimately show ?case by (simp only: foldl_Cons Cons.IH)
qed simp

lemma crc_spec_xor:
  "crc_spec c data XOR crc_spec c' data = (crc_bit ^^ (8 * length data)) (c XOR c')"
  using crc_bytes_xor [of "c XOR 0xFFFFFFFF" data "c' XOR 0xFFFFFFFF"]
  by (simp add: crc_spec_def xor.assoc xor.left_commute xor.commute)

lemma bit_CRC64:
  "bit (ComputeCRC64 hw data) n \<longleftrightarrow>
    (if n < 32 then bit (crc_Value hw data) n else bit (Extend hw 0xa5a5a5a5 data) (n - 32))"
  by (auto simp: ComputeCRC64_def Let_def bit_simps dest: bit_imp_le_length)

lemma CRC64_eq_iff:
  assumes "crc_build_ok hw" and "length a = length b"
  shows "ComputeCRC64 hw a = ComputeCRC64 hw b \<longleftrightarrow> crc_Value hw a = crc_Value hw b"
proof
  assume eq: "crc_Value hw a = crc_Value hw b"
  have "crc_spec 0xa5a5a5a5 x = crc_spec 0 x XOR (crc_bit ^^ (8 * length x)) (0xa5a5a5a5 XOR 0)" for x
    unfolding crc_spec_xor [symmetric] by (simp add: xor.assoc xor.left_commute xor.commute)
  moreover have "crc_spec 0 a = crc_spec 0 b" using eq assms(1) by (simp add: crc_Value_def Extend_spec)
  ultimately have "Extend hw 0xa5a5a5a5 a = Extend hw 0xa5a5a5a5 b" using assms by (simp add: Extend_spec)
  then show "ComputeCRC64 hw a = ComputeCRC64 hw b" using eq by (simp add: ComputeCRC64_def)
next
  assume "ComputeCRC64 hw a = ComputeCRC64 hw b"
  then have "bit (crc_Value hw a) n = bit (crc_Value hw b) n" if "n < 32" for n
    using that bit_CRC64 [of hw a n] bit_CRC64 [of hw b n] by simp
  then show "crc_Value hw a = crc_Value hw b" by (intro bit_word_eqI) simp
qed

end
