(* ===== verification/Spec2Isabelle.thy ===== *)
theory Spec2Isabelle
  imports Cedar_Key Descriptor Hybrid_Clock Temporal_Window Twcd_Engine Txn_Context Version_Chain Txn_State Vsl_Memtable Crc32c
    Wal Wal_Replay Lnd_Occ Deadlock Txn_Recovery Column_Coders Id_Allocation Bloom_Filter Sst_Format
begin

text \<open>
  \<^bold>\<open>CedarGraph: a verification library for the storage and transaction core.\<close>

  CedarGraph (\<open>src/\<close>) is a distributed temporal graph database written in C++. Every cell of a vertex or an edge has
  versions at points in time. A write goes to the write-ahead log and to a memtable (a skip list of versions); memtables are
  flushed to SST files; a transaction reads and writes through an optimistic protocol with temporal windows, and over several
  partitions through two-phase commit, whose coordinator logs its state and is recovered from the log. The library models
  the parts of this path that decide which data a client sees, and proves what makes them correct. Where a part does not do
  what it means to, the theorem states what the code does.

  \<^bold>\<open>Modelling conventions.\<close> A class is a record of its fields, an operation a function from the record to its results and
  the new record, an exception or error code a value (\<open>Status\<close>, an option or a sum). Integers that can wrap are words of
  their width. A mutex makes a call one step; where the code relies on atomics only (\<open>Id_Allocation\<close>) threads are
  interleaved step by step. Clock readings, random heights and the outcomes of file and network calls are arguments. The
  processor's checksum instructions, the compression libraries and the remote participants are parameters with the laws
  their documentation states. Signed subtraction wraps around where C++ leaves an overflow undefined (\<open>Column_Coders\<close>). A loop that may not end is a \<open>partial_function\<close> into options, and returning is proved.

  \<^bold>\<open>Theories.\<close>
  \<^item> \<open>Prelude\<close>: machine integers and their bytes in memory, three-way comparison and \<open>memcmp\<close> with the interface
    \<open>comparator\<close>, ordered maps, status codes (\<open>core/status.h\<close>).
  \<^item> \<open>Cedar_Key\<close>, \<open>Descriptor\<close>: the 32 byte key and the 64 bit cell value (\<open>types/cedar_key.h\<close>, \<open>types/descriptor.h\<close>):
    codecs, field access, and the orders of keys; the three comparisons interpret \<open>comparator\<close>.
  \<^item> \<open>Hybrid_Clock\<close>, \<open>Temporal_Window\<close>: \<open>dtx/utils/hybrid_logical_clock.cc\<close> and \<open>temporal_window.cc\<close>: monotonicity along
    runs, exactness of overlap, termination of splitting.
  \<^item> \<open>Twcd_Engine\<close>: the interval tree and the conflict detection of \<open>dtx/protocol/twcd_engine.cc\<close>: in every reachable
    state queries are complete for bounded windows and checks are exact.
  \<^item> \<open>Txn_Context\<close>, \<open>Version_Chain\<close>: \<open>dtx/coordinator/txn_context.cc\<close> and \<open>dtx/protocol/version_chain.cc\<close>: text form of a
    transaction; chains of versions, validation and garbage collection. The chain index interprets the interface
    \<open>version_store\<close>, from which the validation theorems follow.
  \<^item> \<open>Txn_State\<close>, \<open>Txn_Recovery\<close>: \<open>dtx/transaction_state.cc\<close> and \<open>dtx/transaction_recovery_manager.cc\<close>: the state log of
    the coordinator refines the table of transactions; when its writes succeed, recovery from any part of the log that a
    restart accepts takes one decision, which agrees with the messages sent up to there.
  \<^item> \<open>Vsl_Memtable\<close>: \<open>storage/versioned_skiplist_lockfree.cc\<close>, \<open>vsl_memtable.cc\<close>: towers, insertion, reads of the latest
    version and at a time. Reads at a time are right for versions that arrive in order and with one type per place; what
    happens otherwise is proved as well.
  \<^item> \<open>Crc32c\<close>, \<open>Wal\<close>, \<open>Wal_Replay\<close>: \<open>core/crc32c.cc\<close>, \<open>transaction/wal.cc\<close> over the buffered files of
    \<open>core/env_posix.cc\<close>, and \<open>InitWAL\<close>, \<open>ReplayWAL\<close> and their calls in \<open>LsmEngine::Open\<close>: checksums, record
    and batch formats, the writer with group commit, and the replay into the memtable after a crash or damage. A file is the
    bytes in it, how many of them are on the disk, and the bytes in the buffer. The recovery theorems start from files of
    earlier runs, because the engine does not replay the first file of a database.
  \<^item> \<open>Lnd_Occ\<close>: \<open>dtx/protocol/lsm_native_occ.cc\<close>: the commit of a partition and the three commit paths of the engine,
    composed from the conflict detection, the state log, the write-ahead log and the memtable.
  \<^item> \<open>Deadlock\<close>: \<open>dtx/deadlock_detector.cc\<close>: the wait-for graph refines the list of registered waits; detection is exact
    below the depth limit.
  \<^item> \<open>Column_Coders\<close>: \<open>sst/column_coders.cc\<close> and \<open>sst/compression.cc\<close>: encoders and decoders of columns.
  \<^item> \<open>Id_Allocation\<close>: \<open>common/id_generator.h\<close> and \<open>transaction/sharded_timestamp_allocator.cc\<close>: uniqueness for calls one
    after the other, and the interleavings that break it.
  \<^item> \<open>Bloom_Filter\<close>, \<open>Sst_Format\<close>: \<open>sst/bloom_filter.cc\<close> and \<open>sst/zone_columnar_format_v2.cc\<close>: the filter of an SST file
    has no false negatives for the sizes in use; the fixed records of a file and its checksum.

  \<^bold>\<open>Properties.\<close> The theorems with a number in the text above them are the properties of the library, numbered by importance; each has its
  statement in words above it, and a witness below it where it has hypotheses. Most are about runs: whatever sequence of
  operations led to a state, the answers agree with an abstract state (a list of registered waits, a map of versions, a
  table of transactions).

  \<^bold>\<open>Bounds and fuel.\<close> Hypotheses bound lengths so that a count fits its 32 or 64 bit field, and clocks to the range the code
  can represent; they are stated in each theorem. The walks with fuel (retries of a commit, a skip list) are
  given the number of elements they can visit, and it is proved that they end within it.

  \<^bold>\<open>Not modelled.\<close>
  \<^item> The rest of the storage engine (\<open>lsm_engine.cc\<close> beyond replay, the manifest, blob files, block and reader caches,
    parallel compaction): threads, file deletion and background scheduling around the parts modelled here.
  \<^item> The zone encoders (\<open>sst/zone_encoder.cc\<close>) that the current file format does not use.
  \<^item> The second transaction layer (\<open>transaction/occ_transaction.cc\<close>, \<open>write_batch.cc\<close>, \<open>dtx/optimized_2pc_engine.cc\<close>).
  \<^item> Query language and execution (\<open>cypher/\<close>, \<open>query/\<close>, \<open>queryd/\<close>), graph layer (\<open>graph/\<close>, \<open>db/\<close>), graph compute nodes
    (\<open>gcn/\<close>).
  \<^item> Services, clients and governance (\<open>service/\<close>, \<open>client/\<close>, \<open>driver/\<close>, \<open>governance/\<close>, \<open>cdc/\<close>, \<open>backup/\<close>), Raft (a third
    party library behind \<open>dtx/raft\<close>), remote calls, security and metrics: input and output, generated code, and libraries
    the sources only call.
  \<^item> Statistics in floating point, message texts and memory orders weaker than sequential consistency.
\<close>

end
